(* ===== verification/Prelude.thy ===== *)
theory Prelude
  imports Main "HOL-Library.Word"
begin

text \<open>
  What every component of the development shares: the faults a C++ operation can run into, the
  result type of the operations that may fault and its sequencing, the byte type of wire data
  and the little-endian codecs of the x86-64 ABI, and the collections of facts the component
  proofs are carried by.
\<close>

section \<open>Collections of facts\<close>

named_theorems field_simps_bs \<open>rewriting with the cells of a game field\<close>
named_theorems wire_simps \<open>lengths and codes of the wire format\<close>
named_theorems session_frame \<open>what the operations of a session leave alone\<close>
named_theorems server_inv \<open>preservation of the server invariant\<close>

section \<open>Faults and results\<close>

text \<open>
  An operation of the source that dereferences a null pointer, touches freed memory, reads
  memory that was never written or leaves the bounds of an array has undefined behaviour; in
  the model it returns the fault instead of a value. \<open>Diverges\<close> is the outcome of a loop whose
  bound of iterations is exhausted; \<open>OutOfFuel\<close> is that of the loop over the timeout handlers, whose
  bound is an input of the model, and no outcome of the program: a large bound avoids it.
\<close>

datatype fault = NullDeref | UseAfterFree | OutOfBounds | Uninitialised | Diverges | OutOfFuel

type_synonym 'a res = "fault + 'a"

text \<open>The number of descriptors an \<^verbatim>\<open>fd_set\<close> has room for.\<close>

definition FD_SETSIZE :: int where "FD_SETSIZE = 1024"

primrec rbind :: "'a res \<Rightarrow> ('a \<Rightarrow> 'b res) \<Rightarrow> 'b res" where
  "rbind (Inl e) f = Inl e"
| "rbind (Inr x) f = f x"

lemma rbind_Inr_iff: "rbind r f = Inr y \<longleftrightarrow> (\<exists>x. r = Inr x \<and> f x = Inr y)"
  by (cases r) auto

lemma rbind_Inl_iff: "rbind r f = Inl e \<longleftrightarrow> r = Inl e \<or> (\<exists>x. r = Inr x \<and> f x = Inl e)"
  by (cases r) auto

lemma rbind_assoc: "rbind (rbind r f) g = rbind r (\<lambda>x. rbind (f x) g)"
  by (cases r) auto

definition ok_with :: "('a \<Rightarrow> bool) \<Rightarrow> 'a res \<Rightarrow> bool" where
  "ok_with P r = (case r of Inl e \<Rightarrow> False | Inr x \<Rightarrow> P x)"

lemma ok_with_Inr [simp]: "ok_with P (Inr x) = P x"
  by (simp add: ok_with_def)

lemma ok_with_Inl [simp]: "\<not> ok_with P (Inl e)"
  by (simp add: ok_with_def)

lemma ok_withD: "ok_with P r \<Longrightarrow> \<exists>x. r = Inr x \<and> P x"
  by (cases r) auto

lemma ok_with_rbind: "ok_with P r \<Longrightarrow> (\<And>x. P x \<Longrightarrow> ok_with Q (f x)) \<Longrightarrow> ok_with Q (rbind r f)"
  by (cases r) auto

lemma ok_with_mono: "ok_with P r \<Longrightarrow> (\<And>x. P x \<Longrightarrow> Q x) \<Longrightarrow> ok_with Q r"
  by (cases r) auto

text \<open>\<open>res_with E P r\<close>: the result satisfies \<open>P\<close>, or the operation ran into a fault of \<open>E\<close>.\<close>

definition res_with :: "fault set \<Rightarrow> ('a \<Rightarrow> bool) \<Rightarrow> 'a res \<Rightarrow> bool" where
  "res_with E P r = (case r of Inl e \<Rightarrow> e \<in> E | Inr x \<Rightarrow> P x)"

lemma res_with_Inr [simp]: "res_with E P (Inr x) = P x"
  by (simp add: res_with_def)

lemma res_with_Inl [simp]: "res_with E P (Inl e) = (e \<in> E)"
  by (simp add: res_with_def)

lemma res_with_ok: "ok_with P r \<Longrightarrow> (\<And>x. P x \<Longrightarrow> Q x) \<Longrightarrow> res_with E Q r"
  by (cases r) auto

lemma res_with_rbind:
  "res_with E P r \<Longrightarrow> (\<And>x. P x \<Longrightarrow> res_with E Q (f x)) \<Longrightarrow> res_with E Q (rbind r f)"
  by (cases r) auto

lemma res_with_mono:
  "res_with E P r \<Longrightarrow> E \<subseteq> F \<Longrightarrow> (\<And>x. P x \<Longrightarrow> Q x) \<Longrightarrow> res_with F Q r"
  by (cases r) auto

text \<open>A \<^verbatim>\<open>for\<close> loop over a list of indices whose body may fault.\<close>

primrec rfor :: "'i list \<Rightarrow> ('i \<Rightarrow> 's \<Rightarrow> 's res) \<Rightarrow> 's \<Rightarrow> 's res" where
  "rfor [] f s = Inr s"
| "rfor (i # is) f s = rbind (f i s) (rfor is f)"

lemma ok_with_rfor:
  assumes "\<And>i s. i \<in> set is \<Longrightarrow> P s \<Longrightarrow> ok_with P (f i s)" "P s"
  shows "ok_with P (rfor is f s)"
  using assms by (induction "is" arbitrary: s) (auto intro: ok_with_rbind)

lemma res_with_rfor:
  assumes "\<And>i s. i \<in> set is \<Longrightarrow> P s \<Longrightarrow> res_with E P (f i s)" "P s"
  shows "res_with E P (rfor is f s)"
  using assms by (induction "is" arbitrary: s) (auto intro: res_with_rbind)

section \<open>Systems of steps that may fault\<close>

text \<open>
  The states a program reaches from its initial states by steps that do not fault, one step for
  each input.
\<close>

inductive reach :: "('s \<Rightarrow> bool) \<Rightarrow> ('i \<Rightarrow> 's \<Rightarrow> 's res) \<Rightarrow> 's \<Rightarrow> bool"
  for init :: "'s \<Rightarrow> bool" and step :: "'i \<Rightarrow> 's \<Rightarrow> 's res" where
  reach_init: "init s \<Longrightarrow> reach init step s"
| reach_step: "reach init step s \<Longrightarrow> step i s = Inr s' \<Longrightarrow> reach init step s'"

inductive_cases reach_cases: "reach init step s"

text \<open>
  What a program owes to be analysed by its invariant: the initial states have it, and a step from
  a state that has it keeps it or stops with a fault that is allowed.
\<close>

locale fault_system =
  fixes init :: "'s \<Rightarrow> bool" and step :: "'i \<Rightarrow> 's \<Rightarrow> 's res"
    and inv :: "'s \<Rightarrow> bool" and allowed :: "fault set"
  assumes init_inv: "init s \<Longrightarrow> inv s"
    and step_inv: "inv s \<Longrightarrow> res_with allowed inv (step i s)"
begin

lemma reach_inv: "reach init step s \<Longrightarrow> inv s"
proof (induction rule: reach.induct)
  case (reach_init s)
  then show ?case by (rule init_inv)
next
  case (reach_step s i s')
  then show ?case using step_inv [of s i] by simp
qed

lemma reach_fault: "reach init step s \<Longrightarrow> step i s = Inl e \<Longrightarrow> e \<in> allowed"
  using step_inv [OF reach_inv, of s i] by simp

lemma reach_no_fault: "reach init step s \<Longrightarrow> e \<notin> allowed \<Longrightarrow> step i s \<noteq> Inl e"
  using reach_fault by blast

end

section \<open>Bytes and little-endian words\<close>

type_synonym byte = "8 word"

text \<open>The \<open>n\<close> bytes of an integer in two's complement, least significant byte first.\<close>

fun le_bytes :: "nat \<Rightarrow> int \<Rightarrow> byte list" where
  "le_bytes 0 v = []"
| "le_bytes (Suc n) v = word_of_int v # le_bytes n (v div 256)"

fun le_uint :: "byte list \<Rightarrow> int" where
  "le_uint [] = 0"
| "le_uint (b # bs) = uint b + 256 * le_uint bs"

definition le_sint :: "byte list \<Rightarrow> int" where
  "le_sint bs = (let v = le_uint bs; m = 256 ^ length bs in if 2 * v < m then v else v - m)"

lemma length_le_bytes [simp, wire_simps]: "length (le_bytes n v) = n"
  by (induction n arbitrary: v) auto

lemma le_uint_bounds: "0 \<le> le_uint bs \<and> le_uint bs < 256 ^ length bs"
proof (induction bs)
  case Nil
  then show ?case by simp
next
  case (Cons b bs)
  have "0 \<le> uint b" "uint b < 256"
    using uint_lt2p [of b] by auto
  with Cons show ?case by auto
qed

lemma uint_byte_of_int: "uint (word_of_int v :: byte) = v mod 256"
  by (simp add: uint_word_of_int)

lemma le_uint_le_bytes: "le_uint (le_bytes n v) = v mod 256 ^ n"
proof (induction n arbitrary: v)
  case 0
  then show ?case by simp
next
  case (Suc n)
  have "v mod (256 * 256 ^ n) = 256 * (v div 256 mod 256 ^ n) + v mod 256"
    by (simp add: zmod_zmult2_eq)
  with Suc show ?case by (simp add: uint_byte_of_int)
qed

lemma le_uint_le_bytes_id:
  "0 \<le> v \<Longrightarrow> v < 256 ^ n \<Longrightarrow> le_uint (le_bytes n v) = v"
  by (simp add: le_uint_le_bytes)

lemma le_sint_le_bytes_id:
  assumes "- (256 ^ n) \<le> 2 * v" and "2 * v < 256 ^ n"
  shows "le_sint (le_bytes n v) = v"
proof (cases "0 \<le> v")
  case True
  with assms show ?thesis by (simp add: le_sint_def le_uint_le_bytes Let_def)
next
  case False
  have "v mod 256 ^ n = (v + 256 ^ n) mod 256 ^ n" by simp
  also have "\<dots> = v + 256 ^ n" using assms(1) False by (intro mod_pos_pos_trivial) auto
  finally show ?thesis using assms False by (simp add: le_sint_def le_uint_le_bytes Let_def)
qed

section \<open>Lists\<close>

lemma take_append_exact [simp]: "length xs = n \<Longrightarrow> take n (xs @ ys) = xs"
  by auto

lemma drop_append_exact [simp]: "length xs = n \<Longrightarrow> drop n (xs @ ys) = ys"
  by auto

text \<open>The nested loops of the source that leave with \<open>false\<close> at the first offending element.\<close>

definition all_upto :: "nat \<Rightarrow> (nat \<Rightarrow> bool) \<Rightarrow> bool" where
  "all_upto n P = list_all P [0..<n]"

lemma all_upto_iff: "all_upto n P \<longleftrightarrow> (\<forall>i<n. P i)"
  by (auto simp: all_upto_def list_all_iff)

end
