(* ===== verification/Const.thy ===== *)
theory Const
  imports Prelude
begin

text \<open>
  The constants and enumerations of \<^verbatim>\<open>src/core/const.h\<close>: the states of a game, the kinds of
  message, the results of the user's input and of reading a buffer, and the durations.
\<close>

section \<open>Durations and ports\<close>

definition MAIN_SERVER_PORT :: int where "MAIN_SERVER_PORT = 10463"
definition TURN_DURATION :: int where "TURN_DURATION = 15"
definition PREPARATION_DURATION :: int where "PREPARATION_DURATION = 70"
definition WAIT_DURATION :: int where "WAIT_DURATION = 2"

section \<open>Game states\<close>

datatype GameState =
    NO_VACANT_GAME
  | WAIT_PLAYER
  | WAIT_PREPARATION
  | PREPARATION
  | WAIT_START
  | GAME_TURN
  | PROCESS_TURN
  | OWN_TURN
  | ENEMY_TURN
  | WIN_GAME
  | LOSE_GAME

fun GameState_code :: "GameState \<Rightarrow> int" where
  "GameState_code NO_VACANT_GAME = 0"
| "GameState_code WAIT_PLAYER = 1"
| "GameState_code WAIT_PREPARATION = 2"
| "GameState_code PREPARATION = 3"
| "GameState_code WAIT_START = 4"
| "GameState_code GAME_TURN = 5"
| "GameState_code PROCESS_TURN = 6"
| "GameState_code OWN_TURN = 7"
| "GameState_code ENEMY_TURN = 8"
| "GameState_code WIN_GAME = 9"
| "GameState_code LOSE_GAME = 10"

section \<open>Message types\<close>

datatype MsgType =
    INVALID_MSG
  | GAME_STATE_MSG
  | GAME_SESSION_REQ_MSG
  | GAME_FIELD_MSG
  | START_FIELD_REQ_MSG
  | STOP_PREPARATION_MSG
  | START_TURN_MSG
  | STOP_TURN_MSG
  | GAME_MOVE_MSG
  | SERVER_CONN_STATUS_REQ_MSG
  | SERVER_CONN_STATUS_MSG
  | SERVER_CONN_REQ_MSG
  | RECEIPT_MSG
  | INFO_MSG
  | ERROR_MSG
  | UNDEFINED_MSG

fun MsgType_code :: "MsgType \<Rightarrow> int" where
  "MsgType_code INVALID_MSG = 0"
| "MsgType_code GAME_STATE_MSG = 1"
| "MsgType_code GAME_SESSION_REQ_MSG = 2"
| "MsgType_code GAME_FIELD_MSG = 3"
| "MsgType_code START_FIELD_REQ_MSG = 4"
| "MsgType_code STOP_PREPARATION_MSG = 5"
| "MsgType_code START_TURN_MSG = 6"
| "MsgType_code STOP_TURN_MSG = 7"
| "MsgType_code GAME_MOVE_MSG = 8"
| "MsgType_code SERVER_CONN_STATUS_REQ_MSG = 9"
| "MsgType_code SERVER_CONN_STATUS_MSG = 10"
| "MsgType_code SERVER_CONN_REQ_MSG = 11"
| "MsgType_code RECEIPT_MSG = 12"
| "MsgType_code INFO_MSG = 13"
| "MsgType_code ERROR_MSG = 14"
| "MsgType_code UNDEFINED_MSG = 15"

definition all_MsgTypes :: "MsgType list" where
  "all_MsgTypes = [INVALID_MSG, GAME_STATE_MSG, GAME_SESSION_REQ_MSG, GAME_FIELD_MSG,
     START_FIELD_REQ_MSG, STOP_PREPARATION_MSG, START_TURN_MSG, STOP_TURN_MSG, GAME_MOVE_MSG,
     SERVER_CONN_STATUS_REQ_MSG, SERVER_CONN_STATUS_MSG, SERVER_CONN_REQ_MSG, RECEIPT_MSG,
     INFO_MSG, ERROR_MSG, UNDEFINED_MSG]"

text \<open>
  The value the source switches on is whatever four bytes the peer sent: \<open>MsgType_of_code\<close> is
  \<open>None\<close> for a value outside the enumeration, which no \<^verbatim>\<open>case\<close> label of the source matches.
\<close>

definition MsgType_of_code :: "int \<Rightarrow> MsgType option" where
  "MsgType_of_code c = find (\<lambda>t. MsgType_code t = c) all_MsgTypes"

lemma MsgType_of_code_code [simp]: "MsgType_of_code (MsgType_code t) = Some t"
  by (cases t) (simp_all add: MsgType_of_code_def all_MsgTypes_def)

lemma MsgType_code_of_code: "MsgType_of_code c = Some t \<Longrightarrow> MsgType_code t = c"
  by (auto simp: MsgType_of_code_def find_Some_iff)

lemma MsgType_code_bounds: "0 \<le> MsgType_code t \<and> MsgType_code t < 16"
  by (cases t) simp_all

lemma GameState_code_bounds: "0 \<le> GameState_code s \<and> GameState_code s < 11"
  by (cases s) simp_all

lemma GameState_code_inj: "GameState_code s = GameState_code t \<longleftrightarrow> s = t"
  by (cases s; cases t) simp_all

section \<open>Input and buffer results\<close>

datatype InputResult =
    QUIT_IN
  | REQ_SERVER_CONN_STATUS_IN
  | REQ_SERVER_CONN_IN
  | REQ_GAME_SESSION_IN
  | PREPARE_FIELD_IN
  | CURSOR_MOVE_IN
  | SHOT_IN
  | INVALID_IN

datatype BuffError =
    INVALID_FD
  | CONN_BROKEN
  | FULL_BUFF
  | EMPTY_BUFF
  | READ_ERR
  | TO_SMALL_MSG_ERR
  | INVALID_MSG_ERR
  | BUFF_OK

end
