(* ===== verification/Geometry.thy ===== *)
theory Geometry
  imports Prelude
begin

text \<open>
  The points of the plane (\<^verbatim>\<open>src/core/point.h\<close>, \<^verbatim>\<open>point.cpp\<close>). The coordinates are C
  \<^verbatim>\<open>int\<close>s; the arithmetic of the source stays within a few units of the field and the
  terminal, so the model uses unbounded integers, and the wire format of a point states the
  32-bit range where it matters.
\<close>

datatype Point = Point (px: int) (py: int)

definition Point_default :: Point where
  "Point_default = Point 0 0"

definition point_add :: "Point \<Rightarrow> Point \<Rightarrow> Point" where
  "point_add p q = Point (px p + px q) (py p + py q)"

definition point_sub :: "Point \<Rightarrow> Point \<Rightarrow> Point" where
  "point_sub p q = Point (px p - px q) (py p - py q)"

text \<open>\<open>swap\<close> exchanges the two points: the new value of \<open>*this\<close> and of the argument.\<close>

definition point_swap :: "Point \<Rightarrow> Point \<Rightarrow> Point \<times> Point" where
  "point_swap this other = (let tmp = other; other' = this; this' = tmp in (this', other'))"

definition point_eq :: "Point \<Rightarrow> Point \<Rightarrow> bool" where
  "point_eq p q = (px p = px q \<and> py p = py q)"

definition point_neq :: "Point \<Rightarrow> Point \<Rightarrow> bool" where
  "point_neq p q = (px p \<noteq> px q \<or> py p \<noteq> py q)"

lemma point_eq_iff [simp]: "point_eq p q \<longleftrightarrow> p = q"
  by (cases p; cases q) (simp add: point_eq_def)

lemma point_neq_iff [simp]: "point_neq p q \<longleftrightarrow> p \<noteq> q"
  by (cases p; cases q) (auto simp: point_neq_def)

lemma point_swap_simp [simp]: "point_swap p q = (q, p)"
  by (simp add: point_swap_def)

text \<open>
  The operators of the class are the addition and subtraction of an abelian group, so the
  library's algebra applies to points.
\<close>

instantiation Point :: ab_group_add
begin

definition zero_Point_def: "0 = Point_default"

definition plus_Point_def: "p + q = point_add p q"

definition minus_Point_def: "p - q = point_sub p q"

definition uminus_Point_def: "- p = point_sub Point_default p"

instance
  by standard
    (auto simp: zero_Point_def plus_Point_def minus_Point_def uminus_Point_def Point_default_def
      point_add_def point_sub_def)

end

lemma px_plus [simp]: "px (p + q) = px p + px q"
  by (simp add: plus_Point_def point_add_def)

lemma py_plus [simp]: "py (p + q) = py p + py q"
  by (simp add: plus_Point_def point_add_def)

lemma px_minus [simp]: "px (p - q) = px p - px q"
  by (simp add: minus_Point_def point_sub_def)

lemma py_minus [simp]: "py (p - q) = py p - py q"
  by (simp add: minus_Point_def point_sub_def)

lemma Point_plus [simp]: "Point a b + Point c d = Point (a + c) (b + d)"
  by (simp add: plus_Point_def point_add_def)

lemma Point_minus [simp]: "Point a b - Point c d = Point (a - c) (b - d)"
  by (simp add: minus_Point_def point_sub_def)

lemma Point_eqI: "px p = px q \<Longrightarrow> py p = py q \<Longrightarrow> p = q"
  by (cases p; cases q) simp

section \<open>Unit directions\<close>

text \<open>
  The rows of the array \<open>dirs\<close> of \<^verbatim>\<open>game_field.cpp\<close>, by name: the loops over \<open>dirs\<close> walk along
  one of them until they leave the field, which is why they end.
\<close>

datatype dir = Dir_right | Dir_left | Dir_down | Dir_up

fun delta :: "dir \<Rightarrow> Point" where
  "delta Dir_right = Point 1 0"
| "delta Dir_left = Point (-1) 0"
| "delta Dir_down = Point 0 1"
| "delta Dir_up = Point 0 (-1)"

definition dirs :: "dir list" where
  "dirs = [Dir_right, Dir_left, Dir_down, Dir_up]"

text \<open>The eight neighbours of a cell, in the order of the array \<open>around\<close>.\<close>

definition around :: "Point list" where
  "around = [Point 1 0, Point 1 1, Point 1 (-1), Point (-1) 0,
             Point (-1) 1, Point (-1) (-1), Point 0 1, Point 0 (-1)]"

definition king_adjacent :: "Point \<Rightarrow> Point \<Rightarrow> bool" where
  "king_adjacent p q = (p \<noteq> q \<and> \<bar>px p - px q\<bar> \<le> 1 \<and> \<bar>py p - py q\<bar> \<le> 1)"

lemma set_dirs: "set dirs = UNIV"
proof -
  have "d \<in> set dirs" for d
    by (cases d) (simp_all add: dirs_def)
  then show ?thesis by blast
qed

lemma around_king: "(\<exists>a \<in> set around. q = p + a) \<longleftrightarrow> king_adjacent p q"
proof
  assume "\<exists>a \<in> set around. q = p + a"
  then show "king_adjacent p q"
    by (cases p; cases q) (auto simp: around_def king_adjacent_def)
next
  assume k: "king_adjacent p q"
  define dx where "dx = px q - px p"
  define dy where "dy = py q - py p"
  have "dx = -1 \<or> dx = 0 \<or> dx = 1" "dy = -1 \<or> dy = 0 \<or> dy = 1"
    using k by (auto simp: king_adjacent_def dx_def dy_def)
  moreover have "\<not> (dx = 0 \<and> dy = 0)"
    using k by (auto simp: king_adjacent_def dx_def dy_def intro: Point_eqI)
  ultimately have "Point dx dy \<in> set around"
    by (auto simp: around_def)
  moreover have "q = p + Point dx dy"
    by (rule Point_eqI) (simp_all add: dx_def dy_def)
  ultimately show "\<exists>a \<in> set around. q = p + a" by blast
qed

lemma king_adjacent_sym: "king_adjacent p q \<longleftrightarrow> king_adjacent q p"
  by (auto simp: king_adjacent_def)

end
