(* ===== verification/Ship.thy ===== *)
theory Ship
  imports Geometry
begin

text \<open>
  The ships of a field (\<^verbatim>\<open>src/core/ship.h\<close>, \<^verbatim>\<open>ship.cpp\<close>): the type, length and number of the
  ships of each kind, the constructor that classifies a ship by its two ends, and the test
  whether a ship covers a point.
\<close>

section \<open>Data\<close>

datatype ShipType =
    SUBMARINE_SHIP
  | DESTROYER_SHIP
  | CRUISER_SHIP
  | BATTLESHIP_SHIP
  | AIRCRAFT_CARRIER_SHIP
  | INVALID_SHIP

record Ship =
  sh_type :: ShipType
  sh_head :: Point
  sh_tail :: Point

fun ship_length :: "ShipType \<Rightarrow> int" where
  "ship_length SUBMARINE_SHIP = 1"
| "ship_length DESTROYER_SHIP = 2"
| "ship_length CRUISER_SHIP = 3"
| "ship_length BATTLESHIP_SHIP = 4"
| "ship_length AIRCRAFT_CARRIER_SHIP = 5"
| "ship_length INVALID_SHIP = 0"

fun ship_count :: "ShipType \<Rightarrow> int" where
  "ship_count SUBMARINE_SHIP = 2"
| "ship_count DESTROYER_SHIP = 2"
| "ship_count CRUISER_SHIP = 1"
| "ship_count BATTLESHIP_SHIP = 1"
| "ship_count AIRCRAFT_CARRIER_SHIP = 1"
| "ship_count INVALID_SHIP = 0"

definition ship_type :: "int \<Rightarrow> ShipType" where
  "ship_type len =
     (if len = 1 then SUBMARINE_SHIP
      else if len = 2 then DESTROYER_SHIP
      else if len = 3 then CRUISER_SHIP
      else if len = 4 then BATTLESHIP_SHIP
      else if len = 5 then AIRCRAFT_CARRIER_SHIP
      else INVALID_SHIP)"

section \<open>Construction\<close>

definition Ship_default :: Ship where
  "Ship_default = \<lparr>sh_type = INVALID_SHIP, sh_head = Point_default, sh_tail = Point_default\<rparr>"

text \<open>
  The two branches of the constructor have the same shape: \<open>len\<close> is the difference of the varying
  coordinate plus one, and a negative \<open>len\<close> swaps the ends and changes its sign.
\<close>

definition ship_of_len :: "int \<Rightarrow> Point \<Rightarrow> Point \<Rightarrow> Ship" where
  "ship_of_len len head tail =
     (if len < 0
      then (let (head', tail') = point_swap head tail in
            \<lparr>sh_type = ship_type (len * -1), sh_head = head', sh_tail = tail'\<rparr>)
      else \<lparr>sh_type = ship_type len, sh_head = head, sh_tail = tail\<rparr>)"

definition mk_ship :: "Point \<Rightarrow> Point \<Rightarrow> Ship" where
  "mk_ship head tail =
     (if point_eq head tail
      then \<lparr>sh_type = SUBMARINE_SHIP, sh_head = head, sh_tail = tail\<rparr>
      else if px head = px tail then ship_of_len (py tail - py head + 1) head tail
      else if py head = py tail then ship_of_len (px tail - px head + 1) head tail
      else \<lparr>sh_type = INVALID_SHIP, sh_head = head, sh_tail = tail\<rparr>)"

section \<open>Queries\<close>

definition ship_get_length :: "Ship \<Rightarrow> int" where
  "ship_get_length s = ship_length (sh_type s)"

definition is_vertical :: "Ship \<Rightarrow> bool" where
  "is_vertical s = (if sh_type s = INVALID_SHIP then False else px (sh_head s) = px (sh_tail s))"

definition get_delta :: "Ship \<Rightarrow> Point" where
  "get_delta s =
     (if sh_type s = INVALID_SHIP then Point 0 0
      else if is_vertical s then Point 0 1 else Point 1 0)"

text \<open>The loop of \<open>contains\<close>: \<open>n\<close> iterations are left and \<open>tmp\<close> is the cell under test.\<close>

fun ship_scan :: "nat \<Rightarrow> Point \<Rightarrow> Point \<Rightarrow> Point \<Rightarrow> bool" where
  "ship_scan 0 tmp d p = False"
| "ship_scan (Suc n) tmp d p = (if point_eq p tmp then True else ship_scan n (tmp + d) d p)"

definition ship_contains :: "Ship \<Rightarrow> Point \<Rightarrow> bool" where
  "ship_contains s p =
     (if sh_type s = INVALID_SHIP then False
      else ship_scan (nat (ship_get_length s)) (sh_head s) (get_delta s) p)"

text \<open>The cells a ship covers, in the order the loops of the source visit them.\<close>

fun line_cells :: "nat \<Rightarrow> Point \<Rightarrow> Point \<Rightarrow> Point list" where
  "line_cells 0 p d = []"
| "line_cells (Suc n) p d = p # line_cells n (p + d) d"

definition ship_cells :: "Ship \<Rightarrow> Point list" where
  "ship_cells s = line_cells (nat (ship_get_length s)) (sh_head s) (get_delta s)"

section \<open>Facts\<close>

lemma ship_length_type [simp]: "1 \<le> n \<Longrightarrow> n \<le> 5 \<Longrightarrow> ship_length (ship_type n) = n"
  by (auto simp: ship_type_def)

lemma ship_type_length [simp]: "ship_type (ship_length t) = t"
  by (cases t) (simp_all add: ship_type_def)

lemma ship_type_invalid_iff: "ship_type n = INVALID_SHIP \<longleftrightarrow> n < 1 \<or> 5 < n"
  by (auto simp: ship_type_def)

lemma ship_length_bounds: "0 \<le> ship_length t \<and> ship_length t \<le> 5"
  by (cases t) simp_all

lemma ship_length_pos_iff: "0 < ship_length t \<longleftrightarrow> t \<noteq> INVALID_SHIP"
  by (cases t) simp_all

lemma ship_scan_cells: "ship_scan n tmp d p \<longleftrightarrow> p \<in> set (line_cells n tmp d)"
  by (induction n tmp d p rule: ship_scan.induct) auto

lemma length_line_cells [simp]: "length (line_cells n p d) = n"
  by (induction n arbitrary: p) auto

lemma nth_line_cells:
  "k < n \<Longrightarrow> line_cells n p d ! k = Point (px p + int k * px d) (py p + int k * py d)"
proof (induction n arbitrary: p k)
  case 0
  then show ?case by simp
next
  case (Suc n)
  then show ?case by (cases k) (auto simp: algebra_simps)
qed

lemma set_line_cells:
  "set (line_cells n p d) = (\<lambda>k. Point (px p + int k * px d) (py p + int k * py d)) ` {..<n}"
proof -
  have "set (line_cells n p d) = (\<lambda>k. line_cells n p d ! k) ` {..<n}"
    by (auto simp: set_conv_nth)
  also have "\<dots> = (\<lambda>k. Point (px p + int k * px d) (py p + int k * py d)) ` {..<n}"
    by (rule image_cong) (simp_all add: nth_line_cells)
  finally show ?thesis .
qed

lemma contains_iff_cells: "ship_contains s p \<longleftrightarrow> p \<in> set (ship_cells s)"
  by (auto simp: ship_contains_def ship_cells_def ship_scan_cells ship_get_length_def)

lemma mk_ship_vertical:
  assumes "1 \<le> len" "len \<le> 5"
  shows "mk_ship (Point x y) (Point x (y + len - 1))
    = \<lparr>sh_type = ship_type len, sh_head = Point x y, sh_tail = Point x (y + len - 1)\<rparr>"
  using assms by (auto simp: mk_ship_def ship_of_len_def ship_type_def)

lemma mk_ship_horizontal:
  assumes "1 \<le> len" "len \<le> 5"
  shows "mk_ship (Point x y) (Point (x + len - 1) y)
    = \<lparr>sh_type = ship_type len, sh_head = Point x y, sh_tail = Point (x + len - 1) y\<rparr>"
  using assms by (auto simp: mk_ship_def ship_of_len_def ship_type_def)

end
