(* ===== verification/GameField.thy ===== *)
theory GameField
  imports Ship
begin

text \<open>
  The playing field (\<^verbatim>\<open>src/core/game_field.h\<close>, \<^verbatim>\<open>game_field.cpp\<close>): its 10 by 10 array of
  \<^verbatim>\<open>char\<close> cells, the queries and updates of single cells, the view for the opponent and the
  end-of-game test. The array is the list of its 100 cells, row by row, so the cell in row \<open>i\<close>
  and column \<open>j\<close> is element \<open>10 * i + j\<close>, as in the memory of the C array.
\<close>

section \<open>Data\<close>

abbreviation FLD_SZ :: nat where "FLD_SZ \<equiv> 10"

record GameField =
  gf_cells :: "byte list"

datatype CellState = CELL_EMPTY | CELL_UNHARMED | CELL_DAMAGED | CELL_MISSED

fun CellState_code :: "CellState \<Rightarrow> byte" where
  "CellState_code CELL_EMPTY = 0"
| "CellState_code CELL_UNHARMED = 1"
| "CellState_code CELL_DAMAGED = 2"
| "CellState_code CELL_MISSED = 3"

definition cell :: "GameField \<Rightarrow> nat \<Rightarrow> nat \<Rightarrow> byte" where
  "cell f i j = gf_cells f ! (10 * i + j)"

definition set_cell :: "GameField \<Rightarrow> nat \<Rightarrow> nat \<Rightarrow> byte \<Rightarrow> GameField" where
  "set_cell f i j v = f\<lparr>gf_cells := (gf_cells f)[10 * i + j := v]\<rparr>"

text \<open>The array has its declared size.\<close>

definition wf_field :: "GameField \<Rightarrow> bool" where
  "wf_field f = (length (gf_cells f) = FLD_SZ * FLD_SZ)"

section \<open>Construction and copying\<close>

definition GameField_default :: GameField where
  "GameField_default = \<lparr>gf_cells = replicate (FLD_SZ * FLD_SZ) (CellState_code CELL_EMPTY)\<rparr>"

definition fill :: "GameField \<Rightarrow> byte list \<Rightarrow> GameField" where
  "fill f p_field =
     fold (\<lambda>i. fold (\<lambda>j g. set_cell g i j (p_field ! (10 * i + j))) [0..<FLD_SZ]) [0..<FLD_SZ] f"

section \<open>Single cells\<close>

definition field_contains :: "Point \<Rightarrow> bool" where
  "field_contains p = (if px p < 0 \<or> px p \<ge> 10 \<or> py p < 0 \<or> py p \<ge> 10 then False else True)"

definition get_state :: "GameField \<Rightarrow> Point \<Rightarrow> CellState" where
  "get_state f p =
     (if \<not> field_contains p then CELL_EMPTY
      else (let c = cell f (nat (py p)) (nat (px p)) in
            if c = 0 then CELL_EMPTY
            else if c = 1 then CELL_UNHARMED
            else if c = 2 then CELL_DAMAGED
            else if c = 3 then CELL_MISSED
            else CELL_EMPTY))"

definition set_point :: "GameField \<Rightarrow> Point \<Rightarrow> CellState \<Rightarrow> GameField" where
  "set_point f p s =
     (if \<not> field_contains p then f
      else set_cell f (nat (py p)) (nat (px p)) (CellState_code s))"

text \<open>The characters of \<open>CellChar\<close>: blank, \<open>o\<close>, \<open>x\<close> and a full stop.\<close>

definition get_cell_char :: "CellState \<Rightarrow> char" where
  "get_cell_char s =
     (case s of CELL_EMPTY \<Rightarrow> CHR '' '' | CELL_UNHARMED \<Rightarrow> CHR ''o''
      | CELL_DAMAGED \<Rightarrow> CHR ''x'' | CELL_MISSED \<Rightarrow> CHR ''.'')"

section \<open>Whole fields\<close>

definition get_for_enemy :: "GameField \<Rightarrow> GameField" where
  "get_for_enemy f =
     fold (\<lambda>i. fold (\<lambda>j ret. if cell ret i j = CellState_code CELL_UNHARMED
                             then set_cell ret i j (CellState_code CELL_EMPTY) else ret)
                   [0..<FLD_SZ])
          [0..<FLD_SZ] f"

definition field_is_empty :: "GameField \<Rightarrow> bool" where
  "field_is_empty f =
     all_upto FLD_SZ (\<lambda>i. all_upto FLD_SZ (\<lambda>j. cell f i j = CellState_code CELL_EMPTY))"

definition all_ships_destroyed :: "GameField \<Rightarrow> bool" where
  "all_ships_destroyed f =
     all_upto FLD_SZ (\<lambda>i. all_upto FLD_SZ (\<lambda>j. cell f i j \<noteq> CellState_code CELL_UNHARMED))"

section \<open>Facts about cells\<close>

lemma CellState_code_inj [simp]: "CellState_code s = CellState_code t \<longleftrightarrow> s = t"
  by (cases s; cases t) simp_all

lemma field_contains_iff:
  "field_contains p \<longleftrightarrow> 0 \<le> px p \<and> px p < 10 \<and> 0 \<le> py p \<and> py p < 10"
  by (auto simp: field_contains_def)

lemma contains_nat [simp]:
  "field_contains p \<Longrightarrow> nat (py p) < 10" "field_contains p \<Longrightarrow> nat (px p) < 10"
  by (auto simp: field_contains_iff)

lemma get_state_outside [simp]: "\<not> field_contains p \<Longrightarrow> get_state f p = CELL_EMPTY"
  by (simp add: get_state_def)

lemma get_state_inside: "get_state f p \<noteq> CELL_EMPTY \<Longrightarrow> field_contains p"
  by (metis get_state_outside)

lemma get_state_contains:
  "get_state f p = CELL_UNHARMED \<Longrightarrow> field_contains p"
  "get_state f p = CELL_DAMAGED \<Longrightarrow> field_contains p"
  "get_state f p = CELL_MISSED \<Longrightarrow> field_contains p"
  using get_state_outside [of p f] by fastforce+

lemma set_point_outside [simp]: "\<not> field_contains p \<Longrightarrow> set_point f p s = f"
  by (simp add: set_point_def)

lemma wf_set_cell [simp]: "wf_field (set_cell f i j v) = wf_field f"
  by (simp add: wf_field_def set_cell_def)

lemma wf_set_point [simp]: "wf_field (set_point f p s) = wf_field f"
  by (simp add: set_point_def)

lemma wf_default [simp]: "wf_field GameField_default"
  by (simp add: wf_field_def GameField_default_def)

lemma cell_set_cell:
  assumes "wf_field f" "i < 10" "j < 10" "k < 10" "l < 10"
  shows "cell (set_cell f i j v) k l = (if k = i \<and> l = j then v else cell f k l)"
proof -
  have "10 * i + j < length (gf_cells f)"
    using assms by (simp add: wf_field_def)
  moreover have "(10 * i + j) div 10 = i" "(10 * k + l) div 10 = k"
    using assms by simp_all
  then have "10 * i + j = 10 * k + l \<longleftrightarrow> k = i \<and> l = j"
    by (metis add_left_cancel)
  ultimately show ?thesis
    by (simp add: cell_def set_cell_def nth_list_update)
qed

lemma get_set_point:
  assumes "wf_field f"
  shows "get_state (set_point f p s) q
    = (if field_contains p \<and> q = p then s else get_state f q)"
proof (cases "field_contains p \<and> field_contains q")
  case True
  have "nat (py q) = nat (py p) \<and> nat (px q) = nat (px p) \<longleftrightarrow> q = p"
    using True by (auto simp: field_contains_iff intro: Point_eqI)
  then have c: "cell (set_point f p s) (nat (py q)) (nat (px q))
      = (if q = p then CellState_code s else cell f (nat (py q)) (nat (px q)))"
    using True assms by (auto simp: set_point_def cell_set_cell)
  then show ?thesis
    using True by (cases s) (auto simp: get_state_def)
next
  case False
  then show ?thesis by auto
qed

lemma get_set_same: "wf_field f \<Longrightarrow> field_contains p \<Longrightarrow> get_state (set_point f p s) p = s"
  by (simp add: get_set_point)

lemma get_set_other: "wf_field f \<Longrightarrow> q \<noteq> p \<Longrightarrow> get_state (set_point f p s) q = get_state f q"
  by (simp add: get_set_point)

text \<open>A loop over the cells of the field that rewrites each cell by a function of its value.\<close>

lemma fold_row:
  assumes "wf_field f" "i < 10" "n \<le> 10"
    and step: "\<And>g j. wf_field g \<Longrightarrow> j < 10 \<Longrightarrow> (\<forall>k<10. \<forall>l<10. cell (h i j g) k l
       = (if k = i \<and> l = j then u i j (cell g i j) else cell g k l)) \<and> wf_field (h i j g)"
  shows "wf_field (fold (h i) [0..<n] f) \<and> (\<forall>k<10. \<forall>l<10. cell (fold (h i) [0..<n] f) k l
       = (if k = i \<and> l < n then u i l (cell f i l) else cell f k l))"
  using assms(3)
proof (induction n)
  case 0
  show ?case using assms(1) by simp
next
  case (Suc n)
  then have "wf_field (fold (h i) [0..<n] f)" by simp
  from step [OF this, of n] Suc assms(2) show ?case by (auto simp: less_Suc_eq)
qed

lemma fold_rows:
  assumes "wf_field f" "m \<le> 10"
    and step: "\<And>g i j. wf_field g \<Longrightarrow> i < 10 \<Longrightarrow> j < 10 \<Longrightarrow>
       (\<forall>k<10. \<forall>l<10. cell (h i j g) k l
         = (if k = i \<and> l = j then u i j (cell g i j) else cell g k l)) \<and> wf_field (h i j g)"
  shows "wf_field (fold (\<lambda>i. fold (h i) [0..<10]) [0..<m] f)
    \<and> (\<forall>k<10. \<forall>l<10. cell (fold (\<lambda>i. fold (h i) [0..<10]) [0..<m] f) k l
         = (if k < m then u k l (cell f k l) else cell f k l))"
  using assms(2)
proof (induction m)
  case 0
  show ?case using assms(1) by simp
next
  case (Suc m)
  let ?g = "fold (\<lambda>i. fold (h i) [0..<10]) [0..<m] f"
  have "wf_field ?g" using Suc by simp
  from fold_row [where n = 10 and h = h and u = u, OF this, of m] step Suc
  show ?case by (auto simp: less_Suc_eq)
qed

lemma fold_cells:
  assumes "wf_field f"
    and "\<And>g i j. wf_field g \<Longrightarrow> i < 10 \<Longrightarrow> j < 10 \<Longrightarrow>
       (\<forall>k<10. \<forall>l<10. cell (h i j g) k l
         = (if k = i \<and> l = j then u i j (cell g i j) else cell g k l)) \<and> wf_field (h i j g)"
  shows "wf_field (fold (\<lambda>i. fold (h i) [0..<10]) [0..<10] f)"
    and "k < 10 \<Longrightarrow> l < 10 \<Longrightarrow>
      cell (fold (\<lambda>i. fold (h i) [0..<10]) [0..<10] f) k l = u k l (cell f k l)"
  using fold_rows [where m = 10 and h = h and u = u, OF assms(1) _ assms(2)] by auto

lemma field_eqI:
  assumes "wf_field f" "wf_field g"
    and "\<And>i j. i < 10 \<Longrightarrow> j < 10 \<Longrightarrow> cell f i j = cell g i j"
  shows "f = (g :: GameField)"
proof -
  have "gf_cells f = gf_cells g"
  proof (rule nth_equalityI)
    show "length (gf_cells f) = length (gf_cells g)"
      using assms(1,2) by (simp add: wf_field_def)
  next
    fix n assume "n < length (gf_cells f)"
    then have "n div 10 < 10" "n mod 10 < 10" "10 * (n div 10) + n mod 10 = n"
      using assms(1) by (auto simp: wf_field_def)
    with assms(3) [of "n div 10" "n mod 10"] show "gf_cells f ! n = gf_cells g ! n"
      by (simp add: cell_def)
  qed
  then show ?thesis by simp
qed

section \<open>Copying, emptiness and the end of a game\<close>

lemma fill_wf: "wf_field f \<Longrightarrow> wf_field (fill f p)"
  unfolding fill_def
  by (rule fold_cells(1) [where u = "\<lambda>i j c. p ! (10 * i + j)"]) (auto simp: cell_set_cell)

lemma cell_fill:
  assumes "wf_field f" "i < 10" "j < 10"
  shows "cell (fill f p) i j = p ! (10 * i + j)"
  unfolding fill_def
  by (rule fold_cells(2) [where u = "\<lambda>i j c. p ! (10 * i + j)"])
    (use assms in \<open>auto simp: cell_set_cell\<close>)

text \<open>The copy constructor and the assignment fill a field with the other one's array.\<close>

lemma fill_copy: "wf_field f \<Longrightarrow> wf_field g \<Longrightarrow> fill f (gf_cells g) = g"
  by (rule field_eqI) (simp_all add: fill_wf cell_fill cell_def [of g, symmetric])

lemma wf_get_for_enemy: "wf_field f \<Longrightarrow> wf_field (get_for_enemy f)"
  unfolding get_for_enemy_def
  by (rule fold_cells(1) [where u = "\<lambda>i j c. if c = 1 then 0 else c"]) (auto simp: cell_set_cell)

lemma cell_get_for_enemy:
  assumes "wf_field f" "i < 10" "j < 10"
  shows "cell (get_for_enemy f) i j = (if cell f i j = 1 then 0 else cell f i j)"
  unfolding get_for_enemy_def
  by (rule fold_cells(2) [where u = "\<lambda>i j c. if c = 1 then 0 else c"])
    (use assms in \<open>auto simp: cell_set_cell\<close>)

lemma get_state_for_enemy:
  assumes "wf_field f"
  shows "get_state (get_for_enemy f) p
    = (if get_state f p = CELL_UNHARMED then CELL_EMPTY else get_state f p)"
  using assms by (cases "field_contains p")
    (auto simp: get_state_def Let_def cell_get_for_enemy split: if_splits)

lemma get_state_cell:
  assumes "i < 10" "j < 10"
  shows "get_state f (Point (int j) (int i)) = s \<and> s \<noteq> CELL_EMPTY
    \<longleftrightarrow> cell f i j = CellState_code s \<and> s \<noteq> CELL_EMPTY"
  using assms by (cases s) (auto simp: get_state_def Let_def field_contains_iff)

lemma contains_cases:
  assumes "field_contains p"
  obtains i j where "i < 10" "j < 10" "p = Point (int j) (int i)"
proof
  show "nat (py p) < 10" "nat (px p) < 10" "p = Point (int (nat (px p))) (int (nat (py p)))"
    using assms by (auto simp: field_contains_iff)
qed

lemma all_ships_destroyed_iff:
  "all_ships_destroyed f \<longleftrightarrow> (\<forall>p. get_state f p \<noteq> CELL_UNHARMED)"
proof
  assume d: "all_ships_destroyed f"
  show "\<forall>p. get_state f p \<noteq> CELL_UNHARMED"
  proof
    fix p
    show "get_state f p \<noteq> CELL_UNHARMED"
    proof
      assume u: "get_state f p = CELL_UNHARMED"
      then have "field_contains p" by (rule get_state_contains)
      then obtain i j where ij: "i < 10" "j < 10" "p = Point (int j) (int i)"
        by (rule contains_cases)
      with u get_state_cell [of i j f CELL_UNHARMED] have "cell f i j = 1" by simp
      with d ij show False by (simp add: all_ships_destroyed_def all_upto_iff)
    qed
  qed
next
  assume "\<forall>p. get_state f p \<noteq> CELL_UNHARMED"
  then show "all_ships_destroyed f"
    using get_state_cell [of _ _ f CELL_UNHARMED]
    by (auto simp: all_ships_destroyed_def all_upto_iff)
qed

end
