(* ===== verification/FieldShots.thy ===== *)
theory FieldShots
  imports GameField
begin

text \<open>
  Shots at a field: \<open>register_shot\<close>, \<open>_ship_destroyed\<close> and \<open>_mark_destroyed_ship_boundary\<close> of
  \<^verbatim>\<open>src/core/game_field.cpp\<close>. The loops along the four directions are recursive functions whose
  measure is the distance to the edge of the field.
\<close>

section \<open>Walking along a direction\<close>

fun room :: "dir \<Rightarrow> Point \<Rightarrow> nat" where
  "room Dir_right p = nat (10 - px p)"
| "room Dir_left p = nat (px p + 1)"
| "room Dir_down p = nat (10 - py p)"
| "room Dir_up p = nat (py p + 1)"

lemma room_decreases: "field_contains p \<Longrightarrow> room d (p + delta d) < room d p"
  by (cases d) (auto simp: field_contains_iff)

lemma room_decreases_next: "field_contains (p + delta d) \<Longrightarrow> room d (p + delta d) < room d p"
  by (cases d) (auto simp: field_contains_iff)

text \<open>
  The \<^verbatim>\<open>do ... while\<close> loop of \<open>_ship_destroyed\<close> along one direction, from the cell \<open>cur\<close> with
  \<open>pos_state\<close> the state last read; its result is \<open>pos_state\<close> after the loop.
\<close>

function destroyed_walk :: "GameField \<Rightarrow> dir \<Rightarrow> Point \<Rightarrow> CellState \<Rightarrow> CellState" where
  "destroyed_walk f d cur pos_state =
     (let cur' = cur + delta d in
      if \<not> field_contains cur' then pos_state
      else (let pos_state' = get_state f cur' in
            if pos_state' = CELL_DAMAGED then destroyed_walk f d cur' pos_state'
            else pos_state'))"
  by pat_completeness auto
termination
  by (relation "measure (\<lambda>(f, d, cur, s). room d cur)") (auto simp: room_decreases_next)

declare destroyed_walk.simps [simp del]

definition ship_destroyed :: "GameField \<Rightarrow> Point \<Rightarrow> bool" where
  "ship_destroyed f p =
     (if get_state f p \<noteq> CELL_DAMAGED then False
      else list_all (\<lambda>d. destroyed_walk f d p (get_state f p) \<noteq> CELL_UNHARMED) dirs)"

section \<open>Marking the boundary of a destroyed ship\<close>

definition mark_cell :: "Point \<Rightarrow> GameField \<Rightarrow> GameField" where
  "mark_cell around_pos f =
     (if \<not> field_contains around_pos then f
      else if get_state f around_pos = CELL_EMPTY then set_point f around_pos CELL_MISSED
      else f)"

definition mark_around :: "GameField \<Rightarrow> Point \<Rightarrow> GameField" where
  "mark_around f cur = fold (\<lambda>a. mark_cell (cur + a)) around f"

lemma wf_mark_cell [simp]: "wf_field (mark_cell q f) = wf_field f"
  by (simp add: mark_cell_def)

lemma wf_mark_around: "wf_field f \<Longrightarrow> wf_field (mark_around f cur)"
  unfolding mark_around_def
  by (rule fold_invariant [where Q = "\<lambda>_. True"]) auto

function mark_walk :: "GameField \<Rightarrow> dir \<Rightarrow> Point \<Rightarrow> GameField" where
  "mark_walk f d cur =
     (if get_state f cur = CELL_DAMAGED
      then mark_walk (mark_around f cur) d (cur + delta d)
      else f)"
  by pat_completeness auto
termination
  by (relation "measure (\<lambda>(f, d, cur). room d cur)")
    (auto intro: room_decreases get_state_contains)

declare mark_walk.simps [simp del]

text \<open>
  The outer loop. After its last iteration the source computes \<^verbatim>\<open>cur_pos += dirs[i]\<close> with
  \<open>i = 4\<close>, one element past the end of \<open>dirs\<close>; \<open>past_end\<close> is what that read returns.
\<close>

function mark_loop :: "Point \<Rightarrow> GameField \<Rightarrow> Point \<Rightarrow> nat \<Rightarrow> Point \<Rightarrow> GameField" where
  "mark_loop past_end f p i cur =
     (let f' = (if \<not> field_contains cur \<or> get_state f cur \<noteq> CELL_DAMAGED then f
                else mark_walk f (dirs ! i) cur);
          i' = Suc i;
          cur' = p + (if i' < length dirs then delta (dirs ! i') else past_end)
      in if i' < length dirs then mark_loop past_end f' p i' cur' else f')"
  by pat_completeness auto
termination
  by (relation "measure (\<lambda>(e, f, p, i, cur). length dirs - i)") auto

declare mark_loop.simps [simp del]

definition mark_boundary_reading :: "Point \<Rightarrow> GameField \<Rightarrow> Point \<Rightarrow> GameField" where
  "mark_boundary_reading past_end f p =
     (if get_state f p \<noteq> CELL_DAMAGED then f else mark_loop past_end f p 0 p)"

definition mark_destroyed_ship_boundary :: "GameField \<Rightarrow> Point \<Rightarrow> GameField" where
  "mark_destroyed_ship_boundary f p = mark_boundary_reading Point_default f p"

section \<open>Registering a shot\<close>

definition register_shot :: "GameField \<Rightarrow> Point \<Rightarrow> CellState \<times> GameField" where
  "register_shot f p =
     (if \<not> field_contains p then (CELL_EMPTY, f)
      else
        (let cur_state = get_state f p;
             ret = (case cur_state of
                      CELL_EMPTY \<Rightarrow> CELL_MISSED
                    | CELL_UNHARMED \<Rightarrow> CELL_DAMAGED
                    | CELL_DAMAGED \<Rightarrow> CELL_EMPTY
                    | CELL_MISSED \<Rightarrow> CELL_EMPTY);
             f1 = (if ret \<noteq> CELL_EMPTY \<and> ret \<noteq> cur_state
                   then set_cell f (nat (py p)) (nat (px p)) (CellState_code ret) else f);
             f2 = (if ret = CELL_DAMAGED \<and> ship_destroyed f1 p
                   then mark_destroyed_ship_boundary f1 p else f1)
         in (ret, f2)))"

section \<open>Runs of damaged cells\<close>

definition step_pt :: "Point \<Rightarrow> dir \<Rightarrow> nat \<Rightarrow> Point" where
  "step_pt p d k = Point (px p + int k * px (delta d)) (py p + int k * py (delta d))"

lemma step_pt_0 [simp]: "step_pt p d 0 = p"
  by (simp add: step_pt_def)

lemma step_pt_Suc: "step_pt p d (Suc k) = step_pt (p + delta d) d k"
  by (simp add: step_pt_def algebra_simps)

lemma step_pt_1 [simp]: "step_pt p d (Suc 0) = p + delta d"
  by (simp add: step_pt_Suc)

text \<open>The first \<open>k\<close> cells from \<open>p\<close> on (\<open>p\<close> included) are damaged.\<close>

definition damaged_upto :: "GameField \<Rightarrow> dir \<Rightarrow> Point \<Rightarrow> nat \<Rightarrow> bool" where
  "damaged_upto f d p k = (\<forall>i<k. get_state f (step_pt p d i) = CELL_DAMAGED)"

lemma damaged_upto_0 [simp]: "damaged_upto f d p 0"
  by (simp add: damaged_upto_def)

lemma damaged_upto_Suc:
  "damaged_upto f d p (Suc k)
    \<longleftrightarrow> get_state f p = CELL_DAMAGED \<and> damaged_upto f d (p + delta d) k"
proof -
  have "damaged_upto f d p (Suc k) \<longleftrightarrow> get_state f (step_pt p d 0) = CELL_DAMAGED
      \<and> (\<forall>i<k. get_state f (step_pt p d (Suc i)) = CELL_DAMAGED)"
    by (auto simp: damaged_upto_def less_Suc_eq_0_disj)
  then show ?thesis by (simp add: damaged_upto_def step_pt_Suc)
qed

definition damaged_run :: "GameField \<Rightarrow> dir \<Rightarrow> Point \<Rightarrow> Point set" where
  "damaged_run f d p = {step_pt p d k | k. damaged_upto f d p (Suc k)}"

lemma damaged_run_stop: "get_state f p \<noteq> CELL_DAMAGED \<Longrightarrow> damaged_run f d p = {}"
  by (auto simp: damaged_run_def damaged_upto_Suc)

lemma damaged_run_step:
  assumes "get_state f p = CELL_DAMAGED"
  shows "damaged_run f d p = insert p (damaged_run f d (p + delta d))"
proof (rule set_eqI)
  fix q
  have "q \<in> damaged_run f d p
    \<longleftrightarrow> (\<exists>k. q = step_pt p d k \<and> damaged_upto f d (p + delta d) k)"
    using assms by (auto simp: damaged_run_def damaged_upto_Suc)
  also have "\<dots> \<longleftrightarrow> q = p \<or> (\<exists>k. q = step_pt p d (Suc k) \<and> damaged_upto f d (p + delta d) (Suc k))"
    (is "(\<exists>k. ?P k) \<longleftrightarrow> _")
  proof
    assume "\<exists>k. ?P k"
    then obtain k where "?P k" by blast
    then show "q = p \<or> (\<exists>k. ?P (Suc k))" by (cases k) auto
  next
    assume "q = p \<or> (\<exists>k. ?P (Suc k))"
    moreover have "?P 0" if "q = p" using that by simp
    ultimately show "\<exists>k. ?P k" by blast
  qed
  finally show "q \<in> damaged_run f d p \<longleftrightarrow> q \<in> insert p (damaged_run f d (p + delta d))"
    by (auto simp: damaged_run_def step_pt_Suc)
qed

lemma destroyed_walk_unharmed:
  assumes "s \<noteq> CELL_UNHARMED"
  shows "destroyed_walk f d p s = CELL_UNHARMED \<longleftrightarrow>
    (\<exists>k. damaged_upto f d (p + delta d) k \<and> get_state f (step_pt (p + delta d) d k) = CELL_UNHARMED)"
  using assms
proof (induction f d p s rule: destroyed_walk.induct)
  case (1 f d p s)
  let ?q = "p + delta d"
  have split_k: "(\<exists>k. damaged_upto f d ?q k \<and> get_state f (step_pt ?q d k) = CELL_UNHARMED)
    \<longleftrightarrow> get_state f ?q = CELL_UNHARMED \<or> (get_state f ?q = CELL_DAMAGED \<and>
      (\<exists>k. damaged_upto f d (?q + delta d) k
        \<and> get_state f (step_pt (?q + delta d) d k) = CELL_UNHARMED))"
    (is "(\<exists>k. ?P k) \<longleftrightarrow> ?R")
  proof
    assume "\<exists>k. ?P k"
    then obtain k where "?P k" by blast
    then show ?R by (cases k) (auto simp: damaged_upto_Suc step_pt_Suc)
  next
    assume ?R
    then have "?P 0 \<or> (\<exists>k. ?P (Suc k))" by (auto simp: damaged_upto_Suc step_pt_Suc)
    then show "\<exists>k. ?P k" by blast
  qed
  show ?case
  proof (cases "field_contains ?q \<and> get_state f ?q = CELL_DAMAGED")
    case True
    with 1 have "destroyed_walk f d ?q CELL_DAMAGED = CELL_UNHARMED
      \<longleftrightarrow> (\<exists>k. damaged_upto f d (?q + delta d) k
        \<and> get_state f (step_pt (?q + delta d) d k) = CELL_UNHARMED)" by auto
    with True split_k show ?thesis by (simp add: destroyed_walk.simps [of f d p s] Let_def)
  next
    case False
    then have "get_state f ?q \<noteq> CELL_DAMAGED"
      using get_state_contains(2) [of f ?q] by blast
    moreover from False have
      "destroyed_walk f d p s = (if field_contains ?q then get_state f ?q else s)"
      by (simp add: destroyed_walk.simps [of f d p s] Let_def)
    ultimately show ?thesis using split_k 1(2) by (simp only:) simp
  qed
qed

lemma ship_destroyed_iff:
  "ship_destroyed f p \<longleftrightarrow> get_state f p = CELL_DAMAGED \<and>
     \<not> (\<exists>d k. damaged_upto f d p k \<and> get_state f (step_pt p d k) = CELL_UNHARMED)"
proof (cases "get_state f p = CELL_DAMAGED")
  case True
  have "(\<exists>k. damaged_upto f d p k \<and> get_state f (step_pt p d k) = CELL_UNHARMED)
    \<longleftrightarrow> destroyed_walk f d p CELL_DAMAGED = CELL_UNHARMED" (is "(\<exists>k. ?P k) \<longleftrightarrow> _") for d
  proof -
    have "\<not> ?P 0" using True by simp
    then have "(\<exists>k. ?P k) \<longleftrightarrow> (\<exists>k. ?P (Suc k))" by (metis not0_implies_Suc)
    also have "\<dots> \<longleftrightarrow> destroyed_walk f d p CELL_DAMAGED = CELL_UNHARMED"
      using True by (simp add: destroyed_walk_unharmed damaged_upto_Suc step_pt_Suc)
    finally show ?thesis .
  qed
  with True show ?thesis by (simp add: ship_destroyed_def list_all_iff set_dirs)
next
  case False
  then show ?thesis by (simp add: ship_destroyed_def)
qed

section \<open>What marking does to the cells\<close>

text \<open>The states of the field \<open>f\<close> after the empty cells next to a cell of \<open>S\<close> are marked.\<close>

definition marked :: "GameField \<Rightarrow> Point set \<Rightarrow> Point \<Rightarrow> CellState" where
  "marked f S q =
     (if field_contains q \<and> get_state f q = CELL_EMPTY \<and> (\<exists>c \<in> S. king_adjacent c q)
      then CELL_MISSED else get_state f q)"

lemma marked_empty [simp]: "marked f {} = get_state f"
  by (simp add: marked_def fun_eq_iff)

lemma marked_damaged [simp]: "marked f S q = CELL_DAMAGED \<longleftrightarrow> get_state f q = CELL_DAMAGED"
  by (simp add: marked_def)

lemma get_state_mark_cell:
  "wf_field f \<Longrightarrow> get_state (mark_cell p f) q
    = (if field_contains q \<and> get_state f q = CELL_EMPTY \<and> q = p
       then CELL_MISSED else get_state f q)"
  by (auto simp: mark_cell_def get_set_point)

lemma get_state_mark_fold:
  assumes "wf_field f"
  shows "get_state (fold (\<lambda>a. mark_cell (cur + a)) as f) q
    = (if field_contains q \<and> get_state f q = CELL_EMPTY \<and> (\<exists>a \<in> set as. q = cur + a)
       then CELL_MISSED else get_state f q)"
  using assms
proof (induction as arbitrary: f)
  case Nil
  then show ?case by simp
next
  case (Cons a as)
  have "get_state (fold (\<lambda>a. mark_cell (cur + a)) (a # as) f) q
    = (if field_contains q \<and> get_state (mark_cell (cur + a) f) q = CELL_EMPTY
         \<and> (\<exists>a \<in> set as. q = cur + a)
       then CELL_MISSED else get_state (mark_cell (cur + a) f) q)"
    using Cons by simp
  then show ?case
    unfolding get_state_mark_cell [OF Cons.prems] list.set(2) bex_simps
    by (simp only: split: if_split) blast
qed

lemma get_state_mark_around:
  assumes "wf_field f"
  shows "get_state (mark_around f cur) q = marked f {cur} q"
  by (simp add: mark_around_def get_state_mark_fold [OF assms] around_king marked_def)

lemma mark_around_marked:
  assumes "wf_field g" "get_state g = marked f S"
  shows "get_state (mark_around g cur) = marked f (insert cur S)"
  using assms(2) by (auto simp: fun_eq_iff get_state_mark_around [OF assms(1)] marked_def)

lemma mark_walk_marked:
  assumes "wf_field g" "get_state g = marked f S"
  shows "wf_field (mark_walk g d cur) \<and>
    get_state (mark_walk g d cur) = marked f (S \<union> damaged_run f d cur)"
  using assms
proof (induction g d cur arbitrary: S rule: mark_walk.induct)
  case (1 g d cur)
  show ?case
  proof (cases "get_state f cur = CELL_DAMAGED")
    case True
    then have "get_state g cur = CELL_DAMAGED" using 1(3) by simp
    moreover from this 1 have "wf_field (mark_walk (mark_around g cur) d (cur + delta d))
      \<and> get_state (mark_walk (mark_around g cur) d (cur + delta d))
        = marked f (insert cur S \<union> damaged_run f d (cur + delta d))"
      by (simp add: wf_mark_around mark_around_marked)
    ultimately show ?thesis
      using True by (simp add: mark_walk.simps [of g d cur] damaged_run_step)
  next
    case False
    then have "get_state g cur \<noteq> CELL_DAMAGED" using 1(3) by simp
    then show ?thesis
      using 1 False by (simp add: mark_walk.simps [of g d cur] damaged_run_stop)
  qed
qed

lemma mark_iteration:
  assumes "wf_field g" "get_state g = marked f S"
  shows "wf_field (if \<not> field_contains cur \<or> get_state g cur \<noteq> CELL_DAMAGED then g
            else mark_walk g d cur) \<and>
    get_state (if \<not> field_contains cur \<or> get_state g cur \<noteq> CELL_DAMAGED then g
            else mark_walk g d cur) = marked f (S \<union> damaged_run f d cur)"
proof (cases "get_state f cur = CELL_DAMAGED")
  case True
  then have "field_contains cur" by (rule get_state_contains)
  moreover from True have "get_state g cur = CELL_DAMAGED" using assms(2) by simp
  ultimately show ?thesis using mark_walk_marked [OF assms] by simp
next
  case False
  then have "get_state g cur \<noteq> CELL_DAMAGED" using assms(2) by simp
  with assms False show ?thesis by (simp add: damaged_run_stop)
qed

text \<open>The cells of the damaged runs through \<open>p\<close>, in all four directions.\<close>

definition damaged_cross :: "GameField \<Rightarrow> Point \<Rightarrow> Point set" where
  "damaged_cross f p = (\<Union>d. damaged_run f d p)"

lemma UN_dirs: "(\<Union>d. F d) = F Dir_right \<union> F Dir_left \<union> F Dir_down \<union> F Dir_up"
proof -
  have U: "(UNIV :: dir set) = {Dir_right, Dir_left, Dir_down, Dir_up}"
    using set_dirs by (simp add: dirs_def)
  show ?thesis unfolding U by auto
qed

lemma mark_boundary_reading_marked:
  assumes "wf_field f" "get_state f p = CELL_DAMAGED"
  shows "wf_field (mark_boundary_reading e f p) \<and>
    get_state (mark_boundary_reading e f p) = marked f (damaged_cross f p)"
proof -
  define it where "it g d cur = (if \<not> field_contains cur \<or> get_state g cur \<noteq> CELL_DAMAGED
    then g else mark_walk g d cur)" for g d cur
  define g1 where "g1 = it f Dir_right p"
  define g2 where "g2 = it g1 Dir_left (p + delta Dir_left)"
  define g3 where "g3 = it g2 Dir_down (p + delta Dir_down)"
  define g4 where "g4 = it g3 Dir_up (p + delta Dir_up)"
  have it: "wf_field (it g d cur) \<and> get_state (it g d cur) = marked f (S \<union> damaged_run f d cur)"
    if "wf_field g \<and> get_state g = marked f S" for g d cur S
    using mark_iteration [of g f S cur d] that by (simp add: it_def)
  have "mark_loop e f p 0 p = g4"
    by (simp add: mark_loop.simps [of e f p 0] mark_loop.simps [of e _ p "Suc 0"]
      mark_loop.simps [of e _ p "Suc (Suc 0)"] mark_loop.simps [of e _ p "Suc (Suc (Suc 0))"]
      Let_def dirs_def it_def g1_def g2_def g3_def g4_def del: delta.simps)
  moreover have "wf_field g4 \<and> get_state g4 = marked f ((((
      damaged_run f Dir_right p) \<union> damaged_run f Dir_left (p + delta Dir_left))
      \<union> damaged_run f Dir_down (p + delta Dir_down)) \<union> damaged_run f Dir_up (p + delta Dir_up))"
    unfolding g4_def g3_def g2_def g1_def
    by (intro it, subst Un_empty_left [symmetric], intro it) (simp add: assms(1))
  moreover have "(((damaged_run f Dir_right p) \<union> damaged_run f Dir_left (p + delta Dir_left))
      \<union> damaged_run f Dir_down (p + delta Dir_down)) \<union> damaged_run f Dir_up (p + delta Dir_up)
      = damaged_cross f p"
    unfolding damaged_cross_def UN_dirs
    using damaged_run_step [OF assms(2)] by auto
  ultimately show ?thesis
    using assms(2) by (simp add: mark_boundary_reading_def)
qed

lemma mark_boundary_reading_wf: "wf_field f \<Longrightarrow> wf_field (mark_boundary_reading e f p)"
  using mark_boundary_reading_marked [of f p e]
  by (cases "get_state f p = CELL_DAMAGED") (auto simp: mark_boundary_reading_def)

lemma mark_loop_past_end: "mark_loop e f p 0 p = mark_loop e' f p 0 p"
  by (simp add: mark_loop.simps [of _ f p 0] mark_loop.simps [of _ _ p "Suc 0"]
      mark_loop.simps [of _ _ p "Suc (Suc 0)"] mark_loop.simps [of _ _ p "Suc (Suc (Suc 0))"]
      Let_def dirs_def del: delta.simps)

section \<open>The effect of a shot\<close>

lemma wf_register_shot: "wf_field f \<Longrightarrow> wf_field (snd (register_shot f p))"
  by (auto simp: register_shot_def Let_def mark_destroyed_ship_boundary_def
    mark_boundary_reading_wf)

text \<open>The four cases of a shot inside or outside the field.\<close>

lemma register_shot_outside: "\<not> field_contains p \<Longrightarrow> register_shot f p = (CELL_EMPTY, f)"
  by (simp add: register_shot_def)

lemma register_shot_repeated:
  "get_state f p = CELL_DAMAGED \<or> get_state f p = CELL_MISSED \<Longrightarrow>
    register_shot f p = (CELL_EMPTY, f)"
  by (auto simp: register_shot_def Let_def)

lemma register_shot_miss:
  "field_contains p \<Longrightarrow> get_state f p = CELL_EMPTY \<Longrightarrow>
    register_shot f p = (CELL_MISSED, set_point f p CELL_MISSED)"
  by (simp add: register_shot_def Let_def set_point_def)

lemma register_shot_hit:
  "get_state f p = CELL_UNHARMED \<Longrightarrow>
    register_shot f p = (CELL_DAMAGED,
      let f1 = set_point f p CELL_DAMAGED in
      if ship_destroyed f1 p then mark_destroyed_ship_boundary f1 p else f1)"
  using get_state_contains(1) [of f p] by (simp add: register_shot_def Let_def set_point_def)

lemma register_shot_cases:
  obtains (nothing) "get_state f p \<noteq> CELL_UNHARMED" "register_shot f p = (CELL_EMPTY, f)"
      "\<not> (field_contains p \<and> get_state f p = CELL_EMPTY)"
  | (miss) "field_contains p" "get_state f p = CELL_EMPTY"
      "register_shot f p = (CELL_MISSED, set_point f p CELL_MISSED)"
  | (hit) "field_contains p" "get_state f p = CELL_UNHARMED"
      "\<not> ship_destroyed (set_point f p CELL_DAMAGED) p"
      "register_shot f p = (CELL_DAMAGED, set_point f p CELL_DAMAGED)"
  | (sunk) "field_contains p" "get_state f p = CELL_UNHARMED"
      "ship_destroyed (set_point f p CELL_DAMAGED) p"
      "register_shot f p
        = (CELL_DAMAGED, mark_destroyed_ship_boundary (set_point f p CELL_DAMAGED) p)"
  using register_shot_outside [of p f] register_shot_repeated [of f p] register_shot_miss [of p f]
    register_shot_hit [of f p] get_state_contains(1) [of f p]
  by (cases "get_state f p"; cases "field_contains p";
      cases "ship_destroyed (set_point f p CELL_DAMAGED) p") (auto simp: Let_def)

lemma get_state_mark_boundary:
  assumes "wf_field f" "get_state f p = CELL_DAMAGED"
  shows "get_state (mark_destroyed_ship_boundary f p) = marked f (damaged_cross f p)"
  using mark_boundary_reading_marked [OF assms] by (simp add: mark_destroyed_ship_boundary_def)

end
