(* ===== verification/FieldValid.thy ===== *)
theory FieldValid
  imports GameField
begin

text \<open>
  The validation of a starting field: \<open>_is_cell_values_valid\<close>, \<open>_remove_ship\<close>,
  \<open>_is_valid_field\<close> and \<open>is_valid_start_field\<close> of \<^verbatim>\<open>src/core/game_field.cpp\<close>. The scan of
  \<open>_is_valid_field\<close> finds the ships row by row, removing each from a copy of the array; then the
  ships are counted by type, and every cell around a ship has to be empty.

  The two inner \<^verbatim>\<open>while\<close> loops read a cell before they test its index, so at the border they read
  one element past a row, and past the whole array in the last row. The array is contiguous, so
  a read past a row is the first cell of the next one; \<open>past_end\<close> is the value found behind the
  array.
\<close>

section \<open>Reading and clearing cells\<close>

definition read_cell :: "byte \<Rightarrow> GameField \<Rightarrow> nat \<Rightarrow> nat \<Rightarrow> byte" where
  "read_cell past_end tmp i j =
     (if 10 * i + j < length (gf_cells tmp) then gf_cells tmp ! (10 * i + j) else past_end)"

definition is_cell_values_valid :: "GameField \<Rightarrow> bool" where
  "is_cell_values_valid f =
     all_upto FLD_SZ (\<lambda>i. all_upto FLD_SZ (\<lambda>j.
       \<not> (sint (cell f i j) < sint (CellState_code CELL_EMPTY)
          \<or> sint (cell f i j) > sint (CellState_code CELL_MISSED))))"

fun remove_cells :: "nat \<Rightarrow> Point \<Rightarrow> Point \<Rightarrow> GameField \<Rightarrow> GameField" where
  "remove_cells 0 tmp d f = f"
| "remove_cells (Suc n) tmp d f =
     remove_cells n (tmp + d) d
       (if field_contains tmp
        then set_cell f (nat (py tmp)) (nat (px tmp)) (CellState_code CELL_EMPTY) else f)"

definition remove_ship :: "Ship \<Rightarrow> GameField \<Rightarrow> GameField" where
  "remove_ship s f =
     (if sh_type s = INVALID_SHIP then f
      else remove_cells (nat (ship_get_length s)) (sh_head s) (get_delta s) f)"

section \<open>Finding the ships\<close>

function run_right :: "byte \<Rightarrow> GameField \<Rightarrow> nat \<Rightarrow> nat \<Rightarrow> nat" where
  "run_right past_end tmp i j =
     (if read_cell past_end tmp i j \<noteq> CellState_code CELL_EMPTY \<and> j < FLD_SZ
      then run_right past_end tmp i (Suc j) else j)"
  by pat_completeness auto
termination
  by (relation "measure (\<lambda>(e, f, i, j). 10 - j)") auto

function run_down :: "byte \<Rightarrow> GameField \<Rightarrow> nat \<Rightarrow> nat \<Rightarrow> nat" where
  "run_down past_end tmp tmp_i j =
     (if read_cell past_end tmp tmp_i j \<noteq> CellState_code CELL_EMPTY \<and> tmp_i < FLD_SZ
      then run_down past_end tmp (Suc tmp_i) j else tmp_i)"
  by pat_completeness auto
termination
  by (relation "measure (\<lambda>(e, f, i, j). 10 - i)") auto

declare run_right.simps [simp del] run_down.simps [simp del]

text \<open>
  The ship that starts at the cell \<open>(i, j0)\<close> when the run to the right ends at column \<open>j\<close>;
  \<open>None\<close> where the source returns \<open>false\<close>.
\<close>

definition find_ship :: "byte \<Rightarrow> GameField \<Rightarrow> nat \<Rightarrow> nat \<Rightarrow> nat \<Rightarrow> Ship option" where
  "find_ship past_end tmp i j0 j =
     (let head = Point (int j0) (int i);
          tail = Point (int j) (int i);
          ship = mk_ship head tail;
          s_type = sh_type ship
      in if s_type \<noteq> INVALID_SHIP \<and> s_type \<noteq> SUBMARINE_SHIP then Some ship
         else if s_type = INVALID_SHIP then None
         else (let tmp_i = run_down past_end tmp i j - 1 in
               if tmp_i \<noteq> i
               then (let ship' = mk_ship head (Point (int j) (int tmp_i)) in
                     if sh_type ship' = INVALID_SHIP then None else Some ship')
               else Some ship))"

lemma run_right_ge: "j \<le> run_right e f i j"
  by (induction e f i j rule: run_right.induct) (subst run_right.simps, auto dest: Suc_leD)

lemma run_right_gt:
  "read_cell e f i j \<noteq> 0 \<Longrightarrow> j < 10 \<Longrightarrow> j < run_right e f i j"
  using run_right_ge [of "Suc j" e f i] by (subst run_right.simps) simp

definition SHIP_COUNT :: nat where "SHIP_COUNT = 7"

function scan_row ::
  "byte \<Rightarrow> nat \<Rightarrow> nat \<Rightarrow> GameField \<Rightarrow> Ship list \<Rightarrow> (GameField \<times> Ship list) option" where
  "scan_row past_end i j tmp ship_arr =
     (if j < FLD_SZ then
        (if read_cell past_end tmp i j = CellState_code CELL_EMPTY
         then scan_row past_end i (Suc j) tmp ship_arr
         else (let j' = run_right past_end tmp i j - 1 in
               case find_ship past_end tmp i j j' of
                 None \<Rightarrow> None
               | Some ship \<Rightarrow>
                   (if length ship_arr = SHIP_COUNT then None
                    else scan_row past_end i (Suc j') (remove_ship ship tmp)
                           (ship_arr @ [ship]))))
      else Some (tmp, ship_arr))"
  by pat_completeness auto
termination
  by (relation "measure (\<lambda>(e, i, j, tmp, arr). 10 - j)")
    (auto dest!: run_right_gt intro!: diff_less_mono2)

declare scan_row.simps [simp del]

fun scan_rows :: "byte \<Rightarrow> nat list \<Rightarrow> GameField \<Rightarrow> Ship list \<Rightarrow> (GameField \<times> Ship list) option" where
  "scan_rows past_end [] tmp ship_arr = Some (tmp, ship_arr)"
| "scan_rows past_end (i # is) tmp ship_arr =
     (case scan_row past_end i 0 tmp ship_arr of
        None \<Rightarrow> None
      | Some (tmp', ship_arr') \<Rightarrow> scan_rows past_end is tmp' ship_arr')"

section \<open>Counting the ships\<close>

text \<open>
  The counter of one type after the loop that decrements it for every ship of the type; the
  loop leaves with \<open>false\<close> at an invalid ship.
\<close>

fun remaining :: "ShipType \<Rightarrow> int \<Rightarrow> Ship list \<Rightarrow> int" where
  "remaining t cnt [] = cnt"
| "remaining t cnt (s # ss) = remaining t (if sh_type s = t then cnt - 1 else cnt) ss"

definition ship_counts_ok :: "Ship list \<Rightarrow> bool" where
  "ship_counts_ok ship_arr =
     (if list_ex (\<lambda>s. sh_type s = INVALID_SHIP) ship_arr then False
      else if remaining SUBMARINE_SHIP (ship_count SUBMARINE_SHIP) ship_arr \<noteq> 0
            \<or> remaining DESTROYER_SHIP (ship_count DESTROYER_SHIP) ship_arr \<noteq> 0
            \<or> remaining CRUISER_SHIP (ship_count CRUISER_SHIP) ship_arr \<noteq> 0
            \<or> remaining BATTLESHIP_SHIP (ship_count BATTLESHIP_SHIP) ship_arr \<noteq> 0
            \<or> remaining AIRCRAFT_CARRIER_SHIP (ship_count AIRCRAFT_CARRIER_SHIP) ship_arr \<noteq> 0
      then False else True)"

section \<open>The surroundings of the ships\<close>

definition h_delta_h :: "Point list" where
  "h_delta_h = [Point (-1) (-1), Point (-1) 0, Point (-1) 1]"
definition t_delta_h :: "Point list" where
  "t_delta_h = [Point 1 (-1), Point 1 0, Point 1 1]"
definition b_delta_h :: "Point list" where
  "b_delta_h = [Point 0 (-1), Point 0 1]"
definition h_delta_v :: "Point list" where
  "h_delta_v = [Point (-1) (-1), Point 0 (-1), Point 1 (-1)]"
definition t_delta_v :: "Point list" where
  "t_delta_v = [Point (-1) 1, Point 0 1, Point 1 1]"
definition b_delta_v :: "Point list" where
  "b_delta_v = [Point (-1) 0, Point 1 0]"

definition nbr_free :: "GameField \<Rightarrow> Point \<Rightarrow> bool" where
  "nbr_free f nbr =
     (if px nbr < 0 \<or> px nbr \<ge> 10 \<or> py nbr < 0 \<or> py nbr \<ge> 10 then True
      else cell f (nat (py nbr)) (nat (px nbr)) = 0)"

definition cell_surroundings_free :: "GameField \<Rightarrow> Ship \<Rightarrow> Point \<Rightarrow> bool" where
  "cell_surroundings_free f s tmp =
     ((if point_eq tmp (sh_head s)
       then list_all (\<lambda>d. nbr_free f (tmp + d)) (if is_vertical s then h_delta_v else h_delta_h)
       else True)
      \<and> (if point_eq tmp (sh_tail s)
         then list_all (\<lambda>d. nbr_free f (tmp + d)) (if is_vertical s then t_delta_v else t_delta_h)
         else True)
      \<and> list_all (\<lambda>d. nbr_free f (tmp + d)) (if is_vertical s then b_delta_v else b_delta_h))"

fun surroundings_scan :: "GameField \<Rightarrow> Ship \<Rightarrow> nat \<Rightarrow> Point \<Rightarrow> bool" where
  "surroundings_scan f s 0 tmp = True"
| "surroundings_scan f s (Suc n) tmp =
     (if cell_surroundings_free f s tmp then surroundings_scan f s n (tmp + get_delta s) else False)"

definition ship_surroundings_free :: "GameField \<Rightarrow> Ship \<Rightarrow> bool" where
  "ship_surroundings_free f s = surroundings_scan f s (nat (ship_get_length s)) (sh_head s)"

section \<open>The validation\<close>

definition is_valid_field_reading :: "byte \<Rightarrow> GameField \<Rightarrow> bool" where
  "is_valid_field_reading past_end f =
     (if \<not> is_cell_values_valid f then False
      else
        (case scan_rows past_end [0..<FLD_SZ] f [] of
           None \<Rightarrow> False
         | Some (tmp, ship_arr) \<Rightarrow>
             (if length ship_arr \<noteq> SHIP_COUNT then False
              else if \<not> ship_counts_ok ship_arr then False
              else list_all (ship_surroundings_free f) ship_arr)))"

definition is_valid_field :: "GameField \<Rightarrow> bool" where
  "is_valid_field f = is_valid_field_reading 0 f"

definition is_valid_start_field :: "GameField \<Rightarrow> bool" where
  "is_valid_start_field f =
     (if field_is_empty f \<or> \<not> is_valid_field f then False
      else all_upto FLD_SZ (\<lambda>i. all_upto FLD_SZ (\<lambda>j.
             \<not> (cell f i j \<noteq> CellState_code CELL_EMPTY
                \<and> cell f i j \<noteq> CellState_code CELL_UNHARMED))))"

end
