(* ===== verification/FieldLegal.thy ===== *)
theory FieldLegal
  imports FieldValid
begin

text \<open>
  What a legal starting field is, independently of the scan of \<^verbatim>\<open>game_field.cpp\<close>, and the facts
  that connect the two: the ships are straight and inside the field, the fleet has the numbers
  of the rules, and no two ships touch, not even at a corner.
\<close>

section \<open>Legal ships and fleets\<close>

text \<open>The horizontal ship of length \<open>n\<close> whose leftmost cell is \<open>(x, y)\<close>, and the vertical one.\<close>

definition hship :: "int \<Rightarrow> int \<Rightarrow> int \<Rightarrow> Ship" where
  "hship x y n = \<lparr>sh_type = ship_type n, sh_head = Point x y, sh_tail = Point (x + n - 1) y\<rparr>"

definition vship :: "int \<Rightarrow> int \<Rightarrow> int \<Rightarrow> Ship" where
  "vship x y n = \<lparr>sh_type = ship_type n, sh_head = Point x y, sh_tail = Point x (y + n - 1)\<rparr>"

definition legal_ship :: "Ship \<Rightarrow> bool" where
  "legal_ship s \<longleftrightarrow>
     (\<exists>x y n. 0 \<le> x \<and> 0 \<le> y \<and>
        (2 \<le> n \<and> n \<le> 5 \<and> x + n \<le> 10 \<and> y < 10 \<and> s = hship x y n
         \<or> 1 \<le> n \<and> n \<le> 5 \<and> y + n \<le> 10 \<and> x < 10 \<and> s = vship x y n))"

text \<open>Two ships touch when a cell of one is a cell of the other or next to one.\<close>

definition ships_touch :: "Ship \<Rightarrow> Ship \<Rightarrow> bool" where
  "ships_touch s t \<longleftrightarrow>
     (\<exists>p \<in> set (ship_cells s). \<exists>q \<in> set (ship_cells t). p = q \<or> king_adjacent p q)"

text \<open>The occupied cells of an array.\<close>

definition occ :: "GameField \<Rightarrow> Point \<Rightarrow> bool" where
  "occ f p \<longleftrightarrow> field_contains p \<and> cell f (nat (py p)) (nat (px p)) \<noteq> 0"

definition fleet_cells :: "Ship list \<Rightarrow> Point set" where
  "fleet_cells ships = (\<Union>s \<in> set ships. set (ship_cells s))"

definition fleet_counts :: "Ship list \<Rightarrow> bool" where
  "fleet_counts ships \<longleftrightarrow>
     (\<forall>t. int (length (filter (\<lambda>s. sh_type s = t) ships)) = ship_count t)"

definition legal_fleet :: "Ship list \<Rightarrow> bool" where
  "legal_fleet ships \<longleftrightarrow> (\<forall>s \<in> set ships. legal_ship s) \<and> fleet_counts ships \<and>
     (\<forall>a < length ships. \<forall>b < length ships. a \<noteq> b \<longrightarrow> \<not> ships_touch (ships ! a) (ships ! b))"

definition legal_start_field :: "GameField \<Rightarrow> bool" where
  "legal_start_field f \<longleftrightarrow>
     (\<forall>i<10. \<forall>j<10. cell f i j = 0 \<or> cell f i j = 1) \<and>
     (\<exists>ships. legal_fleet ships \<and> (\<forall>p. occ f p \<longleftrightarrow> p \<in> fleet_cells ships))"

section \<open>The cells of legal ships\<close>

lemma ship_types [simp]:
  "sh_type (hship x y n) = ship_type n" "sh_head (hship x y n) = Point x y"
  "sh_tail (hship x y n) = Point (x + n - 1) y"
  "sh_type (vship x y n) = ship_type n" "sh_head (vship x y n) = Point x y"
  "sh_tail (vship x y n) = Point x (y + n - 1)"
  by (simp_all add: hship_def vship_def)

lemma delta_hship [simp]: "2 \<le> n \<Longrightarrow> n \<le> 5 \<Longrightarrow> get_delta (hship x y n) = Point 1 0"
  by (simp add: get_delta_def is_vertical_def ship_type_invalid_iff)

lemma delta_vship [simp]: "1 \<le> n \<Longrightarrow> n \<le> 5 \<Longrightarrow> get_delta (vship x y n) = Point 0 1"
  by (simp add: get_delta_def is_vertical_def ship_type_invalid_iff)

lemma vertical_hship [simp]: "2 \<le> n \<Longrightarrow> \<not> is_vertical (hship x y n)"
  by (simp add: is_vertical_def)

lemma vertical_vship [simp]: "1 \<le> n \<Longrightarrow> n \<le> 5 \<Longrightarrow> is_vertical (vship x y n)"
  by (simp add: is_vertical_def ship_type_invalid_iff)

lemma set_line_right: "set (line_cells n (Point x y) (Point 1 0))
    = {Point x' y | x'. x \<le> x' \<and> x' < x + int n}"
proof (rule set_eqI, rule iffI)
  fix p
  assume "p \<in> set (line_cells n (Point x y) (Point 1 0))"
  then show "p \<in> {Point x' y | x'. x \<le> x' \<and> x' < x + int n}"
    by (auto simp: set_line_cells)
next
  fix p
  assume "p \<in> {Point x' y | x'. x \<le> x' \<and> x' < x + int n}"
  then obtain x' where "p = Point x' y" "x \<le> x'" "x' < x + int n" by blast
  then show "p \<in> set (line_cells n (Point x y) (Point 1 0))"
    unfolding set_line_cells by (intro image_eqI [where x = "nat (x' - x)"]) auto
qed

lemma set_line_down: "set (line_cells n (Point x y) (Point 0 1))
    = {Point x y' | y'. y \<le> y' \<and> y' < y + int n}"
proof (rule set_eqI, rule iffI)
  fix p
  assume "p \<in> set (line_cells n (Point x y) (Point 0 1))"
  then show "p \<in> {Point x y' | y'. y \<le> y' \<and> y' < y + int n}"
    by (auto simp: set_line_cells)
next
  fix p
  assume "p \<in> {Point x y' | y'. y \<le> y' \<and> y' < y + int n}"
  then obtain y' where "p = Point x y'" "y \<le> y'" "y' < y + int n" by blast
  then show "p \<in> set (line_cells n (Point x y) (Point 0 1))"
    unfolding set_line_cells by (intro image_eqI [where x = "nat (y' - y)"]) auto
qed

lemma cells_hship:
  "2 \<le> n \<Longrightarrow> n \<le> 5 \<Longrightarrow> set (ship_cells (hship x y n)) = {Point x' y | x'. x \<le> x' \<and> x' < x + n}"
  by (simp add: ship_cells_def ship_get_length_def set_line_right)

lemma cells_vship:
  "1 \<le> n \<Longrightarrow> n \<le> 5 \<Longrightarrow> set (ship_cells (vship x y n)) = {Point x y' | y'. y \<le> y' \<and> y' < y + n}"
  by (simp add: ship_cells_def ship_get_length_def set_line_down)

lemma legal_shipE:
  assumes "legal_ship s"
  obtains (h) x y n where "0 \<le> x" "0 \<le> y" "2 \<le> n" "n \<le> 5" "x + n \<le> 10" "y < 10" "s = hship x y n"
    | (v) x y n where "0 \<le> x" "0 \<le> y" "1 \<le> n" "n \<le> 5" "y + n \<le> 10" "x < 10" "s = vship x y n"
  using assms unfolding legal_ship_def by blast

lemma legal_ship_hship:
  "0 \<le> x \<Longrightarrow> 0 \<le> y \<Longrightarrow> 2 \<le> n \<Longrightarrow> n \<le> 5 \<Longrightarrow> x + n \<le> 10 \<Longrightarrow> y < 10 \<Longrightarrow> legal_ship (hship x y n)"
  unfolding legal_ship_def by blast

lemma legal_ship_vship:
  "0 \<le> x \<Longrightarrow> 0 \<le> y \<Longrightarrow> 1 \<le> n \<Longrightarrow> n \<le> 5 \<Longrightarrow> y + n \<le> 10 \<Longrightarrow> x < 10 \<Longrightarrow> legal_ship (vship x y n)"
  unfolding legal_ship_def by blast

lemma legal_ship_valid: "legal_ship s \<Longrightarrow> sh_type s \<noteq> INVALID_SHIP"
  by (erule legal_shipE) (simp_all add: ship_type_invalid_iff)

lemma legal_ship_inside: "legal_ship s \<Longrightarrow> p \<in> set (ship_cells s) \<Longrightarrow> field_contains p"
  by (erule legal_shipE) (auto simp: cells_hship cells_vship field_contains_iff)

lemma head_in_cells: "legal_ship s \<Longrightarrow> sh_head s \<in> set (ship_cells s)"
  by (erule legal_shipE) (auto simp: cells_hship cells_vship)

text \<open>The head is the first cell of a ship in the order of the scan.\<close>

definition scan_le :: "Point \<Rightarrow> Point \<Rightarrow> bool" where
  "scan_le p q \<longleftrightarrow> py p < py q \<or> py p = py q \<and> px p \<le> px q"

lemma head_first: "legal_ship s \<Longrightarrow> p \<in> set (ship_cells s) \<Longrightarrow> scan_le (sh_head s) p"
  by (erule legal_shipE) (auto simp: cells_hship cells_vship scan_le_def)

lemma scan_le_antisym: "scan_le p q \<Longrightarrow> scan_le q p \<Longrightarrow> p = q"
  by (auto simp: scan_le_def intro: Point_eqI)

section \<open>Removing a ship\<close>

lemma wf_remove_cells: "wf_field f \<Longrightarrow> wf_field (remove_cells n p d f)"
  by (induction n p d f rule: remove_cells.induct) auto

lemma wf_remove_ship: "wf_field f \<Longrightarrow> wf_field (remove_ship s f)"
  by (simp add: remove_ship_def wf_remove_cells)

lemma cell_set_point_wise:
  assumes "wf_field f" "field_contains q"
  shows "cell (if field_contains p then set_cell f (nat (py p)) (nat (px p)) v else f)
      (nat (py q)) (nat (px q)) = (if q = p then v else cell f (nat (py q)) (nat (px q)))"
proof (cases "field_contains p")
  case True
  have "nat (py q) = nat (py p) \<and> nat (px q) = nat (px p) \<longleftrightarrow> q = p"
    using True assms(2) by (auto simp: field_contains_iff intro: Point_eqI)
  then show ?thesis using True assms by (auto simp: cell_set_cell)
next
  case False
  then show ?thesis using assms by auto
qed

lemma cell_remove_cells:
  assumes "wf_field f" "field_contains q"
  shows "cell (remove_cells n p d f) (nat (py q)) (nat (px q))
    = (if q \<in> set (line_cells n p d) then 0 else cell f (nat (py q)) (nat (px q)))"
  using assms(1)
proof (induction n p d f rule: remove_cells.induct)
  case (1 p d f)
  then show ?case by simp
next
  case (2 n p d f)
  let ?g = "if field_contains p
    then set_cell f (nat (py p)) (nat (px p)) (CellState_code CELL_EMPTY) else f"
  have "wf_field ?g" using 2(2) by simp
  from 2(1) [OF this] show ?case
    using cell_set_point_wise [OF 2(2) assms(2), of p "CellState_code CELL_EMPTY"] by auto
qed

lemma occ_remove_ship:
  assumes "wf_field f" "sh_type s \<noteq> INVALID_SHIP"
  shows "occ (remove_ship s f) p \<longleftrightarrow> occ f p \<and> p \<notin> set (ship_cells s)"
  using assms cell_remove_cells [OF assms(1)]
  by (auto simp: occ_def remove_ship_def ship_cells_def split: if_splits)

section \<open>Runs of occupied cells\<close>

lemma read_cell_inside: "wf_field f \<Longrightarrow> i < 10 \<Longrightarrow> j < 10 \<Longrightarrow> read_cell e f i j = cell f i j"
  by (simp add: read_cell_def cell_def wf_field_def)

lemma occ_cell: "i < 10 \<Longrightarrow> j < 10 \<Longrightarrow> occ f (Point (int j) (int i)) \<longleftrightarrow> cell f i j \<noteq> 0"
  by (simp add: occ_def field_contains_iff)

text \<open>The value read behind the array does not matter.\<close>

lemma run_right_spec:
  assumes "wf_field f" "i < 10" "j \<le> 10"
  shows "run_right e f i j \<le> 10"
    and "j \<le> k \<Longrightarrow> k < run_right e f i j \<Longrightarrow> occ f (Point (int k) (int i))"
    and "run_right e f i j < 10 \<Longrightarrow> \<not> occ f (Point (int (run_right e f i j)) (int i))"
proof -
  have "run_right e f i j \<le> 10 \<and> (\<forall>k. j \<le> k \<and> k < run_right e f i j \<longrightarrow> occ f (Point (int k) (int i)))
    \<and> (run_right e f i j < 10 \<longrightarrow> \<not> occ f (Point (int (run_right e f i j)) (int i)))"
    using assms
  proof (induction e f i j rule: run_right.induct)
    case (1 e f i j)
    show ?case
    proof (cases "j < 10 \<and> cell f i j \<noteq> 0")
      case True
      with 1 have "run_right e f i j = run_right e f i (Suc j)"
        by (subst run_right.simps) (simp add: read_cell_inside)
      moreover have "occ f (Point (int j) (int i))" using True 1 by (simp add: occ_cell)
      ultimately show ?thesis
        using 1 True by (auto simp: read_cell_inside le_less_Suc_eq Suc_le_eq dest: le_neq_implies_less)
    next
      case False
      with 1 have "run_right e f i j = j"
        by (subst run_right.simps) (auto simp: read_cell_inside)
      with False 1 show ?thesis by (auto simp: occ_cell)
    qed
  qed
  then show "run_right e f i j \<le> 10"
    and "j \<le> k \<Longrightarrow> k < run_right e f i j \<Longrightarrow> occ f (Point (int k) (int i))"
    and "run_right e f i j < 10 \<Longrightarrow> \<not> occ f (Point (int (run_right e f i j)) (int i))"
    by blast+
qed

lemma run_down_spec:
  assumes "wf_field f" "j < 10" "i \<le> 10"
  shows "run_down e f i j \<le> 10" and "i \<le> run_down e f i j"
    and "i \<le> k \<Longrightarrow> k < run_down e f i j \<Longrightarrow> occ f (Point (int j) (int k))"
    and "run_down e f i j < 10 \<Longrightarrow> \<not> occ f (Point (int j) (int (run_down e f i j)))"
proof -
  have "run_down e f i j \<le> 10 \<and> i \<le> run_down e f i j
    \<and> (\<forall>k. i \<le> k \<and> k < run_down e f i j \<longrightarrow> occ f (Point (int j) (int k)))
    \<and> (run_down e f i j < 10 \<longrightarrow> \<not> occ f (Point (int j) (int (run_down e f i j))))"
    using assms
  proof (induction e f i j rule: run_down.induct)
    case (1 e f i j)
    show ?case
    proof (cases "i < 10 \<and> cell f i j \<noteq> 0")
      case True
      with 1 have "run_down e f i j = run_down e f (Suc i) j"
        by (subst run_down.simps) (simp add: read_cell_inside)
      moreover have "occ f (Point (int j) (int i))" using True 1 by (simp add: occ_cell)
      ultimately show ?thesis
        using 1 True by (auto simp: read_cell_inside Suc_le_eq dest: le_neq_implies_less)
    next
      case False
      with 1 have "run_down e f i j = i"
        by (subst run_down.simps) (auto simp: read_cell_inside)
      with False 1 show ?thesis by (auto simp: occ_cell)
    qed
  qed
  then show "run_down e f i j \<le> 10" and "i \<le> run_down e f i j"
    and "i \<le> k \<Longrightarrow> k < run_down e f i j \<Longrightarrow> occ f (Point (int j) (int k))"
    and "run_down e f i j < 10 \<Longrightarrow> \<not> occ f (Point (int j) (int (run_down e f i j)))"
    by blast+
qed

section \<open>The surroundings of a legal ship\<close>

lemma surroundings_scan_all:
  "surroundings_scan f s n p \<longleftrightarrow> (\<forall>c \<in> set (line_cells n p (get_delta s)). cell_surroundings_free f s c)"
  by (induction f s n p rule: surroundings_scan.induct) auto

lemma surroundings_cells:
  "ship_surroundings_free f s \<longleftrightarrow> (\<forall>c \<in> set (ship_cells s). cell_surroundings_free f s c)"
  by (simp add: ship_surroundings_free_def surroundings_scan_all ship_cells_def)

lemma nbr_free_occ: "nbr_free f p \<longleftrightarrow> \<not> occ f p"
  by (auto simp: nbr_free_def occ_def field_contains_iff)

text \<open>The cells tested around a horizontal ship are the frame of its rectangle.\<close>

lemma surroundings_hship:
  assumes "2 \<le> n" "n \<le> 5"
  shows "ship_surroundings_free f (hship x y n) \<longleftrightarrow>
    (\<forall>a b. x - 1 \<le> a \<and> a \<le> x + n \<and> y - 1 \<le> b \<and> b \<le> y + 1 \<and> occ f (Point a b)
       \<longrightarrow> b = y \<and> x \<le> a \<and> a < x + n)"
    (is "_ \<longleftrightarrow> ?frame")
proof
  assume free: "ship_surroundings_free f (hship x y n)"
  have c: "cell_surroundings_free f (hship x y n) (Point a y)" if "x \<le> a" "a < x + n" for a
    using free that assms by (auto simp: surroundings_cells cells_hship)
  have head: "\<not> occ f (Point (x - 1) b)" if "y - 1 \<le> b" "b \<le> y + 1" for b
  proof -
    have "b = y - 1 \<or> b = y \<or> b = y + 1" using that by auto
    then show ?thesis using c [of x] assms
      by (auto simp: cell_surroundings_free_def h_delta_h_def nbr_free_occ)
  qed
  have tail: "\<not> occ f (Point (x + n) b)" if "y - 1 \<le> b" "b \<le> y + 1" for b
  proof -
    have "b = y - 1 \<or> b = y \<or> b = y + 1" using that by auto
    then show ?thesis using c [of "x + n - 1"] assms
      by (auto simp: cell_surroundings_free_def t_delta_h_def nbr_free_occ)
  qed
  have flank: "\<not> occ f (Point a (y - 1)) \<and> \<not> occ f (Point a (y + 1))" if "x \<le> a" "a < x + n" for a
    using c [OF that] assms by (simp add: cell_surroundings_free_def b_delta_h_def nbr_free_occ)
  show ?frame
  proof (intro allI impI)
    fix a b
    assume ab: "x - 1 \<le> a \<and> a \<le> x + n \<and> y - 1 \<le> b \<and> b \<le> y + 1 \<and> occ f (Point a b)"
    then have "a \<noteq> x - 1" "a \<noteq> x + n" using head tail by blast+
    with ab have "x \<le> a" "a < x + n" by auto
    moreover have "b = y - 1 \<or> b = y \<or> b = y + 1" using ab by auto
    ultimately show "b = y \<and> x \<le> a \<and> a < x + n" using flank [of a] ab by auto
  qed
next
  assume frame: ?frame
  show "ship_surroundings_free f (hship x y n)"
    unfolding surroundings_cells cells_hship [OF assms]
  proof
    fix c
    assume "c \<in> {Point x' y | x'. x \<le> x' \<and> x' < x + n}"
    then obtain x' where x': "c = Point x' y" "x \<le> x'" "x' < x + n" by blast
    have out: "\<not> occ f (Point a b)"
      if "x - 1 \<le> a" "a \<le> x + n" "y - 1 \<le> b" "b \<le> y + 1" "\<not> (b = y \<and> x \<le> a \<and> a < x + n)" for a b
      using frame that by blast
    show "cell_surroundings_free f (hship x y n) c"
      using assms x'
      by (auto simp: cell_surroundings_free_def h_delta_h_def t_delta_h_def b_delta_h_def
        nbr_free_occ out)
  qed
qed

lemma surroundings_vship:
  assumes "1 \<le> n" "n \<le> 5"
  shows "ship_surroundings_free f (vship x y n) \<longleftrightarrow>
    (\<forall>a b. x - 1 \<le> a \<and> a \<le> x + 1 \<and> y - 1 \<le> b \<and> b \<le> y + n \<and> occ f (Point a b)
       \<longrightarrow> a = x \<and> y \<le> b \<and> b < y + n)"
    (is "_ \<longleftrightarrow> ?frame")
proof
  assume free: "ship_surroundings_free f (vship x y n)"
  have c: "cell_surroundings_free f (vship x y n) (Point x b)" if "y \<le> b" "b < y + n" for b
    using free that assms by (auto simp: surroundings_cells cells_vship)
  have head: "\<not> occ f (Point a (y - 1))" if "x - 1 \<le> a" "a \<le> x + 1" for a
  proof -
    have "a = x - 1 \<or> a = x \<or> a = x + 1" using that by auto
    then show ?thesis using c [of y] assms
      by (auto simp: cell_surroundings_free_def h_delta_v_def nbr_free_occ)
  qed
  have tail: "\<not> occ f (Point a (y + n))" if "x - 1 \<le> a" "a \<le> x + 1" for a
  proof -
    have "a = x - 1 \<or> a = x \<or> a = x + 1" using that by auto
    then show ?thesis using c [of "y + n - 1"] assms
      by (auto simp: cell_surroundings_free_def t_delta_v_def nbr_free_occ)
  qed
  have flank: "\<not> occ f (Point (x - 1) b) \<and> \<not> occ f (Point (x + 1) b)" if "y \<le> b" "b < y + n" for b
    using c [OF that] assms by (simp add: cell_surroundings_free_def b_delta_v_def nbr_free_occ)
  show ?frame
  proof (intro allI impI)
    fix a b
    assume ab: "x - 1 \<le> a \<and> a \<le> x + 1 \<and> y - 1 \<le> b \<and> b \<le> y + n \<and> occ f (Point a b)"
    then have "b \<noteq> y - 1" "b \<noteq> y + n" using head tail by blast+
    with ab have "y \<le> b" "b < y + n" by auto
    moreover have "a = x - 1 \<or> a = x \<or> a = x + 1" using ab by auto
    ultimately show "a = x \<and> y \<le> b \<and> b < y + n" using flank [of b] ab by auto
  qed
next
  assume frame: ?frame
  show "ship_surroundings_free f (vship x y n)"
    unfolding surroundings_cells cells_vship [OF assms]
  proof
    fix c
    assume "c \<in> {Point x y' | y'. y \<le> y' \<and> y' < y + n}"
    then obtain y' where y': "c = Point x y'" "y \<le> y'" "y' < y + n" by blast
    have out: "\<not> occ f (Point a b)"
      if "x - 1 \<le> a" "a \<le> x + 1" "y - 1 \<le> b" "b \<le> y + n" "\<not> (a = x \<and> y \<le> b \<and> b < y + n)" for a b
      using frame that by blast
    show "cell_surroundings_free f (vship x y n) c"
      using assms y'
      by (auto simp: cell_surroundings_free_def h_delta_v_def t_delta_v_def b_delta_v_def
        nbr_free_occ out)
  qed
qed

text \<open>The test succeeds exactly when no other occupied cell is next to the ship.\<close>

lemma surroundings_free_iff:
  assumes "legal_ship s"
  shows "ship_surroundings_free f s \<longleftrightarrow>
    (\<forall>c \<in> set (ship_cells s). \<forall>q. king_adjacent c q \<and> occ f q \<longrightarrow> q \<in> set (ship_cells s))"
  using assms
proof (cases rule: legal_shipE)
  case (h x y n)
  have adj: "(\<exists>c \<in> set (ship_cells s). king_adjacent c (Point a b)) \<and> Point a b \<notin> set (ship_cells s)
    \<longleftrightarrow> x - 1 \<le> a \<and> a \<le> x + n \<and> y - 1 \<le> b \<and> b \<le> y + 1 \<and> \<not> (b = y \<and> x \<le> a \<and> a < x + n)"
    (is "?L \<longleftrightarrow> ?R") for a b
  proof
    assume ?L
    then show ?R using h by (auto simp: cells_hship king_adjacent_def)
  next
    assume r: ?R
    have "Point (max x (min a (x + n - 1))) y \<in> set (ship_cells s)" using h by (auto simp: cells_hship)
    moreover have "king_adjacent (Point (max x (min a (x + n - 1))) y) (Point a b)"
      using r h by (auto simp: king_adjacent_def)
    moreover have "Point a b \<notin> set (ship_cells s)" using r h by (auto simp: cells_hship)
    ultimately show ?L by blast
  qed
  have "(\<forall>c \<in> set (ship_cells s). \<forall>q. king_adjacent c q \<and> occ f q \<longrightarrow> q \<in> set (ship_cells s))
    \<longleftrightarrow> (\<forall>a b. occ f (Point a b) \<longrightarrow> \<not> ((\<exists>c \<in> set (ship_cells s). king_adjacent c (Point a b))
          \<and> Point a b \<notin> set (ship_cells s)))"
    by (metis Point.collapse)
  then show ?thesis unfolding adj using surroundings_hship [of n f x y] h by blast
next
  case (v x y n)
  have adj: "(\<exists>c \<in> set (ship_cells s). king_adjacent c (Point a b)) \<and> Point a b \<notin> set (ship_cells s)
    \<longleftrightarrow> x - 1 \<le> a \<and> a \<le> x + 1 \<and> y - 1 \<le> b \<and> b \<le> y + n \<and> \<not> (a = x \<and> y \<le> b \<and> b < y + n)"
    (is "?L \<longleftrightarrow> ?R") for a b
  proof
    assume ?L
    then show ?R using v by (auto simp: cells_vship king_adjacent_def)
  next
    assume r: ?R
    have "Point x (max y (min b (y + n - 1))) \<in> set (ship_cells s)" using v by (auto simp: cells_vship)
    moreover have "king_adjacent (Point x (max y (min b (y + n - 1)))) (Point a b)"
      using r v by (auto simp: king_adjacent_def)
    moreover have "Point a b \<notin> set (ship_cells s)" using r v by (auto simp: cells_vship)
    ultimately show ?L by blast
  qed
  have "(\<forall>c \<in> set (ship_cells s). \<forall>q. king_adjacent c q \<and> occ f q \<longrightarrow> q \<in> set (ship_cells s))
    \<longleftrightarrow> (\<forall>a b. occ f (Point a b) \<longrightarrow> \<not> ((\<exists>c \<in> set (ship_cells s). king_adjacent c (Point a b))
          \<and> Point a b \<notin> set (ship_cells s)))"
    by (metis Point.collapse)
  then show ?thesis unfolding adj using surroundings_vship [of n f x y] v by blast
qed

section \<open>Counting\<close>

lemma remaining_count:
  "remaining t c ships = c - int (length (filter (\<lambda>s. sh_type s = t) ships))"
  by (induction t c ships rule: remaining.induct) auto

lemma ship_counts_ok_iff: "ship_counts_ok ships \<longleftrightarrow> fleet_counts ships"
proof -
  have all: "(\<forall>t. P t) \<longleftrightarrow> P SUBMARINE_SHIP \<and> P DESTROYER_SHIP \<and> P CRUISER_SHIP
      \<and> P BATTLESHIP_SHIP \<and> P AIRCRAFT_CARRIER_SHIP \<and> P INVALID_SHIP" for P
    by (metis ShipType.exhaust)
  show ?thesis
    unfolding ship_counts_ok_def fleet_counts_def all remaining_count
    by (auto simp: list_ex_iff filter_empty_conv)
qed

lemma length_by_type:
  "length ships = (\<Sum>t \<in> {SUBMARINE_SHIP, DESTROYER_SHIP, CRUISER_SHIP, BATTLESHIP_SHIP,
      AIRCRAFT_CARRIER_SHIP, INVALID_SHIP}. length (filter (\<lambda>s. sh_type s = t) ships))"
proof (induction ships)
  case (Cons s ships)
  then show ?case by (cases "sh_type s") simp_all
qed simp

lemma fleet_counts_nat:
  "fleet_counts ships \<Longrightarrow> length (filter (\<lambda>s. sh_type s = t) ships) = nat (ship_count t)"
  by (metis fleet_counts_def nat_int)

lemma fleet_counts_length:
  assumes "fleet_counts ships"
  shows "length ships = 7"
  by (subst length_by_type) (simp add: fleet_counts_nat [OF assms])

end
