(* ===== verification/FieldCheck.thy ===== *)
theory FieldCheck
  imports FieldLegal
begin

text \<open>
  The scan of \<open>_is_valid_field\<close> finds exactly the ships of a legal field. The soundness direction
  is an invariant of the scan: what was occupied is what is left in the copy of the array or a
  cell of a ship already found. The completeness direction follows the ships that are still in
  the copy: the first occupied cell in the order of the scan is the head of one of them.
\<close>

section \<open>The ship found at a cell\<close>

lemma mk_hship: "1 \<le> n \<Longrightarrow> mk_ship (Point x y) (Point (x + n - 1) y)
    = (if n = 1 then vship x y 1 else hship x y n)"
  by (auto simp: mk_ship_def ship_of_len_def hship_def vship_def ship_type_def)

lemma mk_vship: "1 \<le> n \<Longrightarrow> mk_ship (Point x y) (Point x (y + n - 1)) = vship x y n"
  by (auto simp: mk_ship_def ship_of_len_def vship_def ship_type_def)

lemma ship_type_Suc: "ship_type (1 + int n) = INVALID_SHIP \<longleftrightarrow> \<not> n < 5"
  "ship_type (1 + int n) = SUBMARINE_SHIP \<longleftrightarrow> n = 0"
  by (auto simp: ship_type_def)

lemma find_ship_horizontal:
  assumes "0 < n"
  shows "find_ship b tmp i j (j + n)
    = (if n < 5 then Some (hship (int j) (int i) (1 + int n)) else None)"
proof -
  have "mk_ship (Point (int j) (int i)) (Point (int j + int n) (int i))
      = hship (int j) (int i) (1 + int n)"
    using mk_hship [of "1 + int n" "int j" "int i"] assms by (simp split: if_splits)
  then show ?thesis using assms by (simp add: find_ship_def Let_def ship_type_Suc)
qed

lemma find_ship_vertical:
  assumes "run_down b tmp i j = Suc (i + n)"
  shows "find_ship b tmp i j j
    = (if n < 5 then Some (vship (int j) (int i) (1 + int n)) else None)"
proof -
  have "mk_ship (Point (int j) (int i)) (Point (int j) (int i)) = vship (int j) (int i) 1"
    using mk_vship [of 1 "int j" "int i"] by simp
  moreover have "mk_ship (Point (int j) (int i)) (Point (int j) (int i + int n))
      = vship (int j) (int i) (1 + int n)"
    using mk_vship [of "1 + int n" "int j" "int i"] by simp
  moreover have "ship_type 1 = SUBMARINE_SHIP" by (simp add: ship_type_def)
  ultimately show ?thesis
    using assms by (simp add: find_ship_def Let_def ship_type_Suc)
qed

text \<open>What a ship found at an occupied cell covers.\<close>

lemma find_ship_sound:
  assumes wf: "wf_field tmp" and ij: "i < 10" "j < 10" and o: "occ tmp (Point (int j) (int i))"
    and found: "find_ship b tmp i j (run_right b tmp i j - 1) = Some s"
  shows "legal_ship s" and "\<forall>p \<in> set (ship_cells s). occ tmp p"
    and "\<And>k. j \<le> k \<Longrightarrow> k < run_right b tmp i j \<Longrightarrow> Point (int k) (int i) \<in> set (ship_cells s)"
proof -
  let ?e = "run_right b tmp i j"
  let ?m = "run_down b tmp i j"
  note right = run_right_spec [OF wf ij(1) less_imp_le [OF ij(2)], where e = b]
  note down = run_down_spec [OF wf ij(2) less_imp_le [OF ij(1)], where e = b]
  have je: "j < ?e"
    using o ij wf by (intro run_right_gt) (auto simp: occ_cell read_cell_inside)
  have im: "i < ?m"
    using o ij wf down(2,4) by (metis le_neq_implies_less order.strict_iff_order)
  obtain n where n: "?e = Suc (j + n)" using je less_imp_Suc_add by blast
  obtain m where m: "?m = Suc (i + m)" using im less_imp_Suc_add by blast
  have "legal_ship s \<and> (\<forall>p \<in> set (ship_cells s). occ tmp p) \<and>
    (\<forall>k. j \<le> k \<and> k < ?e \<longrightarrow> Point (int k) (int i) \<in> set (ship_cells s))"
  proof (cases "0 < n")
    case True
    with found n have n5: "n < 5" and s: "s = hship (int j) (int i) (1 + int n)"
      by (auto simp: find_ship_horizontal split: if_splits)
    have cells: "set (ship_cells s) = {Point x (int i) | x. int j \<le> x \<and> x < int ?e}"
      unfolding s n using True n5 by (subst cells_hship) (auto simp: algebra_simps)
    have "occ tmp (Point x (int i))" if "int j \<le> x" "x < int ?e" for x
      using right(2) [of "nat x"] that by auto
    moreover have "legal_ship s"
      unfolding s using True n5 right(1) n ij by (intro legal_ship_hship) auto
    ultimately show ?thesis by (auto simp: cells)
  next
    case False
    with n have e: "?e = Suc j" by simp
    with found m have m5: "m < 5" and s: "s = vship (int j) (int i) (1 + int m)"
      by (auto simp: find_ship_vertical split: if_splits)
    have cells: "set (ship_cells s) = {Point (int j) y | y. int i \<le> y \<and> y < int ?m}"
      unfolding s m using m5 by (subst cells_vship) (auto simp: algebra_simps)
    have "occ tmp (Point (int j) y)" if "int i \<le> y" "y < int ?m" for y
      using down(3) [of "nat y"] that by auto
    moreover have "legal_ship s"
      unfolding s using m5 down(1) m ij by (intro legal_ship_vship) auto
    ultimately show ?thesis using e im by (auto simp: cells le_less_Suc_eq)
  qed
  then show "legal_ship s" and "\<forall>p \<in> set (ship_cells s). occ tmp p"
    and "\<And>k. j \<le> k \<Longrightarrow> k < ?e \<Longrightarrow> Point (int k) (int i) \<in> set (ship_cells s)"
    by blast+
qed

section \<open>The invariant of the scan\<close>

text \<open>The cells before row \<open>i\<close>, column \<open>j\<close> in the order of the scan are empty.\<close>

definition cleared :: "GameField \<Rightarrow> nat \<Rightarrow> nat \<Rightarrow> bool" where
  "cleared tmp i j \<longleftrightarrow> (\<forall>p. occ tmp p \<longrightarrow> int i < py p \<or> int i = py p \<and> int j \<le> px p)"

definition scan_inv :: "GameField \<Rightarrow> GameField \<Rightarrow> Ship list \<Rightarrow> bool" where
  "scan_inv f tmp arr \<longleftrightarrow> wf_field tmp \<and> (\<forall>s \<in> set arr. legal_ship s) \<and>
     distinct (concat (map ship_cells arr)) \<and>
     (\<forall>p. occ f p \<longleftrightarrow> occ tmp p \<or> p \<in> fleet_cells arr) \<and>
     (\<forall>p \<in> fleet_cells arr. \<not> occ tmp p)"

lemma fleet_cells_append: "fleet_cells (xs @ ys) = fleet_cells xs \<union> fleet_cells ys"
  by (auto simp: fleet_cells_def)

lemma fleet_cells_single [simp]: "fleet_cells [s] = set (ship_cells s)"
  by (simp add: fleet_cells_def)

lemma fleet_cells_concat: "fleet_cells arr = set (concat (map ship_cells arr))"
  by (simp add: fleet_cells_def)

lemma distinct_ship_cells: "legal_ship s \<Longrightarrow> distinct (ship_cells s)"
  by (erule legal_shipE)
    (auto simp: ship_cells_def ship_get_length_def distinct_conv_nth nth_line_cells)

lemma scan_inv_step:
  assumes "scan_inv f tmp arr" "legal_ship s" "\<forall>p \<in> set (ship_cells s). occ tmp p"
  shows "scan_inv f (remove_ship s tmp) (arr @ [s])"
proof -
  have o: "occ (remove_ship s tmp) p \<longleftrightarrow> occ tmp p \<and> p \<notin> set (ship_cells s)" for p
    using assms by (intro occ_remove_ship) (auto simp: scan_inv_def legal_ship_valid)
  have "fleet_cells arr \<inter> set (ship_cells s) = {}" using assms by (auto simp: scan_inv_def)
  then have "distinct (concat (map ship_cells (arr @ [s])))"
    using assms distinct_ship_cells by (auto simp: scan_inv_def fleet_cells_concat)
  moreover have "wf_field (remove_ship s tmp)"
    using assms by (simp add: scan_inv_def wf_remove_ship)
  ultimately show ?thesis
    using assms by (auto simp: scan_inv_def o fleet_cells_append)
qed

lemma cleared_next: "cleared tmp i j \<Longrightarrow> \<not> occ tmp (Point (int j) (int i)) \<Longrightarrow> cleared tmp i (Suc j)"
  unfolding cleared_def by (metis Point.collapse of_nat_Suc zless_imp_add1_zle add.commute order_le_less)

lemma cleared_row: "cleared tmp i 10 \<Longrightarrow> cleared tmp (Suc i) 0"
  unfolding cleared_def by (fastforce simp: occ_def field_contains_iff)

lemma cleared_removed:
  assumes "cleared tmp i j" "wf_field tmp" "legal_ship s"
    and "\<And>k. j \<le> k \<Longrightarrow> k < e \<Longrightarrow>
      Point (int k) (int i) \<in> set (ship_cells s) \<or> \<not> occ tmp (Point (int k) (int i))"
  shows "cleared (remove_ship s tmp) i e"
  unfolding cleared_def
proof (intro allI impI)
  fix p
  assume "occ (remove_ship s tmp) p"
  then have p: "occ tmp p" "p \<notin> set (ship_cells s)"
    using assms by (auto simp: occ_remove_ship legal_ship_valid)
  with assms(1) have "int i < py p \<or> int i = py p \<and> int j \<le> px p" by (simp add: cleared_def)
  moreover have False if "int i = py p" "int j \<le> px p" "px p < int e"
  proof -
    have "j \<le> nat (px p)" "nat (px p) < e" using that by linarith+
    moreover have "p = Point (int (nat (px p))) (int i)" using that by (intro Point_eqI) auto
    ultimately show False using assms(4) [of "nat (px p)"] p by metis
  qed
  ultimately show "int i < py p \<or> int i = py p \<and> int e \<le> px p" by force
qed

section \<open>Soundness\<close>

lemma scan_row_sound:
  assumes "i < 10" "j \<le> 10" "cleared tmp i j" "scan_inv f tmp arr"
    and "scan_row b i j tmp arr = Some (tmp', arr')"
  shows "scan_inv f tmp' arr' \<and> cleared tmp' (Suc i) 0"
  using assms
proof (induction b i j tmp arr rule: scan_row.induct)
  case (1 b i j tmp arr)
  note step = "1.prems"(5) [unfolded scan_row.simps [of b i j tmp arr]]
  have wf: "wf_field tmp" using "1.prems"(4) by (simp add: scan_inv_def)
  consider (at_end) "j = 10" | (empty) "j < 10" "\<not> occ tmp (Point (int j) (int i))"
    | (ship) "j < 10" "occ tmp (Point (int j) (int i))"
    using "1.prems"(2) by force
  then show ?case
  proof cases
    case at_end
    with step "1.prems" show ?thesis by (auto intro: cleared_row)
  next
    case empty
    then have "read_cell b tmp i j = 0" using "1.prems"(1) wf by (simp add: read_cell_inside occ_cell)
    with empty step "1.IH"(1) "1.prems" cleared_next show ?thesis by auto
  next
    case ship
    then have r: "read_cell b tmp i j \<noteq> 0" using "1.prems"(1) wf by (simp add: read_cell_inside occ_cell)
    let ?e = "run_right b tmp i j"
    have je: "j < ?e" using run_right_gt [OF r ship(1)] .
    obtain s where s: "find_ship b tmp i j (?e - 1) = Some s" "length arr \<noteq> SHIP_COUNT"
      and rec: "scan_row b i (Suc (?e - 1)) (remove_ship s tmp) (arr @ [s]) = Some (tmp', arr')"
      using step r ship(1) by (auto simp: Let_def split: option.splits if_splits)
    note found = find_ship_sound [OF wf "1.prems"(1) ship s(1)]
    have "cleared (remove_ship s tmp) i (Suc (?e - 1))"
      using je found(3) by (intro cleared_removed [OF "1.prems"(3) wf found(1)]) auto
    moreover have "?e \<le> 10" using run_right_spec(1) wf "1.prems"(1,2) by blast
    ultimately show ?thesis
      using "1.IH"(2) [OF ship(1) _ refl s] r "1.prems"(1) je rec
        scan_inv_step [OF "1.prems"(4) found(1,2)] by auto
  qed
qed

lemma scan_rows_sound:
  assumes "cleared tmp i 0" "scan_inv f tmp arr" "i \<le> 10"
    and "scan_rows b [i..<10] tmp arr = Some (tmp', arr')"
  shows "scan_inv f tmp' arr' \<and> cleared tmp' 10 0"
  using assms
proof (induction "10 - i" arbitrary: i tmp arr)
  case 0
  then show ?case by auto
next
  case (Suc k)
  then have "[i..<10] = i # [Suc i..<10]" by (simp add: upt_conv_Cons)
  with Suc.prems(4) obtain tmp1 arr1 where row: "scan_row b i 0 tmp arr = Some (tmp1, arr1)"
    and rest: "scan_rows b [Suc i..<10] tmp1 arr1 = Some (tmp', arr')"
    by (auto split: option.splits)
  from scan_row_sound [OF _ _ Suc.prems(1,2) row] Suc.hyps(2)
  have "scan_inv f tmp1 arr1 \<and> cleared tmp1 (Suc i) 0" by auto
  with Suc.hyps(1) [of "Suc i" tmp1 arr1] Suc.hyps(2) rest show ?case by auto
qed

lemma cleared_all: "cleared tmp 10 0 \<Longrightarrow> \<not> occ tmp p"
  by (fastforce simp: cleared_def occ_def field_contains_iff)

lemma scan_inv_start: "wf_field f \<Longrightarrow> scan_inv f f []"
  by (simp add: scan_inv_def fleet_cells_def)

lemma cleared_start: "cleared f 0 0"
  by (auto simp: cleared_def occ_def field_contains_iff)

lemma distinct_concat_nth:
  assumes "distinct (concat (map g xs))" "a < length xs" "b < length xs" "a \<noteq> b"
    "p \<in> set (g (xs ! a))"
  shows "p \<notin> set (g (xs ! b))"
  using assms
proof (induction xs arbitrary: a b)
  case Nil
  then show ?case by simp
next
  case (Cons x xs)
  have mem: "set (g (xs ! c)) \<subseteq> set (concat (map g xs))" if "c < length xs" for c
    using that by (auto intro!: bexI [of _ "xs ! c"])
  show ?case
  proof (cases a)
    case 0
    then obtain c where "b = Suc c" using Cons.prems(4) by (cases b) auto
    with 0 Cons.prems mem [of c] show ?thesis by auto
  next
    case (Suc d)
    show ?thesis
    proof (cases b)
      case 0
      with Suc Cons.prems mem [of d] show ?thesis by auto
    next
      case (Suc c)
      with \<open>a = Suc d\<close> Cons show ?thesis by auto
    qed
  qed
qed

text \<open>The ships found in a field that passes the validation.\<close>

lemma valid_field_fleet:
  assumes wf: "wf_field f" and v: "is_valid_field_reading b f"
  obtains ships where "legal_fleet ships" "\<And>p. occ f p \<longleftrightarrow> p \<in> fleet_cells ships"
    "distinct (concat (map ship_cells ships))"
proof -
  obtain tmp ships where scan: "scan_rows b [0..<10] f [] = Some (tmp, ships)"
    and counts: "ship_counts_ok ships" and free: "list_all (ship_surroundings_free f) ships"
    using v by (auto simp: is_valid_field_reading_def split: if_splits option.splits)
  have "scan_inv f tmp ships \<and> cleared tmp 10 0"
    using scan_rows_sound [OF cleared_start scan_inv_start [OF wf] _ scan] by simp
  then have legal: "\<forall>s \<in> set ships. legal_ship s"
    and dist: "distinct (concat (map ship_cells ships))"
    and cells: "\<And>p. occ f p \<longleftrightarrow> p \<in> fleet_cells ships"
    using cleared_all by (auto simp: scan_inv_def)
  have "\<not> ships_touch (ships ! a) (ships ! c)" if ac: "a < length ships" "c < length ships" "a \<noteq> c" for a c
  proof
    assume "ships_touch (ships ! a) (ships ! c)"
    then obtain p q where p: "p \<in> set (ship_cells (ships ! a))" and q: "q \<in> set (ship_cells (ships ! c))"
      and t: "p = q \<or> king_adjacent p q" by (auto simp: ships_touch_def)
    have "occ f q" unfolding cells fleet_cells_def using q ac(2) by (auto intro: nth_mem)
    moreover have "ship_surroundings_free f (ships ! a)" "legal_ship (ships ! a)"
      using free legal ac(1) by (auto simp: list_all_iff)
    ultimately have "q \<in> set (ship_cells (ships ! a))"
      using t p surroundings_free_iff [of "ships ! a" f] by blast
    then show False using distinct_concat_nth [OF dist ac] q by blast
  qed
  with legal counts have "legal_fleet ships"
    by (auto simp: legal_fleet_def ship_counts_ok_iff)
  from this cells dist show ?thesis by (rule that)
qed

section \<open>Completeness\<close>

definition apart :: "Ship set \<Rightarrow> bool" where
  "apart R \<longleftrightarrow> finite R \<and> (\<forall>s \<in> R. legal_ship s) \<and>
     (\<forall>s \<in> R. \<forall>t \<in> R. s \<noteq> t \<longrightarrow> \<not> ships_touch s t)"

definition covers :: "GameField \<Rightarrow> Ship set \<Rightarrow> bool" where
  "covers tmp R \<longleftrightarrow> wf_field tmp \<and> (\<forall>p. occ tmp p \<longleftrightarrow> (\<exists>s \<in> R. p \<in> set (ship_cells s)))"

lemma run_right_eq:
  assumes "wf_field f" "i < 10" "j \<le> e" "e \<le> 10"
    and "\<And>k. j \<le> k \<Longrightarrow> k < e \<Longrightarrow> occ f (Point (int k) (int i))"
    and "e < 10 \<Longrightarrow> \<not> occ f (Point (int e) (int i))"
  shows "run_right b f i j = e"
proof (rule linorder_cases)
  assume "run_right b f i j < e"
  with assms run_right_spec(3) [where f = f and i = i and j = j and e = b] run_right_ge [of j b f i] show ?thesis by auto
next
  assume "e < run_right b f i j"
  with assms run_right_spec(1,2) [where f = f and i = i and j = j and e = b] show ?thesis
    by (meson le_less_trans not_le order_trans)
qed

lemma run_down_eq:
  assumes "wf_field f" "j < 10" "i \<le> e" "e \<le> 10"
    and "\<And>k. i \<le> k \<Longrightarrow> k < e \<Longrightarrow> occ f (Point (int j) (int k))"
    and "e < 10 \<Longrightarrow> \<not> occ f (Point (int j) (int e))"
  shows "run_down b f i j = e"
proof (rule linorder_cases)
  assume "run_down b f i j < e"
  with assms run_down_spec(2,4) [where f = f and i = i and j = j and e = b] show ?thesis by auto
next
  assume "e < run_down b f i j"
  with assms run_down_spec(1,3) [where f = f and i = i and j = j and e = b] show ?thesis
    by (meson le_less_trans not_le order_trans)
qed

text \<open>A cell next to a ship belongs to no other ship, so it is occupied only by the ship.\<close>

lemma covers_adjacent:
  assumes "covers tmp R" "apart R" "s \<in> R" "p \<in> set (ship_cells s)" "king_adjacent p q" "occ tmp q"
  shows "q \<in> set (ship_cells s)"
proof -
  obtain t where t: "t \<in> R" "q \<in> set (ship_cells t)" using assms(1,6) by (auto simp: covers_def)
  then have "ships_touch s t" using assms(4,5) by (auto simp: ships_touch_def)
  then have "s = t" using assms(2,3) t(1) by (auto simp: apart_def)
  with t show ?thesis by simp
qed

lemma covers_head:
  assumes "covers tmp R" "apart R" "cleared tmp i j" "occ tmp (Point (int j) (int i))"
  obtains s where "s \<in> R" "sh_head s = Point (int j) (int i)"
proof -
  obtain s where s: "s \<in> R" "Point (int j) (int i) \<in> set (ship_cells s)"
    using assms(1,4) by (auto simp: covers_def)
  have "legal_ship s" using assms(2) s(1) by (simp add: apart_def)
  then have "occ tmp (sh_head s)" "scan_le (sh_head s) (Point (int j) (int i))"
    using assms(1) s head_in_cells head_first by (auto simp: covers_def)
  moreover from this(1) have "scan_le (Point (int j) (int i)) (sh_head s)"
    using assms(3) by (auto simp: cleared_def scan_le_def)
  ultimately have "sh_head s = Point (int j) (int i)" by (intro scan_le_antisym)
  with s(1) show ?thesis by (rule that)
qed

lemma find_ship_complete:
  assumes cov: "covers tmp R" and ap: "apart R" and ij: "i < 10" "j < 10"
    and s: "s \<in> R" "sh_head s = Point (int j) (int i)"
  shows "find_ship b tmp i j (run_right b tmp i j - 1) = Some s"
proof -
  have wf: "wf_field tmp" using cov by (simp add: covers_def)
  have occ_s: "occ tmp p" if "p \<in> set (ship_cells s)" for p using cov s(1) that by (auto simp: covers_def)
  have legal: "legal_ship s" using ap s(1) by (simp add: apart_def)
  note adj = covers_adjacent [OF cov ap s(1)]
  from legal show ?thesis
  proof (cases rule: legal_shipE)
    case (h x y n)
    define m where "m = nat n - 1"
    have xy: "x = int j" "y = int i" and m: "n = 1 + int m" "0 < m" "m < 5" "j + m < 10"
      using s(2) h by (auto simp: m_def)
    have cells: "set (ship_cells s) = {Point x' (int i) | x'. int j \<le> x' \<and> x' < int j + n}"
      using h xy by (auto simp: cells_hship)
    have "run_right b tmp i j = Suc (j + m)"
    proof (rule run_right_eq [OF wf ij(1)])
      show "occ tmp (Point (int k) (int i))" if "j \<le> k" "k < Suc (j + m)" for k
        by (rule occ_s) (use that m in \<open>auto simp: cells\<close>)
      have "king_adjacent (Point (int (j + m)) (int i)) (Point (int (Suc (j + m))) (int i))"
        by (auto simp: king_adjacent_def)
      then show "\<not> occ tmp (Point (int (Suc (j + m))) (int i))"
        using adj [of "Point (int (j + m)) (int i)" "Point (int (Suc (j + m))) (int i)"] m by (auto simp: cells)
    qed (use m in auto)
    then show ?thesis using find_ship_horizontal [of m b tmp i j] m h xy by (simp add: add.commute)
  next
    case (v x y n)
    define m where "m = nat n - 1"
    have xy: "x = int j" "y = int i" and m: "n = 1 + int m" "m < 5" "i + m < 10"
      using s(2) v by (auto simp: m_def)
    have cells: "set (ship_cells s) = {Point (int j) y' | y'. int i \<le> y' \<and> y' < int i + n}"
      using v xy by (auto simp: cells_vship)
    have "run_right b tmp i j = Suc j"
    proof (rule run_right_eq [OF wf ij(1)])
      show "occ tmp (Point (int k) (int i))" if "j \<le> k" "k < Suc j" for k
        by (rule occ_s) (use that m in \<open>auto simp: cells\<close>)
      have "king_adjacent (Point (int j) (int i)) (Point (int (Suc j)) (int i))"
        by (auto simp: king_adjacent_def)
      then show "\<not> occ tmp (Point (int (Suc j)) (int i))"
        using adj [of "Point (int j) (int i)" "Point (int (Suc j)) (int i)"] m by (auto simp: cells)
    qed (use ij in auto)
    moreover have "run_down b tmp i j = Suc (i + m)"
    proof (rule run_down_eq [OF wf ij(2)])
      show "occ tmp (Point (int j) (int k))" if "i \<le> k" "k < Suc (i + m)" for k
        by (rule occ_s) (use that m in \<open>auto simp: cells\<close>)
      have "king_adjacent (Point (int j) (int (i + m))) (Point (int j) (int (Suc (i + m))))"
        by (auto simp: king_adjacent_def)
      then show "\<not> occ tmp (Point (int j) (int (Suc (i + m))))"
        using adj [of "Point (int j) (int (i + m))" "Point (int j) (int (Suc (i + m)))"] m by (auto simp: cells)
    qed (use m in auto)
    ultimately show ?thesis using find_ship_vertical [of b tmp i j m] m v xy by (simp add: add.commute)
  qed
qed

lemma covers_remove:
  assumes "covers tmp R" "apart R" "s \<in> R"
  shows "covers (remove_ship s tmp) (R - {s})" "apart (R - {s})"
proof -
  have legal: "legal_ship s" using assms by (simp add: apart_def)
  have "p \<notin> set (ship_cells t)" if "p \<in> set (ship_cells s)" "t \<in> R" "t \<noteq> s" for p t
  proof -
    have "\<not> ships_touch s t" using that assms(2,3) by (simp add: apart_def)
    then show ?thesis using that(1) by (auto simp: ships_touch_def)
  qed
  then show "covers (remove_ship s tmp) (R - {s})"
    using assms(1,3) legal_ship_valid [OF legal]
    by (auto simp: covers_def occ_remove_ship wf_remove_ship)
  show "apart (R - {s})" using assms(2) by (auto simp: apart_def)
qed

definition scan_done :: "Ship set \<Rightarrow> Ship list \<Rightarrow> GameField \<times> Ship list \<Rightarrow> nat \<Rightarrow> bool" where
  "scan_done R arr res i \<longleftrightarrow> (case res of (tmp', arr') \<Rightarrow>
     \<exists>new R'. arr' = arr @ new \<and> covers tmp' R' \<and> apart R' \<and> R' \<subseteq> R \<and> set new = R - R' \<and>
       distinct new \<and> cleared tmp' i 0)"

lemma scan_done_cons:
  assumes "s \<in> R" "scan_done (R - {s}) (arr @ [s]) res i"
  shows "scan_done R arr res i"
proof -
  obtain tmp' new R' where res: "res = (tmp', (arr @ [s]) @ new)" "covers tmp' R'" "apart R'"
      "R' \<subseteq> R - {s}" "set new = R - {s} - R'" "distinct new" "cleared tmp' i 0"
    using assms(2) by (auto simp: scan_done_def split: prod.splits)
  then have "(arr @ [s]) @ new = arr @ (s # new)" "R' \<subseteq> R" "set (s # new) = R - R'"
    "distinct (s # new)" using assms(1) by auto
  with res show ?thesis by (auto simp: scan_done_def)
qed

lemma scan_row_complete:
  assumes "i < 10" "j \<le> 10" "cleared tmp i j" "covers tmp R" "apart R" "length arr + card R \<le> 7"
  shows "\<exists>res. scan_row b i j tmp arr = Some res \<and> scan_done R arr res (Suc i)"
  using assms
proof (induction b i j tmp arr arbitrary: R rule: scan_row.induct)
  case (1 b i j tmp arr)
  have wf: "wf_field tmp" using "1.prems"(4) by (simp add: covers_def)
  consider (at_end) "j = 10" | (empty) "j < 10" "\<not> occ tmp (Point (int j) (int i))"
    | (ship) "j < 10" "occ tmp (Point (int j) (int i))"
    using "1.prems"(2) by force
  then show ?case
  proof cases
    case at_end
    then have "scan_row b i j tmp arr = Some (tmp, arr)" by (subst scan_row.simps) simp
    moreover have "scan_done R arr (tmp, arr) (Suc i)"
      using "1.prems" at_end cleared_row by (auto simp: scan_done_def)
    ultimately show ?thesis by blast
  next
    case empty
    then have r: "read_cell b tmp i j = 0"
      using "1.prems"(1) wf by (simp add: read_cell_inside occ_cell)
    then have "scan_row b i j tmp arr = scan_row b i (Suc j) tmp arr"
      using empty by (subst scan_row.simps) simp
    with "1.IH"(1) [of R] "1.prems" empty r cleared_next show ?thesis by auto
  next
    case ship
    then have r: "read_cell b tmp i j \<noteq> 0"
      using "1.prems"(1) wf by (simp add: read_cell_inside occ_cell)
    let ?e = "run_right b tmp i j"
    have je: "j < ?e" using run_right_gt [OF r ship(1)] .
    have e10: "?e \<le> 10" using run_right_spec(1) wf "1.prems"(1,2) by blast
    obtain s where s: "s \<in> R" "sh_head s = Point (int j) (int i)"
      using covers_head [OF "1.prems"(4,5,3) ship(2)] .
    have found: "find_ship b tmp i j (?e - 1) = Some s"
      by (rule find_ship_complete [OF "1.prems"(4,5,1) ship(1) s])
    note sound = find_ship_sound [OF wf "1.prems"(1) ship found]
    have fin: "finite R" using "1.prems"(5) by (simp add: apart_def)
    then have "0 < card R" using s(1) by (auto simp: card_gt_0_iff)
    then have len: "length arr \<noteq> SHIP_COUNT" "length (arr @ [s]) + card (R - {s}) \<le> 7"
      using "1.prems"(6) s(1) fin by (auto simp: SHIP_COUNT_def)
    have "scan_row b i j tmp arr = scan_row b i (Suc (?e - 1)) (remove_ship s tmp) (arr @ [s])"
      using ship(1) r found len(1) by (subst scan_row.simps) (simp add: Let_def)
    moreover have "cleared (remove_ship s tmp) i (Suc (?e - 1))"
      using je sound(3) by (intro cleared_removed [OF "1.prems"(3) wf sound(1)]) auto
    ultimately have "\<exists>res. scan_row b i j tmp arr = Some res \<and> scan_done (R - {s}) (arr @ [s]) res (Suc i)"
      using "1.IH"(2) [OF ship(1) _ refl found len(1)] r "1.prems"(1) je e10
        covers_remove [OF "1.prems"(4,5) s(1)] len(2) by auto
    with scan_done_cons [OF s(1)] show ?thesis by blast
  qed
qed

lemma scan_rows_complete:
  assumes "cleared tmp i 0" "covers tmp R" "apart R" "length arr + card R \<le> 7" "i \<le> 10"
  shows "\<exists>res. scan_rows b [i..<10] tmp arr = Some res \<and> scan_done R arr res 10"
  using assms
proof (induction "10 - i" arbitrary: i tmp arr R)
  case 0
  then have "i = 10" by auto
  with 0 show ?case by (auto simp: scan_done_def)
next
  case (Suc k)
  then have upt: "[i..<10] = i # [Suc i..<10]" by (simp add: upt_conv_Cons)
  have "i < 10" using Suc.hyps(2) by auto
  then obtain tmp1 arr1 where row: "scan_row b i 0 tmp arr = Some (tmp1, arr1)"
    and sdone: "scan_done R arr (tmp1, arr1) (Suc i)"
    using scan_row_complete [of i 0 tmp R arr b] Suc.prems by force
  from sdone obtain new R' where new: "arr1 = arr @ new" "covers tmp1 R'" "apart R'" "R' \<subseteq> R"
      "set new = R - R'" "distinct new" "cleared tmp1 (Suc i) 0"
    by (auto simp: scan_done_def)
  have "finite R" using Suc.prems(3) by (simp add: apart_def)
  then have "length new + card R' = card R"
    using new(4-6) by (metis card_Diff_subset card_mono distinct_card finite_subset le_add_diff_inverse2)
  then have "length arr1 + card R' \<le> 7" using Suc.prems(4) new(1) by simp
  then have "\<exists>res. scan_rows b [Suc i..<10] tmp1 arr1 = Some res \<and> scan_done R' arr1 res 10"
    using Suc.hyps new \<open>i < 10\<close> by (intro Suc.hyps(1)) auto
  then obtain res where
    res: "scan_rows b [Suc i..<10] tmp1 arr1 = Some res" "scan_done R' arr1 res 10" by blast
  have "scan_done R arr res 10"
  proof -
    obtain tmp2 new2 R2 where 2: "res = (tmp2, arr1 @ new2)" "covers tmp2 R2" "apart R2" "R2 \<subseteq> R'"
        "set new2 = R' - R2" "distinct new2" "cleared tmp2 10 0"
      using res(2) by (auto simp: scan_done_def split: prod.splits)
    then have "res = (tmp2, arr @ (new @ new2))" "R2 \<subseteq> R" "set (new @ new2) = R - R2"
      "distinct (new @ new2)" using new by auto
    with 2 show ?thesis unfolding scan_done_def by blast
  qed
  with row res(1) show ?case by (simp add: upt)
qed

end
