(* ===== verification/FieldTheorems.thy ===== *)
theory FieldTheorems
  imports FieldShots FieldCheck
begin

text \<open>
  The properties of the playing field: what a shot does, when a ship is sunk, what the opponent
  sees, and that the validation of a starting field accepts exactly the legal ones, which gives
  the length of every game.
\<close>

section \<open>Shots at a ship\<close>

text \<open>Consecutive cells of a walk are neighbours.\<close>

lemma step_pt_adjacent: "king_adjacent (step_pt p d k) (step_pt p d (Suc k))"
  by (cases d) (auto simp: king_adjacent_def step_pt_def)

text \<open>From a cell of a ship every other cell of the ship is reached inside the ship.\<close>

lemma ship_line:
  assumes "legal_ship s" "p \<in> set (ship_cells s)" "c \<in> set (ship_cells s)"
  obtains d k where "c = step_pt p d k" "\<And>i. i \<le> k \<Longrightarrow> step_pt p d i \<in> set (ship_cells s)"
  using assms(1)
proof (cases rule: legal_shipE)
  case (h x y n)
  then have cells: "set (ship_cells s) = {Point x' y | x'. x \<le> x' \<and> x' < x + n}"
    by (simp add: cells_hship)
  then obtain a b where ab: "p = Point a y" "x \<le> a" "a < x + n" "c = Point b y" "x \<le> b" "b < x + n"
    using assms(2,3) by auto
  show ?thesis
  proof (cases "a \<le> b")
    case True
    with ab show ?thesis
      by (intro that [of Dir_right "nat (b - a)"]) (auto simp: step_pt_def cells)
  next
    case False
    with ab show ?thesis
      by (intro that [of Dir_left "nat (a - b)"]) (auto simp: step_pt_def cells)
  qed
next
  case (v x y n)
  then have cells: "set (ship_cells s) = {Point x y' | y'. y \<le> y' \<and> y' < y + n}"
    by (simp add: cells_vship)
  then obtain a b where ab: "p = Point x a" "y \<le> a" "a < y + n" "c = Point x b" "y \<le> b" "b < y + n"
    using assms(2,3) by auto
  show ?thesis
  proof (cases "a \<le> b")
    case True
    with ab show ?thesis
      by (intro that [of Dir_down "nat (b - a)"]) (auto simp: step_pt_def cells)
  next
    case False
    with ab show ?thesis
      by (intro that [of Dir_up "nat (a - b)"]) (auto simp: step_pt_def cells)
  qed
qed

text \<open>
  A ship that stands free on the field: its cells are unharmed or damaged, the cells around it
  are neither.
\<close>

definition ship_on_field :: "GameField \<Rightarrow> Ship \<Rightarrow> bool" where
  "ship_on_field f s \<longleftrightarrow> legal_ship s \<and>
     (\<forall>c \<in> set (ship_cells s). get_state f c = CELL_UNHARMED \<or> get_state f c = CELL_DAMAGED) \<and>
     (\<forall>c \<in> set (ship_cells s). \<forall>q. king_adjacent c q \<and> q \<notin> set (ship_cells s) \<longrightarrow>
        get_state f q \<noteq> CELL_UNHARMED \<and> get_state f q \<noteq> CELL_DAMAGED)"

text \<open>A walk over ship cells does not leave the ship.\<close>

lemma walk_stays:
  assumes "ship_on_field f s" "p \<in> set (ship_cells s)"
    and "\<And>i. i \<le> k \<Longrightarrow> get_state f (step_pt p d i) = CELL_UNHARMED
      \<or> get_state f (step_pt p d i) = CELL_DAMAGED"
  shows "step_pt p d k \<in> set (ship_cells s)"
  using assms(3)
proof (induction k)
  case 0
  then show ?case using assms(2) by simp
next
  case (Suc k)
  then have "step_pt p d k \<in> set (ship_cells s)" by simp
  with step_pt_adjacent [of p d k] Suc.prems [of "Suc k"] assms(1) show ?case
    unfolding ship_on_field_def by blast
qed

lemma ship_destroyed_all_damaged:
  assumes "ship_on_field f s" "p \<in> set (ship_cells s)"
  shows "ship_destroyed f p \<longleftrightarrow> (\<forall>c \<in> set (ship_cells s). get_state f c = CELL_DAMAGED)"
proof
  assume d: "\<forall>c \<in> set (ship_cells s). get_state f c = CELL_DAMAGED"
  have "get_state f (step_pt p dr k) \<noteq> CELL_UNHARMED" if "damaged_upto f dr p k" for dr k
  proof
    assume "get_state f (step_pt p dr k) = CELL_UNHARMED"
    with that have "step_pt p dr k \<in> set (ship_cells s)"
      by (intro walk_stays [OF assms]) (auto simp: damaged_upto_def le_less)
    with d \<open>get_state f (step_pt p dr k) = CELL_UNHARMED\<close> show False by simp
  qed
  with d assms(2) show "ship_destroyed f p" by (auto simp: ship_destroyed_iff)
next
  assume des: "ship_destroyed f p"
  show "\<forall>c \<in> set (ship_cells s). get_state f c = CELL_DAMAGED"
  proof
    fix c
    assume "c \<in> set (ship_cells s)"
    then obtain d k where c: "c = step_pt p d k"
      and line: "\<And>i. i \<le> k \<Longrightarrow> step_pt p d i \<in> set (ship_cells s)"
      using ship_line assms by (metis ship_on_field_def)
    have "get_state f (step_pt p d i) = CELL_DAMAGED" if "i \<le> k" for i
      using that
    proof (induction i rule: less_induct)
      case (less i)
      then have "damaged_upto f d p i" by (auto simp: damaged_upto_def)
      with des have "get_state f (step_pt p d i) \<noteq> CELL_UNHARMED" by (auto simp: ship_destroyed_iff)
      with line [OF less.prems] assms(1) show ?case by (auto simp: ship_on_field_def)
    qed
    with c show "get_state f c = CELL_DAMAGED" by simp
  qed
qed

lemma damaged_cross_ship:
  assumes "ship_on_field f s" "p \<in> set (ship_cells s)"
    and "\<forall>c \<in> set (ship_cells s). get_state f c = CELL_DAMAGED"
  shows "damaged_cross f p = set (ship_cells s)"
proof (intro subset_antisym subsetI)
  fix q
  assume "q \<in> damaged_cross f p"
  then obtain d k where "q = step_pt p d k" "damaged_upto f d p (Suc k)"
    by (auto simp: damaged_cross_def damaged_run_def)
  then show "q \<in> set (ship_cells s)"
    using walk_stays [OF assms(1,2), of k d] by (auto simp: damaged_upto_def)
next
  fix q
  assume "q \<in> set (ship_cells s)"
  then obtain d k where q: "q = step_pt p d k" "\<And>i. i \<le> k \<Longrightarrow> step_pt p d i \<in> set (ship_cells s)"
    using ship_line assms(1,2) by (metis ship_on_field_def)
  with assms(3) have "damaged_upto f d p (Suc k)" by (auto simp: damaged_upto_def)
  with q(1) show "q \<in> damaged_cross f p" by (auto simp: damaged_cross_def damaged_run_def)
qed

section \<open>Counting the cells of the fleet\<close>

definition unharmed :: "GameField \<Rightarrow> Point set" where
  "unharmed f = {p. get_state f p = CELL_UNHARMED}"

lemma finite_field: "finite {p. field_contains p}"
proof -
  have "{p. field_contains p} \<subseteq> (\<lambda>(i, j). Point i j) ` ({0..<10} \<times> {0..<10})"
  proof
    fix p assume "p \<in> {p. field_contains p}"
    then show "p \<in> (\<lambda>(i, j). Point i j) ` ({0..<10} \<times> {0..<10})"
      by (intro image_eqI [of _ _ "(px p, py p)"]) (auto simp: field_contains_iff)
  qed
  then show ?thesis by (rule finite_subset) simp
qed

lemma finite_unharmed: "finite (unharmed f)"
  by (rule finite_subset [OF _ finite_field]) (unfold unharmed_def, blast dest: get_state_contains)

text \<open>How the states of the cells change with one shot.\<close>

lemma shot_state:
  assumes "wf_field f"
  shows "get_state (snd (register_shot f p)) q = get_state f q
    \<or> q = p \<and> field_contains p \<and> get_state f q = CELL_EMPTY \<and> fst (register_shot f p) = CELL_MISSED
        \<and> get_state (snd (register_shot f p)) q = CELL_MISSED
    \<or> q = p \<and> get_state f q = CELL_UNHARMED \<and> fst (register_shot f p) = CELL_DAMAGED
        \<and> get_state (snd (register_shot f p)) q = CELL_DAMAGED
    \<or> q \<noteq> p \<and> get_state f q = CELL_EMPTY \<and> fst (register_shot f p) = CELL_DAMAGED
        \<and> get_state (snd (register_shot f p)) q = CELL_MISSED"
proof (cases rule: register_shot_cases [of f p])
  case sunk
  let ?f1 = "set_point f p CELL_DAMAGED"
  have "get_state ?f1 p = CELL_DAMAGED" using sunk assms by (simp add: get_set_point)
  then have "get_state (mark_destroyed_ship_boundary ?f1 p) q = marked ?f1 (damaged_cross ?f1 p) q"
    using assms by (simp add: get_state_mark_boundary)
  with sunk assms show ?thesis by (auto simp: marked_def get_set_point)
qed (use assms in \<open>auto simp: get_set_point\<close>)

lemma unharmed_shot:
  assumes "wf_field f"
  shows "unharmed (snd (register_shot f p))
    = (if fst (register_shot f p) = CELL_DAMAGED then unharmed f - {p} else unharmed f)"
proof (cases rule: register_shot_cases [of f p])
  case sunk
  let ?f1 = "set_point f p CELL_DAMAGED"
  have "get_state ?f1 p = CELL_DAMAGED" using sunk assms by (simp add: get_set_point)
  then have "get_state (mark_destroyed_ship_boundary ?f1 p) = marked ?f1 (damaged_cross ?f1 p)"
    using assms by (simp add: get_state_mark_boundary)
  with sunk assms show ?thesis by (auto simp: unharmed_def marked_def get_set_point split: if_splits)
qed (use assms in \<open>auto simp: unharmed_def get_set_point split: if_splits\<close>)

lemma shot_result_iff:
  "fst (register_shot f p) = CELL_DAMAGED \<longleftrightarrow> p \<in> unharmed f"
  by (cases rule: register_shot_cases [of f p]) (auto simp: unharmed_def)

text \<open>A sequence of shots and the number of hits among them.\<close>

fun play_shots :: "GameField \<Rightarrow> Point list \<Rightarrow> GameField" where
  "play_shots f [] = f"
| "play_shots f (p # ps) = play_shots (snd (register_shot f p)) ps"

fun hits :: "GameField \<Rightarrow> Point list \<Rightarrow> nat" where
  "hits f [] = 0"
| "hits f (p # ps) =
     (if fst (register_shot f p) = CELL_DAMAGED then 1 else 0) + hits (snd (register_shot f p)) ps"

lemma hits_unharmed:
  assumes "wf_field f"
  shows "wf_field (play_shots f ps) \<and> hits f ps + card (unharmed (play_shots f ps)) = card (unharmed f)"
  using assms
proof (induction ps arbitrary: f)
  case Nil
  then show ?case by simp
next
  case (Cons p ps)
  let ?g = "snd (register_shot f p)"
  have "wf_field ?g" using Cons.prems by (rule wf_register_shot)
  moreover have "card (unharmed ?g) + (if fst (register_shot f p) = CELL_DAMAGED then 1 else 0)
      = card (unharmed f)"
    using Cons.prems finite_unharmed [of f] shot_result_iff [of f p]
    by (auto simp: unharmed_shot card_Suc_Diff1 dest: card_Suc_Diff1)
  ultimately show ?case using Cons.IH [of ?g] by auto
qed

section \<open>Legal fields\<close>

lemma legal_fleet_distinct:
  assumes "legal_fleet ships"
  shows "distinct ships" "apart (set ships)"
proof -
  have self: "ships_touch s s" if "legal_ship s" for s
    using head_in_cells [OF that] by (auto simp: ships_touch_def)
  show "distinct ships"
    unfolding distinct_conv_nth
  proof (intro allI impI)
    fix a b
    assume "a < length ships" "b < length ships" "a \<noteq> b"
    with assms self show "ships ! a \<noteq> ships ! b" by (metis legal_fleet_def nth_mem)
  qed
  show "apart (set ships)"
    unfolding apart_def
  proof (intro conjI ballI impI)
    fix s t
    assume "s \<in> set ships" "t \<in> set ships" "s \<noteq> t"
    then obtain a b where "a < length ships" "b < length ships" "a \<noteq> b" "s = ships ! a" "t = ships ! b"
      by (metis in_set_conv_nth)
    with assms show "\<not> ships_touch s t" by (simp add: legal_fleet_def)
  qed (use assms in \<open>auto simp: legal_fleet_def\<close>)
qed

lemma fleet_counts_set:
  assumes "distinct xs" "distinct ys" "set xs = set ys" "fleet_counts xs"
  shows "fleet_counts ys"
proof -
  have "length (filter P xs) = length (filter P ys)" for P
    using assms(1-3) distinct_card [of "filter P xs"] distinct_card [of "filter P ys"] by auto
  with assms(4) show ?thesis by (simp add: fleet_counts_def)
qed

text \<open>A field covered by a legal fleet passes the scan, the counts and the surroundings.\<close>

lemma legal_field_valid:
  assumes wf: "wf_field f" and fleet: "legal_fleet ships"
    and cells: "\<forall>p. occ f p \<longleftrightarrow> p \<in> fleet_cells ships" and vals: "is_cell_values_valid f"
  shows "is_valid_field_reading b f"
proof -
  note d = legal_fleet_distinct [OF fleet]
  have counts: "fleet_counts ships" using fleet by (simp add: legal_fleet_def)
  have cov: "covers f (set ships)" using wf cells by (simp add: covers_def fleet_cells_def)
  have "length ([] :: Ship list) + card (set ships) \<le> 7"
    using fleet_counts_length [OF counts] distinct_card [OF d(1)] by simp
  from scan_rows_complete [OF cleared_start cov d(2) this, of b] obtain res where
    scan: "scan_rows b [0..<10] f [] = Some res" "scan_done (set ships) [] res 10" by auto
  then obtain tmp arr R' where arr: "res = (tmp, arr)" "covers tmp R'" "apart R'"
      "set arr = set ships - R'" "distinct arr" "cleared tmp 10 0"
    by (auto simp: scan_done_def split: prod.splits)
  have "R' = {}"
  proof (rule ccontr)
    assume "R' \<noteq> {}"
    then obtain s where "s \<in> R'" by blast
    then have "sh_head s \<in> set (ship_cells s)" using arr(3) by (simp add: apart_def head_in_cells)
    then have "occ tmp (sh_head s)" using arr(2) \<open>s \<in> R'\<close> by (auto simp: covers_def)
    then show False using cleared_all [OF arr(6)] by blast
  qed
  then have set: "set arr = set ships" using arr(4) by simp
  have arr_counts: "fleet_counts arr" by (rule fleet_counts_set [OF d(1) arr(5) set [symmetric] counts])
  have "ship_surroundings_free f s" if "s \<in> set arr" for s
  proof -
    have s: "s \<in> set ships" "legal_ship s" using that set d(2) by (auto simp: apart_def)
    then show ?thesis using surroundings_free_iff covers_adjacent [OF cov d(2)] by blast
  qed
  then show ?thesis
    using scan(1) arr(1) vals fleet_counts_length [OF arr_counts] arr_counts
    by (simp add: is_valid_field_reading_def list_all_iff ship_counts_ok_iff SHIP_COUNT_def)
qed

text \<open>The value behind the array is never looked at.\<close>

lemma run_right_past_end:
  assumes "wf_field f" "i < 10" "j \<le> 10"
  shows "run_right b f i j = run_right c f i j"
  using run_right_spec [OF assms, where e = b] run_right_ge [of j b f i]
  by (intro run_right_eq [OF assms(1,2), symmetric]) auto

lemma run_down_past_end:
  assumes "wf_field f" "j < 10" "i \<le> 10"
  shows "run_down b f i j = run_down c f i j"
  using run_down_spec [OF assms, where e = b]
  by (intro run_down_eq [OF assms(1,2), symmetric]) auto

lemma scan_row_past_end:
  assumes "wf_field tmp" "i < 10" "j \<le> 10"
  shows "scan_row b i j tmp arr = scan_row c i j tmp arr"
  using assms
proof (induction b i j tmp arr rule: scan_row.induct)
  case (1 b i j tmp arr)
  note read = read_cell_inside [OF "1.prems"(1,2)]
  show ?case
  proof (cases "j < 10")
    case False
    then show ?thesis by (simp add: scan_row.simps [of _ i j])
  next
    case True
    show ?thesis
    proof (cases "cell tmp i j = 0")
      case empty: True
      then have "scan_row b i (Suc j) tmp arr = scan_row c i (Suc j) tmp arr"
        using "1.IH"(1) "1.prems" True read [OF True] by auto
      then show ?thesis
        using True empty read [OF True] by (simp add: scan_row.simps [of _ i j])
    next
      case full: False
      let ?e = "run_right b tmp i j"
      have e: "?e = run_right c tmp i j" using run_right_past_end "1.prems" by blast
      have e10: "?e \<le> 10" "j < ?e"
        using run_right_spec(1) "1.prems" run_right_gt [of b tmp i j] full read True by auto
      have "run_down b tmp i (?e - 1) = run_down c tmp i (?e - 1)"
        using "1.prems" e10 by (intro run_down_past_end) auto
      then have find: "find_ship b tmp i j (?e - 1) = find_ship c tmp i j (?e - 1)"
        by (simp only: find_ship_def)
      have "scan_row b i (Suc (?e - 1)) (remove_ship s tmp) (arr @ [s])
          = scan_row c i (Suc (?e - 1)) (remove_ship s tmp) (arr @ [s])"
        if "find_ship b tmp i j (?e - 1) = Some s" "length arr \<noteq> SHIP_COUNT" for s
        using "1.IH"(2) [OF True _ refl that] "1.prems" full read [OF True] e10
        by (auto simp: wf_remove_ship)
      then show ?thesis
        using True full read [OF True] find
        by (simp add: scan_row.simps [of _ i j] Let_def e [symmetric] split: option.splits)
    qed
  qed
qed

lemma wf_scan_row:
  assumes "wf_field tmp" "scan_row b i j tmp arr = Some (tmp', arr')"
  shows "wf_field tmp'"
  using assms
proof (induction b i j tmp arr rule: scan_row.induct)
  case (1 b i j tmp arr)
  note step = "1.prems"(2) [unfolded scan_row.simps [of b i j tmp arr]]
  show ?case
    using step "1.prems"(1) "1.IH" wf_remove_ship
    by (auto simp: Let_def split: if_splits option.splits)
qed

lemma scan_rows_past_end:
  "wf_field tmp \<Longrightarrow> \<forall>i \<in> set is. i < 10 \<Longrightarrow> scan_rows b is tmp arr = scan_rows c is tmp arr"
proof (induction "is" arbitrary: tmp arr)
  case Nil
  then show ?case by simp
next
  case (Cons i "is")
  have "scan_row b i 0 tmp arr = scan_row c i 0 tmp arr"
    using Cons.prems by (intro scan_row_past_end) auto
  moreover have "scan_rows b is t a = scan_rows c is t a"
    if "scan_row c i 0 tmp arr = Some (t, a)" for t a
    using Cons.IH [of t a] wf_scan_row [OF Cons.prems(1) that] Cons.prems(2) by auto
  ultimately show ?case by (auto split: option.splits)
qed

lemma legal_values:
  assumes "\<forall>i<10. \<forall>j<10. cell f i j = 0 \<or> cell f i j = 1"
  shows "is_cell_values_valid f"
proof -
  have "\<not> (sint c < 0 \<or> sint c > 3)" if "c = 0 \<or> c = 1" for c :: byte
    using that by auto
  with assms show ?thesis by (simp add: is_cell_values_valid_def all_upto_iff)
qed

lemma start_field_legal:
  assumes "wf_field f"
  shows "is_valid_start_field f \<longleftrightarrow> legal_start_field f"
proof
  assume v: "is_valid_start_field f"
  then have "is_valid_field_reading 0 f" by (simp add: is_valid_start_field_def is_valid_field_def split: if_splits)
  with valid_field_fleet [OF assms] v show "legal_start_field f"
    by (auto simp: legal_start_field_def is_valid_start_field_def all_upto_iff split: if_splits) metis
next
  assume l: "legal_start_field f"
  then obtain ships where fleet: "legal_fleet ships" "\<forall>p. occ f p \<longleftrightarrow> p \<in> fleet_cells ships"
    by (auto simp: legal_start_field_def)
  have vals: "\<forall>i<10. \<forall>j<10. cell f i j = 0 \<or> cell f i j = 1"
    using l by (simp add: legal_start_field_def)
  have "is_valid_field f"
    unfolding is_valid_field_def by (rule legal_field_valid [OF assms fleet legal_values [OF vals]])
  moreover have "\<not> field_is_empty f"
  proof
    assume e: "field_is_empty f"
    have no: "\<not> occ f p" for p
      using e by (auto simp: field_is_empty_def all_upto_iff occ_def)
    have "length ships = 7" using fleet(1) fleet_counts_length by (simp add: legal_fleet_def)
    then obtain s where s: "s \<in> set ships" by (cases ships) auto
    then have "sh_head s \<in> fleet_cells ships"
      using fleet(1) head_in_cells by (auto simp: fleet_cells_def legal_fleet_def)
    then show False using fleet(2) no by blast
  qed
  ultimately show "is_valid_start_field f"
    using vals by (auto simp: is_valid_start_field_def all_upto_iff)
qed

lemma length_ship_cells: "length (ship_cells s) = nat (ship_length (sh_type s))"
  by (simp add: ship_cells_def ship_get_length_def)

lemma fleet_size:
  assumes "fleet_counts ships"
  shows "length (concat (map ship_cells ships)) = 18"
proof -
  have "length (concat (map ship_cells ships)) =
      (\<Sum>t \<in> {SUBMARINE_SHIP, DESTROYER_SHIP, CRUISER_SHIP, BATTLESHIP_SHIP,
        AIRCRAFT_CARRIER_SHIP, INVALID_SHIP}.
        nat (ship_length t) * length (filter (\<lambda>s. sh_type s = t) ships))" for ships
  proof (induction ships)
    case (Cons s ships)
    then show ?case by (cases "sh_type s") (simp_all add: length_ship_cells)
  qed simp
  then show ?thesis by (simp add: fleet_counts_nat [OF assms])
qed

lemma unharmed_start:
  assumes "wf_field f" "is_valid_start_field f"
  shows "card (unharmed f) = 18"
proof -
  have v: "is_valid_field_reading 0 f"
    using assms(2) by (simp add: is_valid_start_field_def is_valid_field_def split: if_splits)
  obtain ships where fleet: "legal_fleet ships" "\<And>p. occ f p \<longleftrightarrow> p \<in> fleet_cells ships"
    "distinct (concat (map ship_cells ships))" using valid_field_fleet [OF assms(1) v] by blast
  have vals: "\<forall>i<10. \<forall>j<10. cell f i j = 0 \<or> cell f i j = 1"
    using assms start_field_legal by (simp add: legal_start_field_def)
  have "get_state f p = CELL_UNHARMED \<longleftrightarrow> occ f p" for p
  proof (cases "field_contains p")
    case True
    then have "cell f (nat (py p)) (nat (px p)) = 0 \<or> cell f (nat (py p)) (nat (px p)) = 1"
      using vals contains_nat [OF True] by blast
    with True show ?thesis by (auto simp: get_state_def occ_def)
  qed (simp add: occ_def)
  then have "unharmed f = {p. occ f p}" by (simp add: unharmed_def)
  also have "\<dots> = set (concat (map ship_cells ships))" using fleet(2) by (auto simp: fleet_cells_concat)
  finally show ?thesis
    using distinct_card [OF fleet(3)] fleet_size [of ships] fleet(1) by (simp add: legal_fleet_def)
qed

section \<open>A sample field\<close>

text \<open>The field of the repository's test file \<^verbatim>\<open>tests/core/fields/valid_1\<close>.\<close>

definition sample_field :: GameField where
  "sample_field = \<lparr>gf_cells =
    [1,1,1,1,1,0,1,1,1,1,
     0,0,0,0,0,0,0,0,0,0,
     0,0,1,0,0,0,0,0,0,0,
     0,0,1,0,0,0,0,0,0,0,
     0,0,1,0,0,0,0,0,0,0,
     0,0,0,0,0,0,0,0,0,0,
     0,0,1,0,0,0,1,1,0,1,
     0,0,1,0,0,0,0,0,0,0,
     0,0,0,0,0,0,0,0,0,0,
     0,0,1,0,0,0,0,0,0,0]\<rparr>"

lemma wf_sample [simp]: "wf_field sample_field"
  by (simp add: wf_field_def sample_field_def)

lemma sample_valid: "is_valid_start_field sample_field"
  by code_simp

section \<open>Properties of the validation\<close>

text \<open>
  C5. The validation of a starting field accepts exactly the legal fields: seven straight ships
  inside the field, two submarines, two destroyers, a cruiser, a battleship and an aircraft
  carrier, no two of them touching, and no other cell that is not empty.
\<close>

theorem start_field_iff_legal:
  assumes "wf_field f"
  shows "is_valid_start_field f \<longleftrightarrow> legal_start_field f"
  using assms by (rule start_field_legal)

theorem start_field_iff_legal_witness:
  "wf_field sample_field \<and> legal_start_field sample_field"
  using start_field_iff_legal [OF wf_sample] sample_valid by simp

text \<open>
  C32. The validation reads one cell past a row, and past the array in the last row; whatever is
  found behind the array, the verdict is the same.
\<close>

theorem validation_ignores_past_end:
  assumes "wf_field f"
  shows "is_valid_field_reading b f = is_valid_field f"
  using scan_rows_past_end [OF assms, of "[0..<10]" b "[]" 0]
  by (simp add: is_valid_field_reading_def is_valid_field_def)

theorem validation_ignores_past_end_witness:
  "wf_field sample_field \<and> is_valid_field_reading 255 sample_field"
  using validation_ignores_past_end [OF wf_sample, of 255] sample_valid
  by (simp add: is_valid_start_field_def split: if_splits)

text \<open>
  C25. On a field that passed the validation a game is over after exactly 18 hits, in whatever
  order the shots fall and however many of them miss or are repeated.
\<close>

theorem game_over_iff_18_hits:
  assumes "wf_field f" "is_valid_start_field f"
  shows "all_ships_destroyed (play_shots f shots) \<longleftrightarrow> hits f shots = 18"
proof -
  let ?g = "play_shots f shots"
  have "hits f shots + card (unharmed ?g) = 18"
    using hits_unharmed [OF assms(1)] unharmed_start [OF assms] by simp
  moreover have "all_ships_destroyed ?g \<longleftrightarrow> card (unharmed ?g) = 0"
    using finite_unharmed [of ?g] by (auto simp: all_ships_destroyed_iff unharmed_def)
  ultimately show ?thesis by auto
qed

theorem game_over_iff_18_hits_witness:
  "is_valid_start_field sample_field \<and> hits sample_field [Point 9 6] = 1
    \<and> \<not> all_ships_destroyed (play_shots sample_field [Point 9 6])"
proof -
  have "hits sample_field [Point 9 6] = 1" by code_simp
  then show ?thesis
    using game_over_iff_18_hits [OF wf_sample sample_valid, of "[Point 9 6]"] sample_valid by simp
qed

section \<open>Properties of shots\<close>

text \<open>
  C23. The result of a shot and its frame. Outside the field and on a cell already shot at,
  nothing changes and the result is \<open>CELL_EMPTY\<close>; on an empty cell only that cell becomes
  missed; on an unharmed cell the result is \<open>CELL_DAMAGED\<close>, that cell becomes damaged, and the
  only other changes are of empty cells to missed ones.
\<close>

theorem register_shot_effect:
  assumes "wf_field f" "register_shot f p = (r, g)"
  shows "wf_field g
    \<and> r = (case get_state f p of CELL_UNHARMED \<Rightarrow> CELL_DAMAGED
            | CELL_EMPTY \<Rightarrow> (if field_contains p then CELL_MISSED else CELL_EMPTY)
            | _ \<Rightarrow> CELL_EMPTY)
    \<and> (r = CELL_EMPTY \<longrightarrow> g = f)
    \<and> (r = CELL_MISSED \<longrightarrow> g = set_point f p CELL_MISSED)
    \<and> (r = CELL_DAMAGED \<longrightarrow> get_state g p = CELL_DAMAGED \<and>
        (\<forall>q. q \<noteq> p \<longrightarrow> get_state g q = get_state f q
           \<or> get_state f q = CELL_EMPTY \<and> get_state g q = CELL_MISSED))"
proof -
  have w: "wf_field g" using wf_register_shot [OF assms(1), of p] assms(2) by simp
  have p: "r = CELL_DAMAGED \<Longrightarrow> get_state g p = CELL_DAMAGED"
  proof -
    assume r: "r = CELL_DAMAGED"
    then have "unharmed g = unharmed f - {p}" "p \<in> unharmed f"
      using unharmed_shot [OF assms(1), of p] shot_result_iff [of f p] assms(2) by auto
    then have "get_state g p \<noteq> CELL_UNHARMED" "get_state f p = CELL_UNHARMED"
      by (auto simp: unharmed_def)
    then show ?thesis using shot_state [OF assms(1), of p p] assms(2) by auto
  qed
  have q: "r = CELL_DAMAGED \<Longrightarrow> q \<noteq> p \<Longrightarrow> get_state g q = get_state f q
      \<or> get_state f q = CELL_EMPTY \<and> get_state g q = CELL_MISSED" for q
    using shot_state [OF assms(1), of p q] assms(2) by auto
  show ?thesis
    using w p q assms(2)
    by (cases rule: register_shot_cases [of f p]) (auto split: CellState.splits)
qed

theorem register_shot_effect_witness:
  "wf_field (snd (register_shot sample_field (Point 3 3)))
    \<and> fst (register_shot sample_field (Point 3 3)) = CELL_MISSED"
proof -
  have "get_state sample_field (Point 3 3) = CELL_EMPTY" by code_simp
  with register_shot_effect [OF wf_sample prod.collapse [symmetric], of "Point 3 3"]
  show ?thesis by (simp add: field_contains_iff)
qed

text \<open>
  C24. Hitting a ship that stands free on the field. While another cell of the ship is unharmed,
  only the cell that is hit changes. The shot that hits the last one marks exactly the empty
  cells around the ship as missed and leaves every other cell alone.
\<close>

theorem hit_free_ship:
  assumes "wf_field f" "ship_on_field f s" "p \<in> set (ship_cells s)" "get_state f p = CELL_UNHARMED"
  shows "get_state (snd (register_shot f p)) q =
    (if q = p then CELL_DAMAGED
     else if (\<forall>c \<in> set (ship_cells s). c \<noteq> p \<longrightarrow> get_state f c = CELL_DAMAGED)
       \<and> field_contains q \<and> get_state f q = CELL_EMPTY \<and> (\<exists>c \<in> set (ship_cells s). king_adjacent c q)
     then CELL_MISSED
     else get_state f q)"
proof -
  let ?f1 = "set_point f p CELL_DAMAGED"
  have fp: "field_contains p" using assms(4) by (rule get_state_contains)
  have st: "get_state ?f1 x = (if x = p then CELL_DAMAGED else get_state f x)" for x
    using assms(1) fp by (simp add: get_set_point)
  have on: "ship_on_field ?f1 s"
    using assms(2,3) by (auto simp: ship_on_field_def st)
  have des: "ship_destroyed ?f1 p
      \<longleftrightarrow> (\<forall>c \<in> set (ship_cells s). c \<noteq> p \<longrightarrow> get_state f c = CELL_DAMAGED)" (is "_ \<longleftrightarrow> ?all")
    unfolding ship_destroyed_all_damaged [OF on assms(3)] by (auto simp: st)
  show ?thesis
  proof (cases ?all)
    case True
    then have "\<forall>c \<in> set (ship_cells s). get_state ?f1 c = CELL_DAMAGED" by (auto simp: st)
    note cross = damaged_cross_ship [OF on assms(3) this]
    have "get_state (mark_destroyed_ship_boundary ?f1 p) = marked ?f1 (damaged_cross ?f1 p)"
      using assms(1) fp by (intro get_state_mark_boundary) (simp_all add: get_set_same)
    moreover have "snd (register_shot f p) = mark_destroyed_ship_boundary ?f1 p"
      using True des by (simp add: register_shot_hit [OF assms(4)] Let_def)
    ultimately show ?thesis using True by (auto simp: cross marked_def st)
  next
    case False
    then have "\<not> ship_destroyed ?f1 p" using des by blast
    then have "snd (register_shot f p) = ?f1"
      by (simp add: register_shot_hit [OF assms(4)] Let_def)
    with False show ?thesis by (auto simp: st)
  qed
qed

lemma sample_submarine: "ship_on_field sample_field (vship 9 6 1)"
proof -
  have cells: "set (ship_cells (vship 9 6 1)) = {Point 9 6}"
    by (auto simp: cells_vship)
  have "get_state sample_field (Point 9 6) = CELL_UNHARMED" by code_simp
  moreover have "\<forall>a \<in> set around. get_state sample_field (Point 9 6 + a) = CELL_EMPTY" by code_simp
  ultimately show ?thesis
    unfolding ship_on_field_def cells
    by (auto simp: legal_ship_vship around_king [symmetric])
qed

theorem hit_free_ship_witness:
  "ship_on_field sample_field (vship 9 6 1)
    \<and> get_state (snd (register_shot sample_field (Point 9 6))) (Point 8 5) = CELL_MISSED"
proof -
  have p: "Point 9 6 \<in> set (ship_cells (vship 9 6 1))" by (simp add: cells_vship)
  have u: "get_state sample_field (Point 9 6) = CELL_UNHARMED"
    "get_state sample_field (Point 8 5) = CELL_EMPTY" by code_simp+
  have "\<exists>c \<in> set (ship_cells (vship 9 6 1)). king_adjacent c (Point 8 5)"
    using p by (intro bexI [of _ "Point 9 6"]) (auto simp: king_adjacent_def)
  moreover have "\<forall>c \<in> set (ship_cells (vship 9 6 1)). c \<noteq> Point 9 6 \<longrightarrow> get_state sample_field c = CELL_DAMAGED"
    by (auto simp: cells_vship)
  ultimately show ?thesis
    using hit_free_ship [OF wf_sample sample_submarine p u(1), of "Point 8 5"] u(2) sample_submarine
    by (simp add: field_contains_iff)
qed

text \<open>
  After its last iteration the loop that marks the boundary of a sunk ship reads one element
  past the end of \<open>dirs\<close>; the resulting field does not depend on the value read.
\<close>

lemma boundary_ignores_past_end:
  "mark_boundary_reading past_end f p = mark_destroyed_ship_boundary f p"
  by (simp add: mark_boundary_reading_def mark_destroyed_ship_boundary_def mark_loop_past_end)

text \<open>
  C27. The view for the opponent hides the unharmed cells and nothing else: it shows no unharmed
  cell, agrees with the field on every other cell, and two fields that differ only in which of
  the cells not yet shot at hold a ship have the same view.
\<close>

theorem enemy_view_hides_ships:
  assumes "wf_field f" "wf_field g"
    and "\<forall>i<10. \<forall>j<10. cell f i j = cell g i j \<or> cell f i j \<in> {0, 1} \<and> cell g i j \<in> {0, 1}"
  shows "get_for_enemy f = get_for_enemy g \<and>
    (\<forall>p. get_state (get_for_enemy f) p
      = (if get_state f p = CELL_UNHARMED then CELL_EMPTY else get_state f p))"
proof -
  have "get_for_enemy f = get_for_enemy g"
  proof (rule field_eqI)
    fix i j :: nat
    assume "i < 10" "j < 10"
    with assms(3) have "cell f i j = cell g i j \<or> cell f i j \<in> {0, 1} \<and> cell g i j \<in> {0, 1}"
      by blast
    with assms(1,2) \<open>i < 10\<close> \<open>j < 10\<close> show "cell (get_for_enemy f) i j = cell (get_for_enemy g) i j"
      by (auto simp: cell_get_for_enemy)
  qed (use assms in \<open>simp_all add: wf_get_for_enemy\<close>)
  then show ?thesis using get_state_for_enemy [OF assms(1)] by simp
qed

theorem enemy_view_hides_ships_witness:
  "get_for_enemy sample_field = get_for_enemy GameField_default"
proof (rule enemy_view_hides_ships [OF wf_sample wf_default, THEN conjunct1])
  show "\<forall>i<10. \<forall>j<10. cell sample_field i j = cell GameField_default i j
    \<or> cell sample_field i j \<in> {0, 1} \<and> cell GameField_default i j \<in> {0, 1}"
  proof -
    have "all_upto 10 (\<lambda>i. all_upto 10 (\<lambda>j. cell sample_field i j = cell GameField_default i j
      \<or> cell sample_field i j \<in> {0, 1} \<and> cell GameField_default i j \<in> {0, 1}))"
      by code_simp
    then show ?thesis by (simp add: all_upto_iff)
  qed
qed

end
