(* ===== verification/FifoList.thy ===== *)
theory FifoList
  imports Prelude
begin

text \<open>
  The template \<open>List<T>\<close> of \<^verbatim>\<open>src/core/list.h\<close>: a singly linked list of pointers with a first and
  a last node and a size. The nodes live in a heap that maps addresses to nodes; \<^verbatim>\<open>new\<close> takes the
  next address, \<^verbatim>\<open>delete\<close> removes the node, and following a null or a dangling pointer is a fault.
  A pointer argument of type \<^verbatim>\<open>T*\<close> is an option, \<open>None\<close> being the null pointer. The operations that
  delete items take the set of the items that are alive and return what is left of it. Loops along the
  nodes run on fuel, one unit per node; the lemmas show that the number of allocated nodes is
  enough. The section on the interface gives the laws of a queue as a locale, which the linked
  list interprets.
\<close>

section \<open>Data\<close>

record 'a ListItem =
  li_item :: 'a
  li_next :: "nat option"

record 'a fifo =
  fl_nodes :: "nat \<Rightarrow> 'a ListItem option"
  fl_first :: "nat option"
  fl_last :: "nat option"
  fl_size :: int
  fl_brk :: nat

definition list_new :: "'a fifo" where
  "list_new = \<lparr>fl_nodes = (\<lambda>_. None), fl_first = None, fl_last = None, fl_size = 0, fl_brk = 0\<rparr>"

definition list_deref :: "'a fifo \<Rightarrow> nat option \<Rightarrow> 'a ListItem res" where
  "list_deref l p =
     (case p of None \<Rightarrow> Inl NullDeref
      | Some a \<Rightarrow> (case fl_nodes l a of None \<Rightarrow> Inl UseAfterFree | Some nd \<Rightarrow> Inr nd))"

section \<open>Operations\<close>

definition list_put :: "'a fifo \<Rightarrow> 'a option \<Rightarrow> 'a fifo res" where
  "list_put l item =
     (case item of None \<Rightarrow> Inr l
      | Some x \<Rightarrow>
          (let tmp = fl_brk l;
               l1 = l\<lparr>fl_nodes := (fl_nodes l)(tmp \<mapsto> \<lparr>li_item = x, li_next = None\<rparr>),
                      fl_brk := Suc (fl_brk l)\<rparr>
           in case fl_first l of
                None \<Rightarrow> Inr (l1\<lparr>fl_first := Some tmp, fl_last := Some tmp, fl_size := fl_size l + 1\<rparr>)
              | Some _ \<Rightarrow>
                  rbind (list_deref l1 (fl_last l)) (\<lambda>nd.
                    Inr (l1\<lparr>fl_nodes := (fl_nodes l1)(the (fl_last l) \<mapsto> nd\<lparr>li_next := Some tmp\<rparr>),
                            fl_last := Some tmp, fl_size := fl_size l + 1\<rparr>))))"

definition list_get :: "'a fifo \<Rightarrow> ('a option \<times> 'a fifo) res" where
  "list_get l =
     (if fl_size l = 0 then Inr (None, l)
      else if fl_first l = fl_last l then
        rbind (list_deref l (fl_first l)) (\<lambda>nd.
          Inr (Some (li_item nd),
               l\<lparr>fl_nodes := (fl_nodes l)(the (fl_first l) := None), fl_first := None,
                 fl_last := None, fl_size := fl_size l - 1\<rparr>))
      else
        rbind (list_deref l (fl_first l)) (\<lambda>nd.
          Inr (Some (li_item nd),
               l\<lparr>fl_nodes := (fl_nodes l)(the (fl_first l) := None), fl_first := li_next nd,
                 fl_size := fl_size l - 1\<rparr>)))"

text \<open>
  The loop of \<open>get(item)\<close>: \<open>tmp\<close> is the address of a node whose item is not the one looked for,
  \<open>nxt\<close> its successor.
\<close>

fun unlink_walk :: "nat \<Rightarrow> 'a fifo \<Rightarrow> 'a \<Rightarrow> nat \<Rightarrow> nat option \<Rightarrow> ('a option \<times> 'a fifo) res" where
  "unlink_walk 0 l x tmp nxt = Inl Diverges"
| "unlink_walk (Suc fuel) l x tmp nxt =
     (case nxt of None \<Rightarrow> Inr (None, l)
      | Some n \<Rightarrow>
          rbind (list_deref l nxt) (\<lambda>nd.
            if li_item nd = x then
              rbind (list_deref l (Some tmp)) (\<lambda>nt.
                Inr (Some (li_item nd),
                     l\<lparr>fl_nodes := ((fl_nodes l)(tmp \<mapsto> nt\<lparr>li_next := li_next nd\<rparr>))(n := None),
                       fl_last := (if Some n = fl_last l then Some tmp else fl_last l),
                       fl_size := fl_size l - 1\<rparr>))
            else unlink_walk fuel l x n (li_next nd)))"

definition list_get_item :: "'a fifo \<Rightarrow> 'a option \<Rightarrow> ('a option \<times> 'a fifo) res" where
  "list_get_item l item =
     (case (item, fl_first l) of
        (None, _) \<Rightarrow> Inr (None, l)
      | (_, None) \<Rightarrow> Inr (None, l)
      | (Some x, Some a) \<Rightarrow>
          rbind (list_deref l (fl_first l)) (\<lambda>nd.
            if li_item nd = x then
              Inr (Some (li_item nd),
                   l\<lparr>fl_nodes := (fl_nodes l)(a := None), fl_first := li_next nd,
                     fl_last := (if li_next nd = None then None else fl_last l),
                     fl_size := fl_size l - 1\<rparr>)
            else unlink_walk (Suc (fl_brk l)) l x a (li_next nd)))"

text \<open>
  \<open>remove\<close> and \<open>clear\<close> delete the items too. The items that are alive are a set \<open>h\<close> here; to delete one
  that is not alive any more is a fault.
\<close>

definition delete_item :: "'a \<Rightarrow> 'a set \<Rightarrow> 'a set res" where
  "delete_item x h = (if x \<in> h then Inr (h - {x}) else Inl UseAfterFree)"

fun remove_walk :: "nat \<Rightarrow> 'a set \<Rightarrow> 'a fifo \<Rightarrow> 'a \<Rightarrow> nat \<Rightarrow> nat option \<Rightarrow> ('a set \<times> 'a fifo) res" where
  "remove_walk 0 h l x tmp nxt = Inl Diverges"
| "remove_walk (Suc fuel) h l x tmp nxt =
     (case nxt of None \<Rightarrow> Inr (h, l)
      | Some n \<Rightarrow>
          rbind (list_deref l nxt) (\<lambda>nd.
            if li_item nd = x then
              rbind (list_deref l (Some tmp)) (\<lambda>nt.
              rbind (delete_item (li_item nd) h) (\<lambda>h'.
                Inr (h', l\<lparr>fl_nodes := ((fl_nodes l)(tmp \<mapsto> nt\<lparr>li_next := li_next nd\<rparr>))(n := None),
                           fl_last := (if Some n = fl_last l then Some tmp else fl_last l),
                           fl_size := fl_size l - 1\<rparr>)))
            else remove_walk fuel h l x n (li_next nd)))"

definition list_remove :: "'a set \<Rightarrow> 'a fifo \<Rightarrow> 'a option \<Rightarrow> ('a set \<times> 'a fifo) res" where
  "list_remove h l item =
     (case (item, fl_first l) of
        (None, _) \<Rightarrow> Inr (h, l)
      | (_, None) \<Rightarrow> Inr (h, l)
      | (Some x, Some a) \<Rightarrow>
          rbind (list_deref l (fl_first l)) (\<lambda>nd.
            if li_item nd = x then
              rbind (delete_item (li_item nd) h) (\<lambda>h'.
                Inr (h', l\<lparr>fl_nodes := (fl_nodes l)(a := None), fl_first := li_next nd,
                           fl_last := (if li_next nd = None then None else fl_last l),
                           fl_size := fl_size l - 1\<rparr>))
            else remove_walk (Suc (fl_brk l)) h l x a (li_next nd)))"

fun clear_walk :: "nat \<Rightarrow> 'a set \<Rightarrow> 'a fifo \<Rightarrow> ('a set \<times> 'a fifo) res" where
  "clear_walk 0 h l = Inl Diverges"
| "clear_walk (Suc fuel) h l =
     (case fl_first l of
        None \<Rightarrow> Inr (h, l\<lparr>fl_last := None, fl_size := 0\<rparr>)
      | Some tmp \<Rightarrow>
          rbind (list_deref l (fl_first l)) (\<lambda>nd.
          rbind (delete_item (li_item nd) h) (\<lambda>h'.
            clear_walk fuel h' (l\<lparr>fl_first := li_next nd, fl_nodes := (fl_nodes l)(tmp := None)\<rparr>))))"

definition list_clear :: "'a set \<Rightarrow> 'a fifo \<Rightarrow> ('a set \<times> 'a fifo) res" where
  "list_clear h l = clear_walk (Suc (fl_brk l)) h l"

text \<open>The destructor.\<close>

definition list_destroy :: "'a set \<Rightarrow> 'a fifo \<Rightarrow> ('a set \<times> 'a fifo) res" where
  "list_destroy h l = list_clear h l"

fun contains_walk :: "nat \<Rightarrow> 'a fifo \<Rightarrow> 'a option \<Rightarrow> nat option \<Rightarrow> bool res" where
  "contains_walk 0 l item tmp = Inl Diverges"
| "contains_walk (Suc fuel) l item tmp =
     (case tmp of None \<Rightarrow> Inr False
      | Some _ \<Rightarrow>
          rbind (list_deref l tmp) (\<lambda>nd.
            if Some (li_item nd) = item then Inr True else contains_walk fuel l item (li_next nd)))"

definition list_contains :: "'a fifo \<Rightarrow> 'a option \<Rightarrow> bool res" where
  "list_contains l item = contains_walk (Suc (fl_brk l)) l item (fl_first l)"

definition list_get_size :: "'a fifo \<Rightarrow> int" where
  "list_get_size l = fl_size l"

definition list_is_empty :: "'a fifo \<Rightarrow> bool" where
  "list_is_empty l = (list_get_size l = 0)"

fun index_walk :: "nat \<Rightarrow> 'a fifo \<Rightarrow> int \<Rightarrow> int \<Rightarrow> nat option \<Rightarrow> 'a option res" where
  "index_walk 0 l idx i tmp = Inl Diverges"
| "index_walk (Suc fuel) l idx i tmp =
     (case tmp of None \<Rightarrow> Inr None
      | Some _ \<Rightarrow>
          rbind (list_deref l tmp) (\<lambda>nd.
            if i = idx then Inr (Some (li_item nd))
            else index_walk fuel l idx (i + 1) (li_next nd)))"

definition list_index :: "'a fifo \<Rightarrow> int \<Rightarrow> 'a option res" where
  "list_index l idx =
     (if idx < 0 \<or> idx \<ge> fl_size l then Inr None
      else index_walk (Suc (fl_brk l)) l idx 0 (fl_first l))"

definition list_swap :: "'a fifo \<Rightarrow> 'a fifo \<Rightarrow> 'a fifo \<times> 'a fifo" where
  "list_swap this other =
     (let tmp = this in
      (this\<lparr>fl_nodes := fl_nodes other, fl_brk := fl_brk other, fl_first := fl_first other,
            fl_last := fl_last other, fl_size := fl_size other\<rparr>,
       other\<lparr>fl_nodes := fl_nodes tmp, fl_brk := fl_brk tmp, fl_first := fl_first tmp,
             fl_last := fl_last tmp, fl_size := fl_size tmp\<rparr>))"

section \<open>The list a chain of nodes represents\<close>

text \<open>The nodes at the addresses \<open>as\<close>, linked from \<open>p\<close> on, hold the items \<open>xs\<close>.\<close>

fun chain :: "(nat \<Rightarrow> 'a ListItem option) \<Rightarrow> nat option \<Rightarrow> nat list \<Rightarrow> 'a list \<Rightarrow> bool" where
  "chain ns p [] [] = (p = None)"
| "chain ns p (a # as) (x # xs) =
     (p = Some a \<and> (\<exists>q. ns a = Some \<lparr>li_item = x, li_next = q\<rparr> \<and> chain ns q as xs))"
| "chain ns p _ _ = False"

definition last_addr :: "nat list \<Rightarrow> nat option" where
  "last_addr as = (if as = [] then None else Some (last as))"

definition rep_at :: "'a fifo \<Rightarrow> nat list \<Rightarrow> 'a list \<Rightarrow> bool" where
  "rep_at l as xs \<longleftrightarrow> chain (fl_nodes l) (fl_first l) as xs \<and> distinct as \<and>
     fl_last l = last_addr as \<and> fl_size l = int (length xs) \<and>
     (\<forall>a \<in> set as. a < fl_brk l)"

definition list_rep :: "'a fifo \<Rightarrow> 'a list \<Rightarrow> bool" where
  "list_rep l xs \<longleftrightarrow> (\<exists>as. rep_at l as xs)"

lemma chain_lengths: "chain ns p as xs \<Longrightarrow> length as = length xs"
  by (induction ns p as xs rule: chain.induct) auto

lemma chain_cong: "(\<And>a. a \<in> set as \<Longrightarrow> ns' a = ns a) \<Longrightarrow> chain ns' p as xs = chain ns p as xs"
  by (induction ns p as xs rule: chain.induct) auto

lemma chain_Nil_iff: "chain ns p [] xs \<longleftrightarrow> p = None \<and> xs = []"
  by (cases xs) auto

lemma chain_None: "chain ns None as xs \<longleftrightarrow> as = [] \<and> xs = []"
  by (cases as; cases xs) auto

lemma chain_Cons_iff:
  "chain ns p (a # as) xs \<longleftrightarrow> p = Some a \<and>
    (\<exists>x ys q. xs = x # ys \<and> ns a = Some \<lparr>li_item = x, li_next = q\<rparr> \<and> chain ns q as ys)"
  by (cases xs) auto

lemma chain_snoc:
  assumes "chain ns p as xs" "as \<noteq> []" "distinct as" "b \<notin> set as"
    and "ns (last as) = Some nd"
  shows "chain (ns(b \<mapsto> \<lparr>li_item = x, li_next = None\<rparr>, last as \<mapsto> nd\<lparr>li_next := Some b\<rparr>)) p
    (as @ [b]) (xs @ [x])"
  using assms
proof (induction ns p as xs rule: chain.induct)
  case (2 ns p a as y ys)
  show ?case
  proof (cases "as = []")
    case True
    with 2 show ?thesis by (auto simp: chain_Nil_iff)
  next
    case False
    with 2(2,4) obtain q where q: "ns a = Some \<lparr>li_item = y, li_next = q\<rparr>" "chain ns q as ys"
      by auto
    have "a \<noteq> last as" using 2(4) False by auto
    with 2 q False show ?thesis by auto
  qed
qed auto

lemma rep_brk: "rep_at l as xs \<Longrightarrow> length xs \<le> fl_brk l"
proof -
  assume r: "rep_at l as xs"
  then have "set as \<subseteq> {..<fl_brk l}" by (auto simp: rep_at_def)
  then have "card (set as) \<le> fl_brk l" using card_mono [of "{..<fl_brk l}" "set as"] by simp
  moreover have "length as = length xs" "distinct as"
    using r chain_lengths by (auto simp: rep_at_def)
  ultimately show ?thesis by (simp add: distinct_card)
qed

lemma chain_node: "chain ns p as xs \<Longrightarrow> a \<in> set as \<Longrightarrow> \<exists>nd. ns a = Some nd"
  by (induction ns p as xs rule: chain.induct) auto

section \<open>The operations on the represented list\<close>

lemma list_new_rep: "list_rep list_new []"
  unfolding list_rep_def
  by (rule exI [of _ "[]"]) (simp add: rep_at_def list_new_def last_addr_def)

lemma list_put_null: "list_put l None = Inr l"
  by (simp add: list_put_def)

lemma list_put_rep:
  assumes "list_rep l xs"
  shows "\<exists>l'. list_put l (Some x) = Inr l' \<and> list_rep l' (xs @ [x])"
proof -
  obtain as where r: "rep_at l as xs" using assms by (auto simp: list_rep_def)
  have b: "fl_brk l \<notin> set as" using r by (auto simp: rep_at_def)
  show ?thesis
  proof (cases "as = []")
    case True
    with r have "fl_first l = None" "xs = []" by (auto simp: rep_at_def chain_Nil_iff)
    with r show ?thesis
      by (auto simp: list_put_def Let_def list_rep_def rep_at_def last_addr_def
        intro!: exI [of _ "[fl_brk l]"])
  next
    case False
    then obtain nd where nd: "fl_nodes l (last as) = Some nd"
      using chain_node [of "fl_nodes l" "fl_first l" as xs "last as"] r by (auto simp: rep_at_def)
    obtain a where a: "fl_first l = Some a" using False r by (cases as) (auto simp: rep_at_def chain_Cons_iff)
    have ne: "last as \<noteq> fl_brk l" using b False by (metis last_in_set)
    have last: "fl_last l = Some (last as)" using False r by (simp add: rep_at_def last_addr_def)
    let ?ns = "(fl_nodes l)(fl_brk l \<mapsto> \<lparr>li_item = x, li_next = None\<rparr>,
      last as \<mapsto> nd\<lparr>li_next := Some (fl_brk l)\<rparr>)"
    let ?l' = "l\<lparr>fl_nodes := ?ns, fl_brk := Suc (fl_brk l), fl_last := Some (fl_brk l),
      fl_size := fl_size l + 1\<rparr>"
    have "list_put l (Some x) = Inr ?l'"
      using a last nd ne by (simp add: list_put_def Let_def list_deref_def)
    moreover have "chain ?ns (fl_first l) (as @ [fl_brk l]) (xs @ [x])"
      using r False b nd by (intro chain_snoc) (auto simp: rep_at_def)
    then have "rep_at ?l' (as @ [fl_brk l]) (xs @ [x])"
      using r b by (auto simp: rep_at_def last_addr_def less_Suc_eq)
    ultimately show ?thesis by (auto simp: list_rep_def)
  qed
qed

lemma list_get_empty: "list_rep l [] \<Longrightarrow> list_get l = Inr (None, l)"
  by (auto simp: list_rep_def rep_at_def list_get_def)

lemma rep_uncons:
  assumes "rep_at l as (x # xs)"
  obtains a as' q where "as = a # as'" "fl_first l = Some a"
    "fl_nodes l a = Some \<lparr>li_item = x, li_next = q\<rparr>" "chain (fl_nodes l) q as' xs"
    "a \<notin> set as'" "distinct as'"
proof -
  have "as \<noteq> []" using assms by (auto simp: rep_at_def chain_Nil_iff)
  then obtain a as' where as: "as = a # as'" by (cases as) auto
  with assms show ?thesis by (auto simp: rep_at_def chain_Cons_iff intro: that)
qed

text \<open>The list without its first node, as \<open>get()\<close> and \<open>get(item)\<close> leave it.\<close>

lemma rep_tail:
  assumes "rep_at l (a # as) (x # xs)" "fl_nodes l a = Some \<lparr>li_item = x, li_next = q\<rparr>"
  shows "rep_at (l\<lparr>fl_nodes := (fl_nodes l)(a := None), fl_first := q,
      fl_last := (if q = None then None else fl_last l), fl_size := fl_size l - 1\<rparr>) as xs"
proof -
  have c: "chain (fl_nodes l) q as xs" "a \<notin> set as" using assms by (auto simp: rep_at_def)
  then have "chain ((fl_nodes l)(a := None)) q as xs" by (subst chain_cong) auto
  moreover have "(if q = None then None else fl_last l) = last_addr as"
    using assms(1) c(1) by (cases as; cases xs) (auto simp: rep_at_def last_addr_def)
  ultimately show ?thesis using assms(1) by (auto simp: rep_at_def)
qed

lemma rep_first_eq_last:
  assumes "rep_at l (a # as) (x # xs)"
  shows "fl_first l = fl_last l \<longleftrightarrow> as = []"
  using assms by (auto simp: rep_at_def last_addr_def)

lemma list_get_rep:
  assumes "list_rep l (x # xs)"
  shows "\<exists>l'. list_get l = Inr (Some x, l') \<and> list_rep l' xs"
proof -
  obtain as where r: "rep_at l as (x # xs)" using assms by (auto simp: list_rep_def)
  obtain a as' q where as: "as = a # as'" and first: "fl_first l = Some a"
    and nd: "fl_nodes l a = Some \<lparr>li_item = x, li_next = q\<rparr>"
    and c: "chain (fl_nodes l) q as' xs" "a \<notin> set as'" "distinct as'"
    using rep_uncons [OF r] .
  let ?l' = "l\<lparr>fl_nodes := (fl_nodes l)(a := None), fl_first := q,
      fl_last := (if q = None then None else fl_last l), fl_size := fl_size l - 1\<rparr>"
  have "q = None \<longleftrightarrow> as' = []" using c(1) by (cases as'; cases xs) auto
  moreover have "fl_size l \<noteq> 0" using r by (simp add: rep_at_def)
  moreover have "as' = [] \<longrightarrow> fl_last l = Some a"
    using rep_first_eq_last [OF r [unfolded as]] first by metis
  ultimately have "list_get l = Inr (Some x, ?l')"
    using first nd rep_first_eq_last [OF r [unfolded as]]
    by (cases q; cases "as' = []") (simp_all add: list_get_def list_deref_def)
  with rep_tail [OF r [unfolded as] nd] show ?thesis by (auto simp: list_rep_def)
qed

text \<open>
  The walk of \<open>get(item)\<close> below a node \<open>a\<close>: it unlinks the first occurrence of the item, or
  leaves the list as it is, and touches only the nodes from \<open>a\<close> on.
\<close>

lemma unlink_walk_rep:
  assumes "chain (fl_nodes l) (Some a) (a # as) (y # xs)" "distinct (a # as)"
    and "fl_nodes l a = Some \<lparr>li_item = y, li_next = nxt\<rparr>"
    and "fl_last l = last_addr (a # as)" "length xs < fuel"
  shows "\<exists>l' as'. unlink_walk fuel l x a nxt = Inr (if x \<in> set xs then Some x else None, l') \<and>
     chain (fl_nodes l') (Some a) (a # as') (y # remove1 x xs) \<and> distinct (a # as') \<and>
     set as' \<subseteq> set as \<and> fl_last l' = last_addr (a # as') \<and>
     (\<forall>b. b \<notin> set (a # as) \<longrightarrow> fl_nodes l' b = fl_nodes l b) \<and>
     fl_first l' = fl_first l \<and> fl_brk l' = fl_brk l \<and>
     fl_size l' = (if x \<in> set xs then fl_size l - 1 else fl_size l)"
  using assms
proof (induction fuel arbitrary: a as y xs nxt)
  case 0
  then show ?case by simp
next
  case (Suc fuel)
  show ?case
  proof (cases xs)
    case Nil
    then have "as = []" using Suc.prems(1) by (auto dest: chain_lengths)
    moreover from this have "nxt = None" using Nil Suc.prems(1,3) by auto
    ultimately show ?thesis
      using Nil Suc.prems by (intro exI [of _ l] exI [of _ "[]"]) simp
  next
    case (Cons z zs)
    then obtain n bs where as: "as = n # bs" using Suc.prems(1) by (cases as) auto
    with Suc.prems(1,3) Cons obtain q where q: "nxt = Some n"
        "fl_nodes l n = Some \<lparr>li_item = z, li_next = q\<rparr>" "chain (fl_nodes l) q bs zs" by auto
    have ne: "a \<noteq> n" "a \<notin> set bs" "n \<notin> set bs" "distinct bs" using Suc.prems(2) as by auto
    show ?thesis
    proof (cases "z = x")
      case True
      define ns where "ns = ((fl_nodes l)(a \<mapsto> \<lparr>li_item = y, li_next = q\<rparr>))(n := None)"
      let ?l' = "l\<lparr>fl_nodes := ns, fl_last := (if Some n = fl_last l then Some a else fl_last l),
          fl_size := fl_size l - 1\<rparr>"
      have "unlink_walk (Suc fuel) l x a nxt = Inr (Some x, ?l')"
        using True q Suc.prems(3) by (simp add: list_deref_def ns_def)
      moreover have "chain ns q bs zs"
        using q(3) ne by (subst chain_cong [where ns = "fl_nodes l"]) (auto simp: ns_def)
      moreover have "ns a = Some \<lparr>li_item = y, li_next = q\<rparr>"
        "\<forall>b. b \<notin> set (a # as) \<longrightarrow> ns b = fl_nodes l b" using ne as by (auto simp: ns_def)
      moreover have "(if Some n = fl_last l then Some a else fl_last l) = last_addr (a # bs)"
        using Suc.prems(4) ne as by (auto simp: last_addr_def)
      ultimately show ?thesis
        using True Cons as ne by (intro exI [of _ ?l'] exI [of _ bs]) auto
    next
      case False
      have "chain (fl_nodes l) (Some n) (n # bs) (z # zs)" using q by simp
      moreover have "fl_last l = last_addr (n # bs)" using Suc.prems(4) as by (simp add: last_addr_def)
      moreover have "length zs < fuel" using Suc.prems(5) Cons by simp
      ultimately obtain l' bs' where
        w: "unlink_walk fuel l x n q = Inr (if x \<in> set zs then Some x else None, l')"
        and c: "chain (fl_nodes l') (Some n) (n # bs') (z # remove1 x zs)" "distinct (n # bs')"
          "set bs' \<subseteq> set bs" "fl_last l' = last_addr (n # bs')"
          "\<forall>b. b \<notin> set (n # bs) \<longrightarrow> fl_nodes l' b = fl_nodes l b"
          "fl_first l' = fl_first l" "fl_brk l' = fl_brk l"
          "fl_size l' = (if x \<in> set zs then fl_size l - 1 else fl_size l)"
        using Suc.IH [of n bs z zs q] q(2) ne by auto
      have "unlink_walk (Suc fuel) l x a nxt = unlink_walk fuel l x n q"
        using False q by (simp add: list_deref_def)
      moreover have "fl_nodes l' a = Some \<lparr>li_item = y, li_next = Some n\<rparr>"
        using c(5) ne Suc.prems(3) q(1) by auto
      then have "chain (fl_nodes l') (Some a) (a # n # bs') (y # remove1 x xs)"
        using c(1) False Cons by auto
      moreover have "distinct (a # n # bs')" "set (n # bs') \<subseteq> set as" using c(2,3) ne as by auto
      moreover have "fl_last l' = last_addr (a # n # bs')" using c(4) by (simp add: last_addr_def)
      ultimately show ?thesis
        using w c(5-8) False Cons as by (intro exI [of _ l'] exI [of _ "n # bs'"]) auto
    qed
  qed
qed

lemma list_get_item_rep:
  assumes "list_rep l xs"
  shows "\<exists>l'. list_get_item l (Some x) = Inr (if x \<in> set xs then Some x else None, l')
    \<and> list_rep l' (remove1 x xs)"
proof (cases xs)
  case Nil
  with assms have "fl_first l = None" by (auto simp: list_rep_def rep_at_def) (metis chain.simps(3) chain_Nil_iff neq_Nil_conv)
  then show ?thesis using assms Nil by (simp add: list_get_item_def)
next
  case (Cons y ys)
  obtain as where r: "rep_at l as (y # ys)" using assms Cons by (auto simp: list_rep_def)
  obtain a as' q where as: "as = a # as'" and first: "fl_first l = Some a"
    and nd: "fl_nodes l a = Some \<lparr>li_item = y, li_next = q\<rparr>"
    and c: "chain (fl_nodes l) q as' ys" "a \<notin> set as'" "distinct as'"
    using rep_uncons [OF r] .
  show ?thesis
  proof (cases "y = x")
    case True
    with first nd rep_tail [OF r [unfolded as] nd] Cons show ?thesis
      by (auto simp: list_get_item_def list_deref_def list_rep_def)
  next
    case False
    have "length ys < Suc (fl_brk l)" using rep_brk [OF r] by simp
    then obtain l' bs where
      w: "unlink_walk (Suc (fl_brk l)) l x a q = Inr (if x \<in> set ys then Some x else None, l')"
      and l': "chain (fl_nodes l') (Some a) (a # bs) (y # remove1 x ys)" "distinct (a # bs)"
        "set bs \<subseteq> set as'" "fl_last l' = last_addr (a # bs)" "fl_first l' = fl_first l"
        "fl_brk l' = fl_brk l" "fl_size l' = (if x \<in> set ys then fl_size l - 1 else fl_size l)"
      using unlink_walk_rep [of l a as' y ys q "Suc (fl_brk l)" x] r first nd c
      by (auto simp: rep_at_def as)
    have "list_get_item l (Some x) = unlink_walk (Suc (fl_brk l)) l x a q"
      using first nd False by (simp add: list_get_item_def list_deref_def)
    moreover have "rep_at l' (a # bs) (y # remove1 x ys)"
      using l' r first as length_pos_if_in_set [of x ys]
      by (auto simp: rep_at_def length_remove1 of_nat_diff Suc_le_eq)
    ultimately show ?thesis using w False Cons by (auto simp: list_rep_def)
  qed
qed

text \<open>\<open>remove\<close> is \<open>get(item)\<close>, with the deletion of the item that was found.\<close>

definition delete_found :: "'a set \<Rightarrow> 'a option \<times> 'a fifo \<Rightarrow> ('a set \<times> 'a fifo) res" where
  "delete_found h rl =
     (case rl of (None, l) \<Rightarrow> Inr (h, l) | (Some x, l) \<Rightarrow> rbind (delete_item x h) (\<lambda>h'. Inr (h', l)))"

lemma remove_walk_unlink: "remove_walk n h l x tmp nxt = rbind (unlink_walk n l x tmp nxt) (delete_found h)"
proof (induction n arbitrary: tmp nxt)
  case (Suc n)
  show ?case
  proof (cases nxt)
    case (Some a)
    then show ?thesis using Suc.IH
      by (cases "list_deref l nxt"; cases "list_deref l (Some tmp)") (auto simp: delete_found_def)
  qed (simp add: delete_found_def)
qed simp

lemma list_remove_get: "list_remove h l item = rbind (list_get_item l item) (delete_found h)"
  by (cases item; cases "fl_first l"; cases "list_deref l (fl_first l)")
    (simp_all add: list_remove_def list_get_item_def remove_walk_unlink, auto simp: delete_found_def)

lemma list_remove_rep:
  assumes "list_rep l xs"
  shows "if x \<in> set xs \<and> x \<notin> h then list_remove h l (Some x) = Inl UseAfterFree
    else \<exists>l'. list_remove h l (Some x) = Inr (if x \<in> set xs then h - {x} else h, l') \<and> list_rep l' (remove1 x xs)"
  using list_get_item_rep [OF assms, of x] by (auto simp: list_remove_get delete_found_def delete_item_def)

lemma clear_walk_rep:
  assumes "chain (fl_nodes l) (fl_first l) as xs" "distinct as" "length xs < fuel"
  shows "if distinct xs \<and> set xs \<subseteq> h then \<exists>l'. clear_walk fuel h l = Inr (h - set xs, l') \<and> list_rep l' []
    else clear_walk fuel h l = Inl UseAfterFree"
  using assms
proof (induction fuel arbitrary: l as xs h)
  case 0
  then show ?case by simp
next
  case (Suc fuel)
  show ?case
  proof (cases xs)
    case Nil
    then have "as = []" using Suc.prems(1) by (auto dest: chain_lengths)
    moreover from this have "fl_first l = None" using Suc.prems(1) by (simp add: chain_Nil_iff)
    ultimately show ?thesis using Nil
      by (auto simp: list_rep_def rep_at_def last_addr_def intro!: exI [of _ "[]"])
  next
    case (Cons x ys)
    with Suc.prems obtain a bs q where as: "as = a # bs" "fl_first l = Some a"
        "fl_nodes l a = Some \<lparr>li_item = x, li_next = q\<rparr>" "chain (fl_nodes l) q bs ys"
      by (cases as) auto
    let ?l1 = "l\<lparr>fl_first := q, fl_nodes := (fl_nodes l)(a := None)\<rparr>"
    have step: "clear_walk (Suc fuel) h l = rbind (delete_item x h) (\<lambda>h'. clear_walk fuel h' ?l1)"
      using as(2,3) by (simp add: list_deref_def)
    have "a \<notin> set bs" using as(1) Suc.prems(2) by simp
    then have "chain ((fl_nodes l)(a := None)) q bs ys"
      using as(4) by (subst chain_cong [where ns = "fl_nodes l"]) auto
    then have "chain (fl_nodes ?l1) (fl_first ?l1) bs ys" by simp
    moreover have "distinct bs" "length ys < fuel" using as(1) Suc.prems Cons by auto
    ultimately have IH: "if distinct ys \<and> set ys \<subseteq> h - {x}
        then \<exists>l'. clear_walk fuel (h - {x}) ?l1 = Inr (h - {x} - set ys, l') \<and> list_rep l' []
        else clear_walk fuel (h - {x}) ?l1 = Inl UseAfterFree"
      by (rule Suc.IH)
    show ?thesis
    proof (cases "x \<in> h")
      case True
      have "h - {x} - set ys = h - set xs" using Cons by auto
      moreover have "distinct ys \<and> set ys \<subseteq> h - {x} \<longleftrightarrow> distinct xs \<and> set xs \<subseteq> h" using Cons True by auto
      moreover have "clear_walk (Suc fuel) h l = clear_walk fuel (h - {x}) ?l1"
        unfolding step using True by (simp add: delete_item_def)
      ultimately show ?thesis using IH by presburger
    next
      case False
      have "clear_walk (Suc fuel) h l = Inl UseAfterFree" unfolding step using False by (simp add: delete_item_def)
      then show ?thesis using Cons False by simp
    qed
  qed
qed

lemma list_clear_rep:
  assumes "list_rep l xs"
  shows "if distinct xs \<and> set xs \<subseteq> h then \<exists>l'. list_clear h l = Inr (h - set xs, l') \<and> list_rep l' []
    else list_clear h l = Inl UseAfterFree"
proof -
  obtain as where r: "rep_at l as xs" using assms by (auto simp: list_rep_def)
  then have "length xs < Suc (fl_brk l)" using rep_brk [OF r] by simp
  moreover have "chain (fl_nodes l) (fl_first l) as xs" "distinct as" using r by (simp_all add: rep_at_def)
  ultimately show ?thesis unfolding list_clear_def by (intro clear_walk_rep)
qed

lemma contains_walk_rep:
  "chain (fl_nodes l) p as xs \<Longrightarrow> length xs < fuel \<Longrightarrow>
    contains_walk fuel l item p = Inr (item \<in> Some ` set xs)"
proof (induction fuel arbitrary: p as xs)
  case (Suc fuel)
  then show ?case
    by (cases as; cases xs) (auto simp: list_deref_def)
qed simp

lemma list_contains_rep: "list_rep l xs \<Longrightarrow> list_contains l item = Inr (item \<in> Some ` set xs)"
  unfolding list_rep_def list_contains_def
  by (elim exE, rule contains_walk_rep) (auto simp: rep_at_def less_Suc_eq_le rep_brk)

lemma list_size_rep: "list_rep l xs \<Longrightarrow> list_get_size l = int (length xs)"
  by (auto simp: list_rep_def rep_at_def list_get_size_def)

lemma list_is_empty_rep: "list_rep l xs \<Longrightarrow> list_is_empty l \<longleftrightarrow> xs = []"
  using list_size_rep [of l xs] by (simp add: list_is_empty_def)

lemma index_walk_rep:
  "chain (fl_nodes l) p as xs \<Longrightarrow> length xs < fuel \<Longrightarrow> i \<le> idx \<Longrightarrow> idx < i + int (length xs) \<Longrightarrow>
    index_walk fuel l idx i p = Inr (Some (xs ! nat (idx - i)))"
proof (induction fuel arbitrary: p as xs i)
  case (Suc fuel)
  then obtain a bs x ys q where 1: "as = a # bs" "xs = x # ys" "p = Some a"
      "fl_nodes l a = Some \<lparr>li_item = x, li_next = q\<rparr>" "chain (fl_nodes l) q bs ys"
    by (cases as; cases xs) auto
  show ?case
  proof (cases "i = idx")
    case False
    then have "nat (idx - i) = Suc (nat (idx - (i + 1)))" using Suc.prems(3) by auto
    with 1 False Suc show ?thesis by (simp add: list_deref_def)
  qed (use 1 in \<open>simp add: list_deref_def\<close>)
qed simp

lemma list_index_rep:
  assumes "list_rep l xs"
  shows "list_index l idx
    = Inr (if 0 \<le> idx \<and> idx < int (length xs) then Some (xs ! nat idx) else None)"
proof -
  obtain as where r: "rep_at l as xs" using assms by (auto simp: list_rep_def)
  then have "length xs < Suc (fl_brk l)" using rep_brk [OF r] by simp
  with r index_walk_rep [of l "fl_first l" as xs "Suc (fl_brk l)" 0 idx] show ?thesis
    by (auto simp: list_index_def rep_at_def)
qed

lemma list_swap_simp [simp]: "list_swap l m = (m, l)"
  by (simp add: list_swap_def Let_def)

section \<open>The interface of a queue\<close>

text \<open>Putting several items, and taking items until the null pointer comes back.\<close>

fun put_all :: "('q \<Rightarrow> 'a option \<Rightarrow> 'q res) \<Rightarrow> 'q \<Rightarrow> 'a list \<Rightarrow> 'q res" where
  "put_all put q [] = Inr q"
| "put_all put q (x # xs) = rbind (put q (Some x)) (\<lambda>q'. put_all put q' xs)"

fun drain :: "('q \<Rightarrow> ('a option \<times> 'q) res) \<Rightarrow> nat \<Rightarrow> 'q \<Rightarrow> ('a list \<times> 'q) res" where
  "drain get 0 q = Inl Diverges"
| "drain get (Suc fuel) q =
     rbind (get q) (\<lambda>(r, q').
       case r of None \<Rightarrow> Inr ([], q')
       | Some x \<Rightarrow> rbind (drain get fuel q') (\<lambda>(xs, q''). Inr (x # xs, q'')))"

locale fifo_queue =
  fixes put :: "'q \<Rightarrow> 'a option \<Rightarrow> 'q res"
    and get :: "'q \<Rightarrow> ('a option \<times> 'q) res"
    and size_of :: "'q \<Rightarrow> int"
    and rep :: "'q \<Rightarrow> 'a list \<Rightarrow> bool"
  assumes put_rep: "rep q xs \<Longrightarrow> \<exists>q'. put q (Some x) = Inr q' \<and> rep q' (xs @ [x])"
    and get_empty: "rep q [] \<Longrightarrow> \<exists>q'. get q = Inr (None, q') \<and> rep q' []"
    and get_rep: "rep q (x # xs) \<Longrightarrow> \<exists>q'. get q = Inr (Some x, q') \<and> rep q' xs"
    and size_rep: "rep q xs \<Longrightarrow> size_of q = int (length xs)"
begin

lemma put_all_rep: "rep q xs \<Longrightarrow> \<exists>q'. put_all put q ys = Inr q' \<and> rep q' (xs @ ys)"
proof (induction ys arbitrary: q xs)
  case (Cons y ys)
  obtain q1 where q1: "put q (Some y) = Inr q1" "rep q1 (xs @ [y])"
    using put_rep [OF Cons.prems, of y] by blast
  from Cons.IH [OF q1(2)] q1(1) show ?case by auto
qed auto

lemma drain_rep: "rep q xs \<Longrightarrow> length xs < fuel \<Longrightarrow> \<exists>q'. drain get fuel q = Inr (xs, q') \<and> rep q' []"
proof (induction fuel arbitrary: q xs)
  case (Suc fuel)
  show ?case
  proof (cases xs)
    case Nil
    then show ?thesis using get_empty Suc.prems(1) by fastforce
  next
    case (Cons x ys)
    obtain q1 where q1: "get q = Inr (Some x, q1)" "rep q1 ys"
      using get_rep Suc.prems(1) Cons by blast
    with Suc.IH [OF q1(2)] Suc.prems(2) Cons show ?thesis by auto
  qed
qed simp

lemma put_all_drain:
  assumes "rep q []" "length ys < fuel"
  shows "\<exists>q' q''. put_all put q ys = Inr q' \<and> size_of q' = int (length ys)
    \<and> drain get fuel q' = Inr (ys, q'') \<and> rep q'' []"
proof -
  obtain q' where q': "put_all put q ys = Inr q'" "rep q' ys" using put_all_rep [OF assms(1), of ys] by auto
  moreover obtain q'' where "drain get fuel q' = Inr (ys, q'')" "rep q'' []"
    using drain_rep [OF q'(2) assms(2)] by blast
  ultimately show ?thesis using size_rep by blast
qed

end

interpretation linked: fifo_queue list_put list_get list_get_size list_rep
  by unfold_locales
    (auto intro: list_put_rep list_get_rep list_size_rep simp: list_get_empty)

section \<open>Properties\<close>

text \<open>
  C33. The linked list is a queue: after any items are put into a new list, its size is their
  number, taking items until the null pointer comes back returns them in the order they were
  put, and the list is then empty again. No pointer operation faults.
\<close>

theorem list_is_fifo:
  "\<exists>l l'. put_all list_put list_new xs = Inr l \<and> list_get_size l = int (length xs)
    \<and> drain list_get (Suc (length xs)) l = Inr (xs, l') \<and> list_is_empty l'"
  using linked.put_all_drain [OF list_new_rep, of xs "Suc (length xs)"] list_is_empty_rep by blast

text \<open>
  C26. Every operation of the linked list refines the operation on the list of the items it
  represents. Putting an item and taking the first one are those of a queue, a null pointer is never
  put; \<open>get(item)\<close> drops the first occurrence of an item wherever it stands, and \<open>remove\<close> deletes that
  item as well; \<open>contains\<close>, the size, the test for emptiness and the index operator answer for the
  list, and \<open>swap\<close> exchanges two lists. All of them end without touching a node that was deleted. An
  item is deleted at most once: \<open>remove\<close> faults when the item was deleted before, and \<open>clear\<close> and the
  destructor delete all items exactly when they are alive and different, and fault otherwise; so
  after the removal of an item that stands in the list twice the list can not be cleared.
\<close>

theorem list_refines:
  assumes "list_rep l xs" and "list_rep m ys"
  shows "(\<exists>l'. list_put l item = Inr l' \<and> list_rep l' (xs @ (case item of None \<Rightarrow> [] | Some x \<Rightarrow> [x])))
    \<and> (\<exists>l'. list_get l = Inr (case xs of [] \<Rightarrow> None | y # _ \<Rightarrow> Some y, l') \<and> list_rep l' (tl xs))
    \<and> (\<exists>l'. list_get_item l (Some x) = Inr (if x \<in> set xs then Some x else None, l')
          \<and> list_rep l' (remove1 x xs))
    \<and> (if x \<in> set xs \<and> x \<notin> h then list_remove h l (Some x) = Inl UseAfterFree
       else \<exists>l'. list_remove h l (Some x) = Inr (if x \<in> set xs then h - {x} else h, l') \<and> list_rep l' (remove1 x xs))
    \<and> list_get_item l None = Inr (None, l) \<and> list_remove h l None = Inr (h, l)
    \<and> (if distinct xs \<and> set xs \<subseteq> h then \<exists>l'. list_clear h l = Inr (h - set xs, l') \<and> list_rep l' []
       else list_clear h l = Inl UseAfterFree)
    \<and> list_destroy h l = list_clear h l
    \<and> list_contains l item = Inr (item \<in> Some ` set xs)
    \<and> list_get_size l = int (length xs) \<and> list_is_empty l = (xs = [])
    \<and> list_index l i = Inr (if 0 \<le> i \<and> i < int (length xs) then Some (xs ! nat i) else None)
    \<and> list_rep (fst (list_swap l m)) ys \<and> list_rep (snd (list_swap l m)) xs"
proof -
  have "\<exists>l'. list_get l = Inr (case xs of [] \<Rightarrow> None | y # _ \<Rightarrow> Some y, l') \<and> list_rep l' (tl xs)"
    using assms(1) list_get_empty list_get_rep by (cases xs) auto
  moreover have "\<exists>l'. list_put l item = Inr l' \<and> list_rep l' (xs @ (case item of None \<Rightarrow> [] | Some x \<Rightarrow> [x]))"
    using assms(1) list_put_rep [of l xs] by (cases item) (simp_all add: list_put_def)
  moreover have "list_get_item l None = Inr (None, l)" "list_remove h l None = Inr (h, l)"
    by (simp_all add: list_get_item_def list_remove_def)
  moreover have "list_rep (fst (list_swap l m)) ys" "list_rep (snd (list_swap l m)) xs" using assms by simp_all
  ultimately show ?thesis
    using list_get_item_rep [OF assms(1)] list_remove_rep [OF assms(1), of x h] list_clear_rep [OF assms(1), of h]
      list_contains_rep [OF assms(1)] list_size_rep [OF assms(1)] list_is_empty_rep [OF assms(1)]
      list_index_rep [OF assms(1)]
    by (intro conjI) (blast | simp add: list_destroy_def)+
qed

lemma sample_list_rep:
  "\<exists>l. put_all list_put list_new [5, 7, 5 :: nat] = Inr l \<and> list_rep l [5, 7, 5]"
  using linked.put_all_rep [OF list_new_rep, of "[5, 7, 5]"] by simp

theorem list_refines_witness:
  "\<exists>l l'. list_rep l [5, 7, 5 :: nat] \<and> list_remove {5, 7} l (Some 5) = Inr ({7}, l')
    \<and> list_rep l' [7, 5] \<and> list_clear {5, 7} l = Inl UseAfterFree"
proof -
  obtain l where l: "list_rep l [5, 7, 5 :: nat]" using sample_list_rep by blast
  have "{5, 7} - {5} = {7 :: nat}" by auto
  with list_refines [OF l list_new_rep, of None 5 "{5, 7}" 0] l show ?thesis by auto
qed

end
