(* ===== verification/Timing.thy ===== *)
theory Timing
  imports Prelude
begin

text \<open>
  The countdown timer of the client's interface (\<^verbatim>\<open>src/core/timer.h\<close>, \<^verbatim>\<open>timer.cpp\<close>) and the
  timeout handlers of the server's main loop (\<^verbatim>\<open>src/core/timeout_handler.h\<close>,
  \<^verbatim>\<open>timeout_handler.cpp\<close>). The value of \<^verbatim>\<open>time(NULL)\<close> is the argument \<open>now\<close> of the operations that
  read the clock. The virtual \<open>timeoutEvent\<close> is what the caller does when \<open>process\<close> answers
  \<open>True\<close>.
\<close>

section \<open>The timer\<close>

record Timer =
  tm_start_time :: int
  tm_duration :: int

definition INACTIVE :: int where "INACTIVE = -1"

definition mk_timer :: "int \<Rightarrow> Timer" where
  "mk_timer p_duration = \<lparr>tm_start_time = INACTIVE, tm_duration = p_duration\<rparr>"

definition timer_start :: "int \<Rightarrow> Timer \<Rightarrow> Timer" where
  "timer_start now t = t\<lparr>tm_start_time := now\<rparr>"

definition timer_stop :: "Timer \<Rightarrow> Timer" where
  "timer_stop t = t\<lparr>tm_start_time := INACTIVE\<rparr>"

definition timer_set_duration :: "int \<Rightarrow> Timer \<Rightarrow> Timer" where
  "timer_set_duration p_duration t =
     (let t1 = t\<lparr>tm_duration := p_duration\<rparr> in
      if tm_duration t1 < 0 then t1\<lparr>tm_duration := 0\<rparr> else t1)"

definition timer_is_active :: "Timer \<Rightarrow> bool" where
  "timer_is_active t = (tm_start_time t \<noteq> INACTIVE \<and> tm_duration t > 0)"

definition timer_remain :: "int \<Rightarrow> Timer \<Rightarrow> int" where
  "timer_remain now t =
     (if \<not> timer_is_active t then 0
      else (let passed_time = now - tm_start_time t; ret = tm_duration t - passed_time in
            if ret < 0 then 0 else ret))"

section \<open>Timeout handlers\<close>

record TimeoutHandler =
  th_sec :: int
  th_usec :: int

definition th_elapsed :: "'a TimeoutHandler_scheme \<Rightarrow> bool" where
  "th_elapsed h = (if th_sec h \<le> 0 \<and> th_usec h \<le> 0 then True else False)"

definition th_stop :: "'a TimeoutHandler_scheme \<Rightarrow> 'a TimeoutHandler_scheme" where
  "th_stop h = h\<lparr>th_sec := 0, th_usec := 0\<rparr>"

definition th_less :: "'a TimeoutHandler_scheme \<Rightarrow> 'b TimeoutHandler_scheme \<Rightarrow> bool" where
  "th_less h other = (th_sec h < th_sec other \<or> (th_sec h = th_sec other \<and> th_usec h < th_usec other))"

text \<open>\<open>process\<close> answers whether the event fires, with the handler after the elapsed time.\<close>

definition th_process ::
  "int \<Rightarrow> int \<Rightarrow> 'a TimeoutHandler_scheme \<Rightarrow> bool \<times> 'a TimeoutHandler_scheme" where
  "th_process p_sec p_usec h =
     (if th_elapsed h then (False, h)
      else
        (let h1 = h\<lparr>th_usec := th_usec h - p_usec\<rparr>;
             h2 = (if th_usec h1 < 0
                   then (let h1' = h1\<lparr>th_sec := th_sec h1 - 1\<rparr> in
                         if th_sec h1' \<ge> 0 then h1'\<lparr>th_usec := th_usec h1' + 1000000\<rparr>
                         else h1'\<lparr>th_usec := 0\<rparr>)
                   else h1);
             h3 = h2\<lparr>th_sec := th_sec h2 - p_sec\<rparr>;
             h4 = (if th_sec h3 < 0 then h3\<lparr>th_sec := 0, th_usec := 0\<rparr> else h3)
         in if th_elapsed h4 then (True, h4) else (False, h4)))"

text \<open>A run of the main loop: the elapsed times of its iterations, and how often the event fires.\<close>

fun th_run :: "(int \<times> int) list \<Rightarrow> 'a TimeoutHandler_scheme \<Rightarrow> nat \<times> 'a TimeoutHandler_scheme" where
  "th_run [] h = (0, h)"
| "th_run ((s, u) # ts) h =
     (let (fired, h') = th_process s u h; (n, h'') = th_run ts h' in
      ((if fired then Suc n else n), h''))"

section \<open>Countdown\<close>

definition th_micros :: "'a TimeoutHandler_scheme \<Rightarrow> int" where
  "th_micros h = 1000000 * th_sec h + th_usec h"

definition th_wf :: "'a TimeoutHandler_scheme \<Rightarrow> bool" where
  "th_wf h \<longleftrightarrow> 0 \<le> th_sec h \<and> 0 \<le> th_usec h \<and> th_usec h < 1000000"

definition micros_ok :: "int \<times> int \<Rightarrow> bool" where
  "micros_ok t \<longleftrightarrow> 0 \<le> fst t \<and> 0 \<le> snd t \<and> snd t < 1000000"

definition micros :: "int \<times> int \<Rightarrow> int" where
  "micros t = 1000000 * fst t + snd t"

lemma th_elapsed_micros: "th_wf h \<Longrightarrow> th_elapsed h \<longleftrightarrow> th_micros h = 0"
proof -
  assume "th_wf h"
  then have "0 \<le> th_sec h" "0 \<le> th_usec h" by (simp_all add: th_wf_def)
  then have "(th_sec h \<le> 0 \<and> th_usec h \<le> 0) \<longleftrightarrow> 1000000 * th_sec h + th_usec h = 0" by linarith
  then show ?thesis by (simp add: th_elapsed_def th_micros_def)
qed

lemma th_process_countdown:
  assumes "th_wf h" "micros_ok (s, u)"
  shows "th_wf (snd (th_process s u h))
    \<and> th_micros (snd (th_process s u h)) = max 0 (th_micros h - micros (s, u))
    \<and> (fst (th_process s u h) \<longleftrightarrow> 0 < th_micros h \<and> th_micros h \<le> micros (s, u))"
  using assms
  by (auto simp: th_process_def Let_def th_elapsed_def th_wf_def th_micros_def micros_def
    micros_ok_def max_def)

lemma th_run_countdown:
  assumes "th_wf h" "\<forall>t \<in> set ts. micros_ok t"
  shows "th_micros (snd (th_run ts h)) = max 0 (th_micros h - sum_list (map micros ts))
    \<and> fst (th_run ts h) = (if 0 < th_micros h \<and> th_micros h \<le> sum_list (map micros ts) then 1 else 0)"
  using assms
proof (induction ts arbitrary: h)
  case Nil
  then show ?case by (auto simp: th_wf_def th_micros_def)
next
  case (Cons t ts)
  obtain s u where t: "t = (s, u)" by force
  let ?h = "snd (th_process s u h)"
  have p: "th_wf ?h" "th_micros ?h = max 0 (th_micros h - micros t)"
    "fst (th_process s u h) \<longleftrightarrow> 0 < th_micros h \<and> th_micros h \<le> micros t"
    using th_process_countdown [of h s u] Cons.prems t by auto
  have "0 \<le> sum_list (map micros ts)"
    using Cons.prems(2) by (intro sum_list_nonneg) (auto simp: micros_ok_def micros_def)
  moreover have "0 \<le> th_micros h" "0 \<le> micros t"
    using Cons.prems by (auto simp: th_wf_def th_micros_def micros_ok_def micros_def)
  ultimately show ?case
    using Cons.IH [OF p(1)] Cons.prems(2) p(2,3) unfolding t
    by (auto simp: split_def Let_def max_def)
qed

section \<open>Properties\<close>

text \<open>
  C34. A timeout handler fires exactly once, in the first iteration in which the time elapsed
  since it was set reaches the time it was set to, however the elapsed time is cut into
  iterations of the main loop; before that it holds the exact remaining time.
\<close>

theorem handler_fires_once:
  assumes "th_wf h" "0 < th_micros h" "\<forall>t \<in> set ts. micros_ok t"
  shows "fst (th_run ts h) = (if th_micros h \<le> sum_list (map micros ts) then 1 else 0)
    \<and> th_micros (snd (th_run ts h)) = max 0 (th_micros h - sum_list (map micros ts))"
  using th_run_countdown [OF assms(1,3)] assms(2) by simp

theorem handler_fires_once_witness:
  "fst (th_run [(0, 700000), (1, 200000), (0, 100000), (5, 0)] \<lparr>th_sec = 2, th_usec = 0\<rparr>) = 1"
  using handler_fires_once [of "\<lparr>th_sec = 2, th_usec = 0\<rparr>"
    "[(0, 700000), (1, 200000), (0, 100000), (5, 0)]"]
  by (simp add: th_wf_def th_micros_def micros_ok_def micros_def)

text \<open>
  The remaining time of a started timer with a positive duration counts down from the
  duration to zero and never below it, and a stopped timer has none left. Whether a timer is
  active does not depend on the time: it stays active after its duration has passed, contrary to
  the comment on \<open>is_active\<close>.
\<close>

lemma timer_counts_down:
  "timer_remain now (timer_start t0 (timer_set_duration d tm))
      = (if t0 = -1 \<or> d \<le> 0 then 0 else max 0 (d - (now - t0)))
    \<and> timer_is_active (timer_start t0 (timer_set_duration d tm)) = (t0 \<noteq> -1 \<and> 0 < d)
    \<and> timer_remain now (timer_stop tm) = 0"
  by (auto simp: timer_remain_def timer_is_active_def timer_start_def timer_stop_def
    timer_set_duration_def INACTIVE_def Let_def max_def)

end
