(* ===== verification/Message.thy ===== *)
theory Message
  imports Const GameField
begin

text \<open>
  The messages between server, client and interface and their wire format
  (\<^verbatim>\<open>src/core/message.h\<close>, \<^verbatim>\<open>message.cpp\<close>). A message is its number and the data of its class; the
  virtual methods are functions on the constructors. The wire format is the memory image the
  source writes with \<^verbatim>\<open>memcpy\<close> on x86-64: a start mark of one byte, the type in four bytes, the
  number in eight, least significant byte first, and then the fields of the class with no
  padding. The enumeration of a state and the truth values come from the peer unchecked, so a
  received state is kept as its code, and a byte other than zero reads as true.

  The sizes of the C++ objects (\<open>get_type_size\<close>) are those of the Itanium C++ ABI: a virtual table
  pointer of eight bytes, the start mark at offset 8, the type at 12 and the number at 16, then
  the fields, with the total rounded up to eight bytes.
\<close>

section \<open>Data\<close>

datatype msg_body =
    ReceiptMsg int
  | ErrorMsg "byte list"
  | InfoMsg "byte list"
  | GameStateMsg int
  | GameSessionReqMsg
  | GameFieldMsg GameField bool
  | GameMoveMsg Point
  | ServerConnStatusReqMsg
  | ServerConnStatusMsg bool
  | ServerConnReqMsg
  | StartFieldReqMsg int
  | StopPreparationMsg
  | StartTurnMsg int bool
  | StopTurnMsg bool

record Message =
  msg_id :: int
  msg_body :: msg_body

definition MSG_START :: byte where "MSG_START = 96"
definition NO_REQ_ID :: int where "NO_REQ_ID = -1"
definition NO_ID :: int where "NO_ID = 0"
definition START_REG_NUM :: int where "START_REG_NUM = 1"
definition BUF_SIZE :: nat where "BUF_SIZE = 512"

fun body_type :: "msg_body \<Rightarrow> MsgType" where
  "body_type (ReceiptMsg _) = RECEIPT_MSG"
| "body_type (ErrorMsg _) = ERROR_MSG"
| "body_type (InfoMsg _) = INFO_MSG"
| "body_type (GameStateMsg _) = GAME_STATE_MSG"
| "body_type GameSessionReqMsg = GAME_SESSION_REQ_MSG"
| "body_type (GameFieldMsg _ _) = GAME_FIELD_MSG"
| "body_type (GameMoveMsg _) = GAME_MOVE_MSG"
| "body_type ServerConnStatusReqMsg = SERVER_CONN_STATUS_REQ_MSG"
| "body_type (ServerConnStatusMsg _) = SERVER_CONN_STATUS_MSG"
| "body_type ServerConnReqMsg = SERVER_CONN_REQ_MSG"
| "body_type (StartFieldReqMsg _) = START_FIELD_REQ_MSG"
| "body_type StopPreparationMsg = STOP_PREPARATION_MSG"
| "body_type (StartTurnMsg _ _) = START_TURN_MSG"
| "body_type (StopTurnMsg _) = STOP_TURN_MSG"

definition msg_type :: "Message \<Rightarrow> MsgType" where
  "msg_type m = body_type (msg_body m)"

text \<open>The constructors number a message \<open>NO_ID\<close>; a receipt is numbered \<open>NO_REQ_ID\<close>.\<close>

definition new_msg :: "msg_body \<Rightarrow> Message" where
  "new_msg b = \<lparr>msg_id = NO_ID, msg_body = b\<rparr>"

definition new_receipt :: "int \<Rightarrow> Message" where
  "new_receipt p_req_id = (new_msg (ReceiptMsg p_req_id))\<lparr>msg_id := NO_REQ_ID\<rparr>"

text \<open>
  The buffer of an error or information message: zeroed, then \<^verbatim>\<open>strncpy\<close> of the C string, then the
  last byte zeroed. A reader of the buffer takes it as a C string and stops at its first zero
  byte; where there is none, it reads past the end of the object.
\<close>

definition c_string :: "byte list \<Rightarrow> byte list" where
  "c_string p = takeWhile (\<lambda>b. b \<noteq> 0) p"

definition text_buf :: "byte list \<Rightarrow> byte list" where
  "text_buf p_msg =
     (let src = take BUF_SIZE (c_string p_msg);
          buf = src @ replicate (BUF_SIZE - length src) 0
      in buf[BUF_SIZE - 1 := 0])"

definition new_error :: "byte list \<Rightarrow> Message" where
  "new_error p_msg = new_msg (ErrorMsg (text_buf p_msg))"

definition new_info :: "byte list \<Rightarrow> Message" where
  "new_info p_msg = new_msg (InfoMsg (text_buf p_msg))"

definition get_text :: "byte list \<Rightarrow> byte list res" where
  "get_text buf = (if 0 \<in> set buf then Inr (c_string buf) else Inl OutOfBounds)"

section \<open>Sizes\<close>

definition Message_get_data_size :: int where
  "Message_get_data_size = 1 + 4 + 8"

definition ReceiptMsg_get_data_size :: int where
  "ReceiptMsg_get_data_size = Message_get_data_size + 8"

definition ErrorMsg_get_data_size :: int where
  "ErrorMsg_get_data_size = Message_get_data_size + int BUF_SIZE"

definition InfoMsg_get_data_size :: int where
  "InfoMsg_get_data_size = Message_get_data_size + int BUF_SIZE"

definition GameStateMsg_get_data_size :: int where
  "GameStateMsg_get_data_size = Message_get_data_size + 4"

definition GameSessionReqMsg_get_data_size :: int where
  "GameSessionReqMsg_get_data_size = Message_get_data_size"

definition GameFieldMsg_get_data_size :: int where
  "GameFieldMsg_get_data_size = Message_get_data_size + (100 + 1)"

definition GameMoveMsg_get_data_size :: int where
  "GameMoveMsg_get_data_size = Message_get_data_size + 8"

definition ServerConnStatusReqMsg_get_data_size :: int where
  "ServerConnStatusReqMsg_get_data_size = Message_get_data_size"

definition ServerConnStatusMsg_get_data_size :: int where
  "ServerConnStatusMsg_get_data_size = Message_get_data_size + 1"

definition ServerConnReqMsg_get_data_size :: int where
  "ServerConnReqMsg_get_data_size = Message_get_data_size"

definition StartFieldReqMsg_get_data_size :: int where
  "StartFieldReqMsg_get_data_size = Message_get_data_size + 8"

definition StopPreparationMsg_get_data_size :: int where
  "StopPreparationMsg_get_data_size = Message_get_data_size"

definition StartTurnMsg_get_data_size :: int where
  "StartTurnMsg_get_data_size = Message_get_data_size + 8 + 1"

definition StopTurnMsg_get_data_size :: int where
  "StopTurnMsg_get_data_size = Message_get_data_size + 1"

fun get_type_data_size :: "MsgType \<Rightarrow> int" where
  "get_type_data_size INVALID_MSG = 0"
| "get_type_data_size UNDEFINED_MSG = 0"
| "get_type_data_size GAME_STATE_MSG = GameStateMsg_get_data_size"
| "get_type_data_size GAME_SESSION_REQ_MSG = GameSessionReqMsg_get_data_size"
| "get_type_data_size GAME_FIELD_MSG = GameFieldMsg_get_data_size"
| "get_type_data_size GAME_MOVE_MSG = GameMoveMsg_get_data_size"
| "get_type_data_size SERVER_CONN_STATUS_REQ_MSG = ServerConnStatusReqMsg_get_data_size"
| "get_type_data_size SERVER_CONN_STATUS_MSG = ServerConnStatusMsg_get_data_size"
| "get_type_data_size SERVER_CONN_REQ_MSG = ServerConnReqMsg_get_data_size"
| "get_type_data_size START_FIELD_REQ_MSG = StartFieldReqMsg_get_data_size"
| "get_type_data_size STOP_PREPARATION_MSG = StopPreparationMsg_get_data_size"
| "get_type_data_size START_TURN_MSG = StartTurnMsg_get_data_size"
| "get_type_data_size STOP_TURN_MSG = StopTurnMsg_get_data_size"
| "get_type_data_size RECEIPT_MSG = ReceiptMsg_get_data_size"
| "get_type_data_size INFO_MSG = InfoMsg_get_data_size"
| "get_type_data_size ERROR_MSG = ErrorMsg_get_data_size"

text \<open>The sizes of the objects in memory.\<close>

fun get_type_size :: "MsgType \<Rightarrow> int" where
  "get_type_size INVALID_MSG = -1"
| "get_type_size UNDEFINED_MSG = -1"
| "get_type_size GAME_STATE_MSG = 32"
| "get_type_size GAME_SESSION_REQ_MSG = 24"
| "get_type_size GAME_FIELD_MSG = 128"
| "get_type_size GAME_MOVE_MSG = 32"
| "get_type_size SERVER_CONN_STATUS_REQ_MSG = 24"
| "get_type_size SERVER_CONN_STATUS_MSG = 32"
| "get_type_size SERVER_CONN_REQ_MSG = 24"
| "get_type_size START_FIELD_REQ_MSG = 32"
| "get_type_size STOP_PREPARATION_MSG = 24"
| "get_type_size START_TURN_MSG = 40"
| "get_type_size STOP_TURN_MSG = 32"
| "get_type_size RECEIPT_MSG = 32"
| "get_type_size INFO_MSG = 536"
| "get_type_size ERROR_MSG = 536"

definition min_size :: int where
  "min_size = 1 + 4"

definition is_too_small :: "int \<Rightarrow> bool" where
  "is_too_small sz = (if sz < min_size then True else False)"

section \<open>Encoding\<close>

definition set_header_data :: "MsgType \<Rightarrow> int \<Rightarrow> byte list" where
  "set_header_data t i = [MSG_START] @ le_bytes 4 (MsgType_code t) @ le_bytes 8 i"

definition bool_byte :: "bool \<Rightarrow> byte" where
  "bool_byte b = (if b then 1 else 0)"

text \<open>The object representation of a point: its two coordinates of four bytes.\<close>

definition point_bytes :: "Point \<Rightarrow> byte list" where
  "point_bytes p = le_bytes 4 (px p) @ le_bytes 4 (py p)"

definition ReceiptMsg_get_data :: "int \<Rightarrow> int \<Rightarrow> byte list" where
  "ReceiptMsg_get_data i req_msg_id = set_header_data RECEIPT_MSG i @ le_bytes 8 req_msg_id"

definition ErrorMsg_get_data :: "int \<Rightarrow> byte list \<Rightarrow> byte list" where
  "ErrorMsg_get_data i buf = set_header_data ERROR_MSG i @ buf"

definition InfoMsg_get_data :: "int \<Rightarrow> byte list \<Rightarrow> byte list" where
  "InfoMsg_get_data i buf = set_header_data INFO_MSG i @ buf"

definition GameStateMsg_get_data :: "int \<Rightarrow> int \<Rightarrow> byte list" where
  "GameStateMsg_get_data i state = set_header_data GAME_STATE_MSG i @ le_bytes 4 state"

definition GameSessionReqMsg_get_data :: "int \<Rightarrow> byte list" where
  "GameSessionReqMsg_get_data i = set_header_data GAME_SESSION_REQ_MSG i"

definition GameFieldMsg_get_data :: "int \<Rightarrow> GameField \<Rightarrow> bool \<Rightarrow> byte list" where
  "GameFieldMsg_get_data i field is_own_field = set_header_data GAME_FIELD_MSG i @ gf_cells field @ [bool_byte is_own_field]"

definition GameMoveMsg_get_data :: "int \<Rightarrow> Point \<Rightarrow> byte list" where
  "GameMoveMsg_get_data i point = set_header_data GAME_MOVE_MSG i @ point_bytes point"

definition ServerConnStatusReqMsg_get_data :: "int \<Rightarrow> byte list" where
  "ServerConnStatusReqMsg_get_data i = set_header_data SERVER_CONN_STATUS_REQ_MSG i"

definition ServerConnStatusMsg_get_data :: "int \<Rightarrow> bool \<Rightarrow> byte list" where
  "ServerConnStatusMsg_get_data i connected = set_header_data SERVER_CONN_STATUS_MSG i @ [bool_byte connected]"

definition ServerConnReqMsg_get_data :: "int \<Rightarrow> byte list" where
  "ServerConnReqMsg_get_data i = set_header_data SERVER_CONN_REQ_MSG i"

definition StartFieldReqMsg_get_data :: "int \<Rightarrow> int \<Rightarrow> byte list" where
  "StartFieldReqMsg_get_data i end_time = set_header_data START_FIELD_REQ_MSG i @ le_bytes 8 end_time"

definition StopPreparationMsg_get_data :: "int \<Rightarrow> byte list" where
  "StopPreparationMsg_get_data i = set_header_data STOP_PREPARATION_MSG i"

definition StartTurnMsg_get_data :: "int \<Rightarrow> int \<Rightarrow> bool \<Rightarrow> byte list" where
  "StartTurnMsg_get_data i end_time is_own = set_header_data START_TURN_MSG i @ le_bytes 8 end_time @ [bool_byte is_own]"

definition StopTurnMsg_get_data :: "int \<Rightarrow> bool \<Rightarrow> byte list" where
  "StopTurnMsg_get_data i is_own = set_header_data STOP_TURN_MSG i @ [bool_byte is_own]"

fun body_data :: "int \<Rightarrow> msg_body \<Rightarrow> byte list" where
  "body_data i (ReceiptMsg x) = ReceiptMsg_get_data i x"
| "body_data i (ErrorMsg x) = ErrorMsg_get_data i x"
| "body_data i (InfoMsg x) = InfoMsg_get_data i x"
| "body_data i (GameStateMsg x) = GameStateMsg_get_data i x"
| "body_data i GameSessionReqMsg = GameSessionReqMsg_get_data i"
| "body_data i (GameFieldMsg f b) = GameFieldMsg_get_data i f b"
| "body_data i (GameMoveMsg x) = GameMoveMsg_get_data i x"
| "body_data i ServerConnStatusReqMsg = ServerConnStatusReqMsg_get_data i"
| "body_data i (ServerConnStatusMsg x) = ServerConnStatusMsg_get_data i x"
| "body_data i ServerConnReqMsg = ServerConnReqMsg_get_data i"
| "body_data i (StartFieldReqMsg x) = StartFieldReqMsg_get_data i x"
| "body_data i StopPreparationMsg = StopPreparationMsg_get_data i"
| "body_data i (StartTurnMsg t b) = StartTurnMsg_get_data i t b"
| "body_data i (StopTurnMsg x) = StopTurnMsg_get_data i x"

definition get_data :: "Message \<Rightarrow> byte list" where
  "get_data m = body_data (msg_id m) (msg_body m)"

section \<open>Decoding\<close>

definition get_start_offset :: nat where
  "get_start_offset = 1 + 4 + 8"

definition get_id :: "byte list \<Rightarrow> int" where
  "get_id data = le_sint (take 8 (drop 5 data))"

definition read_type :: "byte list \<Rightarrow> MsgType option" where
  "read_type data = MsgType_of_code (le_uint (take 4 (drop 1 data)))"

definition get_type :: "byte list \<Rightarrow> int \<Rightarrow> MsgType" where
  "get_type data sz =
     (if is_too_small sz then INVALID_MSG
      else (case read_type data of
              None \<Rightarrow> INVALID_MSG
            | Some UNDEFINED_MSG \<Rightarrow> INVALID_MSG
            | Some t \<Rightarrow> t))"

text \<open>The \<open>n\<close> bytes of the data that start \<open>off\<close> bytes after the header.\<close>

definition field_bytes :: "byte list \<Rightarrow> nat \<Rightarrow> nat \<Rightarrow> byte list" where
  "field_bytes data off n = take n (drop (get_start_offset + off) data)"

definition read_bool :: "byte list \<Rightarrow> nat \<Rightarrow> bool" where
  "read_bool data off = (field_bytes data off 1 \<noteq> [0])"

definition read_point :: "byte list \<Rightarrow> Point" where
  "read_point data = Point (le_sint (field_bytes data 0 4)) (le_sint (field_bytes data 4 4))"

definition ReceiptMsg_create :: "byte list \<Rightarrow> int \<Rightarrow> Message option" where
  "ReceiptMsg_create data sz =
     (if sz = ReceiptMsg_get_data_size
      then Some \<lparr>msg_id = get_id data,
                 msg_body = ReceiptMsg (le_sint (field_bytes data 0 8))\<rparr>
      else None)"

definition ErrorMsg_create :: "byte list \<Rightarrow> int \<Rightarrow> Message option" where
  "ErrorMsg_create data sz =
     (if sz = ErrorMsg_get_data_size
      then Some \<lparr>msg_id = get_id data,
                 msg_body = ErrorMsg (field_bytes data 0 BUF_SIZE)\<rparr>
      else None)"

definition InfoMsg_create :: "byte list \<Rightarrow> int \<Rightarrow> Message option" where
  "InfoMsg_create data sz =
     (if sz = InfoMsg_get_data_size
      then Some \<lparr>msg_id = get_id data,
                 msg_body = InfoMsg (field_bytes data 0 BUF_SIZE)\<rparr>
      else None)"

definition GameStateMsg_create :: "byte list \<Rightarrow> int \<Rightarrow> Message option" where
  "GameStateMsg_create data sz =
     (if sz = GameStateMsg_get_data_size
      then Some \<lparr>msg_id = get_id data,
                 msg_body = GameStateMsg (le_uint (field_bytes data 0 4))\<rparr>
      else None)"

definition GameSessionReqMsg_create :: "byte list \<Rightarrow> int \<Rightarrow> Message option" where
  "GameSessionReqMsg_create data sz =
     (if sz = GameSessionReqMsg_get_data_size
      then Some \<lparr>msg_id = get_id data,
                 msg_body = GameSessionReqMsg\<rparr>
      else None)"

definition GameFieldMsg_create :: "byte list \<Rightarrow> int \<Rightarrow> Message option" where
  "GameFieldMsg_create data sz =
     (if sz = GameFieldMsg_get_data_size
      then Some \<lparr>msg_id = get_id data,
                 msg_body = GameFieldMsg (fill GameField_default (field_bytes data 0 100)) (read_bool data 100)\<rparr>
      else None)"

definition GameMoveMsg_create :: "byte list \<Rightarrow> int \<Rightarrow> Message option" where
  "GameMoveMsg_create data sz =
     (if sz = GameMoveMsg_get_data_size
      then Some \<lparr>msg_id = get_id data,
                 msg_body = GameMoveMsg (read_point data)\<rparr>
      else None)"

definition ServerConnStatusReqMsg_create :: "byte list \<Rightarrow> int \<Rightarrow> Message option" where
  "ServerConnStatusReqMsg_create data sz =
     (if sz = ServerConnStatusReqMsg_get_data_size
      then Some \<lparr>msg_id = get_id data,
                 msg_body = ServerConnStatusReqMsg\<rparr>
      else None)"

definition ServerConnStatusMsg_create :: "byte list \<Rightarrow> int \<Rightarrow> Message option" where
  "ServerConnStatusMsg_create data sz =
     (if sz = ServerConnStatusMsg_get_data_size
      then Some \<lparr>msg_id = get_id data,
                 msg_body = ServerConnStatusMsg (read_bool data 0)\<rparr>
      else None)"

definition ServerConnReqMsg_create :: "byte list \<Rightarrow> int \<Rightarrow> Message option" where
  "ServerConnReqMsg_create data sz =
     (if sz = ServerConnReqMsg_get_data_size
      then Some \<lparr>msg_id = get_id data,
                 msg_body = ServerConnReqMsg\<rparr>
      else None)"

definition StartFieldReqMsg_create :: "byte list \<Rightarrow> int \<Rightarrow> Message option" where
  "StartFieldReqMsg_create data sz =
     (if sz = StartFieldReqMsg_get_data_size
      then Some \<lparr>msg_id = get_id data,
                 msg_body = StartFieldReqMsg (le_sint (field_bytes data 0 8))\<rparr>
      else None)"

definition StopPreparationMsg_create :: "byte list \<Rightarrow> int \<Rightarrow> Message option" where
  "StopPreparationMsg_create data sz =
     (if sz = StopPreparationMsg_get_data_size
      then Some \<lparr>msg_id = get_id data,
                 msg_body = StopPreparationMsg\<rparr>
      else None)"

definition StartTurnMsg_create :: "byte list \<Rightarrow> int \<Rightarrow> Message option" where
  "StartTurnMsg_create data sz =
     (if sz = StartTurnMsg_get_data_size
      then Some \<lparr>msg_id = get_id data,
                 msg_body = StartTurnMsg (le_sint (field_bytes data 0 8)) (read_bool data 8)\<rparr>
      else None)"

definition StopTurnMsg_create :: "byte list \<Rightarrow> int \<Rightarrow> Message option" where
  "StopTurnMsg_create data sz =
     (if sz = StopTurnMsg_get_data_size
      then Some \<lparr>msg_id = get_id data,
                 msg_body = StopTurnMsg (read_bool data 0)\<rparr>
      else None)"

definition create_of_type :: "MsgType \<Rightarrow> byte list \<Rightarrow> int \<Rightarrow> Message option" where
  "create_of_type t data sz =
     (case t of
        INVALID_MSG \<Rightarrow> None
      | UNDEFINED_MSG \<Rightarrow> None
      | GAME_STATE_MSG \<Rightarrow> GameStateMsg_create data sz
      | GAME_SESSION_REQ_MSG \<Rightarrow> GameSessionReqMsg_create data sz
      | GAME_FIELD_MSG \<Rightarrow> GameFieldMsg_create data sz
      | GAME_MOVE_MSG \<Rightarrow> GameMoveMsg_create data sz
      | SERVER_CONN_STATUS_REQ_MSG \<Rightarrow> ServerConnStatusReqMsg_create data sz
      | SERVER_CONN_STATUS_MSG \<Rightarrow> ServerConnStatusMsg_create data sz
      | SERVER_CONN_REQ_MSG \<Rightarrow> ServerConnReqMsg_create data sz
      | START_FIELD_REQ_MSG \<Rightarrow> StartFieldReqMsg_create data sz
      | STOP_PREPARATION_MSG \<Rightarrow> StopPreparationMsg_create data sz
      | START_TURN_MSG \<Rightarrow> StartTurnMsg_create data sz
      | STOP_TURN_MSG \<Rightarrow> StopTurnMsg_create data sz
      | RECEIPT_MSG \<Rightarrow> ReceiptMsg_create data sz
      | INFO_MSG \<Rightarrow> InfoMsg_create data sz
      | ERROR_MSG \<Rightarrow> ErrorMsg_create data sz)"

definition create_instance :: "byte list \<Rightarrow> int \<Rightarrow> Message option" where
  "create_instance data sz =
     (if is_too_small sz then None
      else (case read_type data of None \<Rightarrow> None | Some t \<Rightarrow> create_of_type t data sz))"

section \<open>Lengths and round trips\<close>

text \<open>The values the fields of a message object can hold: integers of their width, a field of a
  hundred cells, a text buffer of 512 bytes.\<close>

definition fits :: "nat \<Rightarrow> int \<Rightarrow> bool" where
  "fits n v \<longleftrightarrow> - (256 ^ n) \<le> 2 * v \<and> 2 * v < 256 ^ n"

fun wf_body :: "msg_body \<Rightarrow> bool" where
  "wf_body (ReceiptMsg i) = fits 8 i"
| "wf_body (ErrorMsg b) = (length b = BUF_SIZE)"
| "wf_body (InfoMsg b) = (length b = BUF_SIZE)"
| "wf_body (GameStateMsg c) = (0 \<le> c \<and> c < 256 ^ 4)"
| "wf_body (GameFieldMsg f _) = wf_field f"
| "wf_body (GameMoveMsg p) = (fits 4 (px p) \<and> fits 4 (py p))"
| "wf_body (StartFieldReqMsg t) = fits 8 t"
| "wf_body (StartTurnMsg t _) = fits 8 t"
| "wf_body _ = True"

definition wf_msg :: "Message \<Rightarrow> bool" where
  "wf_msg m \<longleftrightarrow> fits 8 (msg_id m) \<and> wf_body (msg_body m)"

lemmas get_data_size_defs [wire_simps] =
  Message_get_data_size_def ReceiptMsg_get_data_size_def ErrorMsg_get_data_size_def
  InfoMsg_get_data_size_def GameStateMsg_get_data_size_def GameSessionReqMsg_get_data_size_def
  GameFieldMsg_get_data_size_def GameMoveMsg_get_data_size_def
  ServerConnStatusReqMsg_get_data_size_def ServerConnStatusMsg_get_data_size_def
  ServerConnReqMsg_get_data_size_def StartFieldReqMsg_get_data_size_def
  StopPreparationMsg_get_data_size_def StartTurnMsg_get_data_size_def
  StopTurnMsg_get_data_size_def BUF_SIZE_def

lemmas get_data_defs =
  ReceiptMsg_get_data_def ErrorMsg_get_data_def InfoMsg_get_data_def GameStateMsg_get_data_def
  GameSessionReqMsg_get_data_def GameFieldMsg_get_data_def GameMoveMsg_get_data_def
  ServerConnStatusReqMsg_get_data_def ServerConnStatusMsg_get_data_def
  ServerConnReqMsg_get_data_def StartFieldReqMsg_get_data_def StopPreparationMsg_get_data_def
  StartTurnMsg_get_data_def StopTurnMsg_get_data_def

lemmas create_defs =
  ReceiptMsg_create_def ErrorMsg_create_def InfoMsg_create_def GameStateMsg_create_def
  GameSessionReqMsg_create_def GameFieldMsg_create_def GameMoveMsg_create_def
  ServerConnStatusReqMsg_create_def ServerConnStatusMsg_create_def ServerConnReqMsg_create_def
  StartFieldReqMsg_create_def StopPreparationMsg_create_def StartTurnMsg_create_def
  StopTurnMsg_create_def

text \<open>The bytes after the header, of each class.\<close>

fun payload :: "msg_body \<Rightarrow> byte list" where
  "payload (ReceiptMsg i) = le_bytes 8 i"
| "payload (ErrorMsg b) = b"
| "payload (InfoMsg b) = b"
| "payload (GameStateMsg c) = le_bytes 4 c"
| "payload (GameFieldMsg f b) = gf_cells f @ [bool_byte b]"
| "payload (GameMoveMsg p) = point_bytes p"
| "payload (ServerConnStatusMsg b) = [bool_byte b]"
| "payload (StartFieldReqMsg t) = le_bytes 8 t"
| "payload (StartTurnMsg t b) = le_bytes 8 t @ [bool_byte b]"
| "payload (StopTurnMsg b) = [bool_byte b]"
| "payload _ = []"

lemma body_data_payload: "body_data i b = set_header_data (body_type b) i @ payload b"
  by (cases b) (simp_all add: get_data_defs)

lemma length_header [simp, wire_simps]: "length (set_header_data t i) = 13"
  by (simp add: set_header_data_def)

lemma length_payload:
  "wf_body b \<Longrightarrow> int (length (payload b)) = get_type_data_size (body_type b) - 13"
  by (cases b) (simp_all add: wire_simps wf_field_def point_bytes_def)

lemma body_type_valid [simp]: "body_type b \<noteq> INVALID_MSG" "body_type b \<noteq> UNDEFINED_MSG"
  by (cases b; simp)+

lemma length_get_data:
  "wf_msg m \<Longrightarrow> int (length (get_data m)) = get_type_data_size (msg_type m)"
  using length_payload [of "msg_body m"]
  by (simp add: get_data_def body_data_payload wf_msg_def msg_type_def)

lemma get_type_data_size_pos:
  "t \<noteq> INVALID_MSG \<Longrightarrow> t \<noteq> UNDEFINED_MSG \<Longrightarrow> 13 \<le> get_type_data_size t \<and> get_type_data_size t \<le> 525"
  by (cases t) (simp_all add: wire_simps)

lemma read_type_header [simp]: "read_type (set_header_data t i @ xs) = Some t"
proof -
  have "le_uint (le_bytes 4 (MsgType_code t)) = MsgType_code t"
    using MsgType_code_bounds [of t] by (intro le_uint_le_bytes_id) auto
  then show ?thesis by (simp add: read_type_def set_header_data_def)
qed

lemma get_id_header [simp]:
  assumes "fits 8 i"
  shows "get_id (set_header_data t i @ xs) = i" "get_id (set_header_data t i) = i"
proof -
  have "take 8 (drop 5 (set_header_data t i @ xs)) = le_bytes 8 i" for xs
    by (simp add: set_header_data_def)
  from this this [of "[]"] show "get_id (set_header_data t i @ xs) = i" "get_id (set_header_data t i) = i"
    using assms by (simp_all add: get_id_def fits_def le_sint_le_bytes_id)
qed

lemma field_bytes_header [simp]:
  "field_bytes (set_header_data t i @ xs) off n = take n (drop off xs)"
  by (simp add: field_bytes_def get_start_offset_def)

lemma bool_byte_iff: "bool_byte b \<noteq> 0 \<longleftrightarrow> b"
  by (simp add: bool_byte_def)

lemma create_payload:
  assumes "wf_body b" "fits 8 i"
  shows "create_of_type (body_type b) (set_header_data (body_type b) i @ payload b)
    (get_type_data_size (body_type b)) = Some \<lparr>msg_id = i, msg_body = b\<rparr>"
  using assms
proof (cases b)
  case (GameFieldMsg f o)
  then have f: "wf_field f" using assms by simp
  then have "length (gf_cells f) = 100" by (simp add: wf_field_def)
  with f show ?thesis using GameFieldMsg assms(2)
    by (simp add: create_of_type_def create_defs read_bool_def bool_byte_iff fill_copy)
next
  case (GameMoveMsg p)
  then show ?thesis using assms
    by (cases p) (simp add: create_of_type_def create_defs read_point_def point_bytes_def
      fits_def le_sint_le_bytes_id)
qed (simp_all add: create_of_type_def create_defs read_bool_def bool_byte_iff
      BUF_SIZE_def fits_def [symmetric] le_uint_le_bytes_id,
     simp_all add: fits_def le_sint_le_bytes_id)

lemma create_get_data:
  assumes "wf_msg m"
  shows "create_instance (get_data m) (int (length (get_data m))) = Some m"
proof -
  have sz: "int (length (get_data m)) = get_type_data_size (msg_type m)"
    using assms by (rule length_get_data)
  moreover have "\<not> is_too_small (get_type_data_size (msg_type m))"
    using get_type_data_size_pos [of "msg_type m"]
    by (simp add: is_too_small_def min_size_def msg_type_def)
  ultimately show ?thesis
    using create_payload [of "msg_body m" "msg_id m"] assms
    by (simp add: create_instance_def get_data_def body_data_payload wf_msg_def msg_type_def)
qed

section \<open>What is accepted\<close>

lemma create_of_type_accepts:
  "create_of_type t d sz \<noteq> None
    \<longleftrightarrow> t \<noteq> INVALID_MSG \<and> t \<noteq> UNDEFINED_MSG \<and> sz = get_type_data_size t"
  by (cases t) (simp_all add: create_of_type_def create_defs)

lemma create_instance_accepts:
  "create_instance d sz \<noteq> None
    \<longleftrightarrow> (\<exists>t. read_type d = Some t \<and> t \<noteq> INVALID_MSG \<and> t \<noteq> UNDEFINED_MSG
          \<and> sz = get_type_data_size t)"
proof -
  have "\<not> is_too_small (get_type_data_size t)" if "t \<noteq> INVALID_MSG" "t \<noteq> UNDEFINED_MSG" for t
    using get_type_data_size_pos [OF that] by (simp add: is_too_small_def min_size_def)
  then show ?thesis
    by (cases "read_type d")
      (auto simp: create_instance_def create_of_type_accepts simp del: not_None_eq)
qed

lemma le_sint_fits: "fits (length bs) (le_sint bs)"
  using le_uint_bounds [of bs] by (simp add: le_sint_def Let_def fits_def)

lemma le_sint_fits_n: "length bs = n \<Longrightarrow> fits n (le_sint bs)"
  using le_sint_fits by blast

lemma le_uint_lt_n: "length bs = n \<Longrightarrow> 0 \<le> le_uint bs \<and> le_uint bs < 256 ^ n"
  using le_uint_bounds by blast

lemma length_field_bytes: "13 + off + n \<le> length d \<Longrightarrow> length (field_bytes d off n) = n"
  by (simp add: field_bytes_def get_start_offset_def)

lemma create_of_type_wf:
  assumes "create_of_type t d sz = Some m" "sz \<le> int (length d)"
  shows "wf_msg m \<and> msg_type m = t"
proof -
  have sz: "t \<noteq> INVALID_MSG" "t \<noteq> UNDEFINED_MSG" "sz = get_type_data_size t"
    using create_of_type_accepts [of t d sz] assms(1) by auto
  then have "13 \<le> length d" using get_type_data_size_pos [of t] assms(2) by linarith
  then have id: "fits 8 (get_id d)" by (simp add: get_id_def le_sint_fits_n)
  show ?thesis
    using assms id unfolding sz
    by (cases t; auto simp: create_of_type_def create_defs wf_msg_def msg_type_def read_point_def
      fill_wf wire_simps length_field_bytes intro!: le_sint_fits_n le_uint_lt_n [THEN conjunct1]
      le_uint_lt_n [THEN conjunct2, of _ 4, simplified])
qed

lemma create_instance_wf:
  assumes "create_instance d sz = Some m" "sz \<le> int (length d)"
  shows "wf_msg m"
  using create_of_type_wf assms by (auto simp: create_instance_def split: if_splits option.splits)

lemma get_type_of_create:
  assumes "create_instance d sz = Some m" "sz \<le> int (length d)"
  shows "get_type d sz = msg_type m \<and> sz = get_type_data_size (msg_type m)"
proof -
  obtain t where t: "read_type d = Some t" "create_of_type t d sz = Some m" "\<not> is_too_small sz"
    using assms by (auto simp: create_instance_def split: if_splits option.splits)
  moreover have "msg_type m = t" using create_of_type_wf [OF t(2) assms(2)] by simp
  moreover have "t \<noteq> INVALID_MSG" "t \<noteq> UNDEFINED_MSG" "sz = get_type_data_size t"
    using create_of_type_accepts [of t d sz] t(2) by auto
  ultimately show ?thesis by (cases t) (simp_all add: get_type_def)
qed

lemma pad_buffer:
  assumes "length src \<le> n" "0 < n"
  shows "(src @ replicate (n - length src) z)[n - 1 := z]
    = take (n - 1) src @ replicate (n - length (take (n - 1) src)) z"
  using assms by (intro nth_equalityI) (auto simp: nth_append nth_list_update)

section \<open>The wire format is faithful\<close>

lemma fits_examples: "fits 4 3" "fits 4 7" "fits 8 12" "fits 8 9"
  by (simp_all add: fits_def)

text \<open>
  C21. What one side sends the other side reads: every message a program can hold is encoded in
  exactly the number of bytes its class announces, and decoding these bytes gives the message
  back, its number and every field.
\<close>

theorem message_round_trip:
  assumes "wf_msg m"
  shows "create_instance (get_data m) (get_type_data_size (msg_type m)) = Some m
    \<and> int (length (get_data m)) = get_type_data_size (msg_type m)"
  using create_get_data [OF assms] length_get_data [OF assms] by simp

lemma message_round_trip_witness:
  "create_instance (get_data \<lparr>msg_id = 12, msg_body = GameMoveMsg (Point 3 7)\<rparr>)
     (get_type_data_size GAME_MOVE_MSG) = Some \<lparr>msg_id = 12, msg_body = GameMoveMsg (Point 3 7)\<rparr>"
  using message_round_trip [of "\<lparr>msg_id = 12, msg_body = GameMoveMsg (Point 3 7)\<rparr>"]
  by (simp add: wf_msg_def msg_type_def fits_examples)

text \<open>
  C35. The decoder accepts a sequence of bytes exactly when the type field is one of the fourteen
  kinds of message and the number of bytes is the one of that kind; anything else the network
  delivers is refused with a null pointer.
\<close>

theorem decoder_accepts_iff:
  "(\<exists>m. create_instance d sz = Some m)
    = (\<exists>t. read_type d = Some t \<and> t \<noteq> INVALID_MSG \<and> t \<noteq> UNDEFINED_MSG
          \<and> sz = get_type_data_size t)"
  using create_instance_accepts [of d sz] by simp

text \<open>
  C36. A decoded message holds values of the widths of its fields and the type that was read, so
  sending it on and decoding it again changes nothing, whatever bytes it came from.
\<close>

theorem decoded_message_stable:
  assumes "create_instance d sz = Some m" and "sz \<le> int (length d)"
  shows "wf_msg m \<and> get_type d sz = msg_type m
    \<and> create_instance (get_data m) (int (length (get_data m))) = Some m"
  using create_instance_wf [OF assms] get_type_of_create [OF assms] create_get_data by auto

lemma decoded_message_stable_witness:
  "create_instance [96, 8, 0, 0, 0, 9, 0, 0, 0, 0, 0, 0, 0, 3, 0, 0, 0, 254, 255, 255, 255] 21
     = Some \<lparr>msg_id = 9, msg_body = GameMoveMsg (Point 3 (- 2))\<rparr>
   \<and> wf_msg \<lparr>msg_id = 9, msg_body = GameMoveMsg (Point 3 (- 2))\<rparr>"
proof -
  let ?d = "[96, 8, 0, 0, 0, 9, 0, 0, 0, 0, 0, 0, 0, 3, 0, 0, 0, 254, 255, 255, 255] :: byte list"
  have "create_instance ?d 21 = Some \<lparr>msg_id = 9, msg_body = GameMoveMsg (Point 3 (- 2))\<rparr>"
    by code_simp
  then show ?thesis
    using decoded_message_stable [of ?d 21 "\<lparr>msg_id = 9, msg_body = GameMoveMsg (Point 3 (- 2))\<rparr>"]
    by simp
qed

text \<open>
  The text of a constructed error or information message fits its buffer and always ends: a
  reader of the buffer gets the text up to its first zero byte, cut off at 511 bytes.
\<close>

lemma text_of_message:
  "length (text_buf p) = BUF_SIZE \<and> get_text (text_buf p) = Inr (take (BUF_SIZE - 1) (c_string p))"
proof -
  define src where "src = take BUF_SIZE (c_string p)"
  have t: "take 511 src = take 511 (c_string p)" by (simp add: src_def BUF_SIZE_def)
  have "\<forall>b \<in> set (take 511 (c_string p)). b \<noteq> 0"
    by (auto simp: c_string_def dest!: in_set_takeD set_takeWhileD)
  then have tw: "takeWhile (\<lambda>b. b \<noteq> 0) (take 511 (c_string p) @ replicate (Suc n) 0)
      = take 511 (c_string p)" for n
    by (simp add: takeWhile_append)
  have l: "length src \<le> 512" by (simp add: src_def BUF_SIZE_def)
  have tb: "text_buf p = (src @ replicate (512 - length src) 0)[511 := 0]"
    by (simp add: text_buf_def src_def Let_def BUF_SIZE_def)
  have buf: "text_buf p = take 511 src @ replicate (Suc (511 - length (take 511 src))) 0"
  proof -
    have "Suc (511 - length (take 511 src)) = 512 - length (take 511 src)" by simp
    then show ?thesis using pad_buffer [of src 512 0] l tb by (simp del: replicate_Suc length_take)
  qed
  have "length (text_buf p) = BUF_SIZE" using l tb by (simp add: BUF_SIZE_def)
  moreover have "0 \<in> set (text_buf p)" unfolding buf by simp
  moreover have "c_string (text_buf p) = take (BUF_SIZE - 1) (c_string p)"
    unfolding buf c_string_def [of "_ @ _"] tw [folded t] by (simp add: BUF_SIZE_def t)
  ultimately show ?thesis by (simp add: get_text_def)
qed

text \<open>
  The decoder keeps the 512 bytes of a received text as they are, without ending the text:
  an error message whose text has no zero byte is accepted, and reading its text runs past the
  end of the object.
\<close>

lemma received_text_unterminated:
  "create_instance (set_header_data ERROR_MSG 1 @ replicate 512 65) 525
      = Some \<lparr>msg_id = 1, msg_body = ErrorMsg (replicate 512 65)\<rparr>
    \<and> get_text (replicate 512 65) = Inl OutOfBounds"
proof -
  have "wf_msg \<lparr>msg_id = 1, msg_body = ErrorMsg (replicate 512 65)\<rparr>"
    by (simp add: wf_msg_def fits_def BUF_SIZE_def)
  from create_get_data [OF this] show ?thesis
    by (simp add: get_data_def body_data_payload get_text_def)
qed

end
