(* ===== verification/MsgBuffer.thy ===== *)
theory MsgBuffer
  imports Message
begin

text \<open>
  The buffer that cuts the bytes of a connection into messages (\<^verbatim>\<open>src/core/msg_buffer.h\<close>,
  \<^verbatim>\<open>msg_buffer.cpp\<close>). \<open>mb_buf\<close> holds the \<open>free_pos\<close> bytes in use of the array of 4096, so its length is
  \<open>free_pos\<close>; the bytes after them are only looked at by the loop of \<open>_move_msg_to_start\<close>, which
  tests one byte too many before it compares the index, and that test does not matter unless it
  leaves the array. \<open>to_extract_msg\<close> is an array of the heap whose bytes may never have been
  written, so reading it may fault. The queue of extracted messages is the sequence its linked
  list represents (theory \<open>FifoList\<close>). What \<^verbatim>\<open>read(2)\<close> delivers is an argument: \<open>None\<close> for an error,
  otherwise the bytes, none of them when the peer has closed the connection.
\<close>

section \<open>Data\<close>

definition BUFF_SIZE :: nat where "BUFF_SIZE = 4096"

record MsgBuffer =
  mb_buf :: "byte list"
  mb_to_extract :: "byte option list option"
  mb_is_too_small :: bool
  mb_readed :: int
  mb_queue :: "Message list"

definition MsgBuffer_default :: MsgBuffer where
  "MsgBuffer_default = \<lparr>mb_buf = [], mb_to_extract = None, mb_is_too_small = True,
     mb_readed = 0, mb_queue = []\<rparr>"

definition mb_is_empty :: "MsgBuffer \<Rightarrow> bool" where
  "mb_is_empty mb = (length (mb_buf mb) = 0)"

definition mb_clear :: "MsgBuffer \<Rightarrow> MsgBuffer" where
  "mb_clear mb = mb\<lparr>mb_buf := []\<rparr>"

definition ready_to_extract :: "MsgBuffer \<Rightarrow> bool" where
  "ready_to_extract mb = (length (mb_queue mb) \<noteq> 0)"

definition mb_extract :: "MsgBuffer \<Rightarrow> Message option \<times> MsgBuffer" where
  "mb_extract mb =
     (if \<not> ready_to_extract mb then (None, mb)
      else (Some (hd (mb_queue mb)), mb\<lparr>mb_queue := tl (mb_queue mb)\<rparr>))"

section \<open>The start of a message\<close>

definition has_start_mark :: "MsgBuffer \<Rightarrow> bool" where
  "has_start_mark mb = (\<not> mb_is_empty mb \<and> hd (mb_buf mb) = MSG_START)"

definition get_msg_type :: "byte list \<Rightarrow> MsgType" where
  "get_msg_type b =
     (if is_too_small (int (length b)) then UNDEFINED_MSG else get_type b (int (length b)))"

fun to_start_walk :: "nat \<Rightarrow> byte list \<Rightarrow> byte list res" where
  "to_start_walk 0 b = Inl Diverges"
| "to_start_walk (Suc n) b =
     (let idx = length (takeWhile (\<lambda>c. c \<noteq> MSG_START) b) in
      if idx = BUFF_SIZE then Inl OutOfBounds
      else if idx = length b then Inr []
      else
        (let b1 = drop idx b; t = get_msg_type b1 in
         if t = UNDEFINED_MSG then Inr b1
         else if t = INVALID_MSG then to_start_walk n (drop (nat min_size) b1)
         else Inr b1))"

definition move_msg_to_start :: "MsgBuffer \<Rightarrow> MsgBuffer res" where
  "move_msg_to_start mb =
     (if mb_is_empty mb then Inr mb
      else rbind (to_start_walk (Suc (length (mb_buf mb))) (mb_buf mb))
             (\<lambda>b. Inr (mb\<lparr>mb_buf := b\<rparr>)))"

definition start_mark_pos :: "byte list \<Rightarrow> int \<Rightarrow> int" where
  "start_mark_pos b start =
     (case find (\<lambda>i. b ! i = MSG_START) [nat (max 0 start)..<length b] of
        None \<Rightarrow> -1
      | Some pos \<Rightarrow> int pos)"

section \<open>The array a message is gathered in\<close>

text \<open>Reading \<open>n\<close> bytes of the array from \<open>off\<close> on.\<close>

definition read_bytes :: "byte option list \<Rightarrow> int \<Rightarrow> int \<Rightarrow> byte list res" where
  "read_bytes arr off n =
     (if off < 0 \<or> n < 0 \<or> off + n > int (length arr) then Inl OutOfBounds
      else (let bs = take (nat n) (drop (nat off) arr) in
            if None \<in> set bs then Inl Uninitialised else Inr (map the bs)))"

text \<open>
  Reading the message type of the array as \<open>get_type\<close> does, and the type member of the object
  at its start, which the ABI puts in the bytes 12 to 15. A value outside the enumeration has the
  size -1, as the two invalid ones.
\<close>

definition type_of_array :: "byte option list \<Rightarrow> int \<Rightarrow> MsgType res" where
  "type_of_array arr sz =
     (if is_too_small sz then Inr UNDEFINED_MSG
      else rbind (read_bytes arr 1 4) (\<lambda>bs. Inr (get_type (MSG_START # bs) sz)))"

definition object_get_size :: "byte option list \<Rightarrow> int res" where
  "object_get_size arr =
     rbind (read_bytes arr 12 4)
       (\<lambda>bs. Inr (case MsgType_of_code (le_uint bs) of None \<Rightarrow> -1 | Some t \<Rightarrow> get_type_size t))"

text \<open>
  \<open>memcpy\<close> of the first \<open>to_write\<close> bytes of the buffer behind the \<open>readed\<close> bytes of the array, and
  their removal from the buffer.
\<close>

definition take_over :: "int \<Rightarrow> MsgBuffer \<Rightarrow> MsgBuffer res" where
  "take_over to_write mb =
     (case mb_to_extract mb of
        None \<Rightarrow> Inl NullDeref
      | Some arr \<Rightarrow>
          (if to_write < 0 \<or> to_write > int (length (mb_buf mb))
              \<or> mb_readed mb < 0 \<or> mb_readed mb + to_write > int (length arr)
           then Inl OutOfBounds
           else Inr (mb\<lparr>mb_to_extract := Some (take (nat (mb_readed mb)) arr
                          @ map Some (take (nat to_write) (mb_buf mb))
                          @ drop (nat (mb_readed mb + to_write)) arr),
                        mb_buf := drop (nat to_write) (mb_buf mb),
                        mb_readed := mb_readed mb + to_write\<rparr>)))"

definition create_from_array :: "MsgBuffer \<Rightarrow> Message option res" where
  "create_from_array mb =
     (case mb_to_extract mb of
        None \<Rightarrow> Inr None
      | Some arr \<Rightarrow> rbind (read_bytes arr 0 (mb_readed mb))
                     (\<lambda>d. Inr (create_instance d (mb_readed mb))))"

section \<open>A new message\<close>

fun new_reading_loop :: "nat \<Rightarrow> MsgBuffer \<Rightarrow> (int \<times> MsgBuffer) res" where
  "new_reading_loop 0 mb = Inl Diverges"
| "new_reading_loop (Suc n) mb =
     (if mb_is_empty mb then Inr (-1, mb)
      else if \<not> has_start_mark mb then rbind (move_msg_to_start mb) (new_reading_loop n)
      else
        (let t = get_msg_type (mb_buf mb) in
         if t = UNDEFINED_MSG then
           (let next_start_pos = start_mark_pos (mb_buf mb) 1;
                to_write = (if next_start_pos = -1 then int (length (mb_buf mb)) else next_start_pos)
            in Inr (to_write, mb\<lparr>mb_is_too_small := True\<rparr>))
         else if t = INVALID_MSG then rbind (move_msg_to_start mb) (new_reading_loop n)
         else Inr (get_type_data_size t, mb)))"

definition new_reading :: "MsgBuffer \<Rightarrow> (int \<times> MsgBuffer) res" where
  "new_reading mb =
     rbind (new_reading_loop (Suc (Suc (length (mb_buf mb)))) mb)
       (\<lambda>(sz, mb1).
          if sz = -1 then Inr (0, mb1)
          else Inr (if int (length (mb_buf mb1)) > sz then sz else int (length (mb_buf mb1)),
                    mb1\<lparr>mb_to_extract := Some (replicate (nat sz) None)\<rparr>))"

section \<open>The rest of a message\<close>

text \<open>The body of the loop of \<open>_finishing_reading\<close> returns on every path.\<close>

definition finishing_reading :: "byte option list \<Rightarrow> MsgBuffer \<Rightarrow> (int \<times> MsgBuffer) res" where
  "finishing_reading arr mb =
     (if mb_is_empty mb then Inr (0, mb)
      else
        (let next_start_pos = start_mark_pos (mb_buf mb) 0;
             remains = (if next_start_pos = -1 then int (length (mb_buf mb)) else next_start_pos)
         in
         if mb_is_too_small mb then
           (let tmp_size = mb_readed mb + remains;
                tmp = take (nat (mb_readed mb)) arr @ map Some (take (nat remains) (mb_buf mb));
                sz = (if tmp_size = 0 then int (length (mb_buf mb)) else tmp_size)
            in
            if mb_readed mb < 0 \<or> mb_readed mb > int (length arr) then Inl OutOfBounds
            else rbind (type_of_array tmp sz) (\<lambda>t.
              if t = UNDEFINED_MSG then
                rbind (move_msg_to_start (mb\<lparr>mb_to_extract := Some tmp, mb_readed := tmp_size\<rparr>))
                  (\<lambda>mb1. Inr (0, mb1))
              else if t = INVALID_MSG then
                rbind (move_msg_to_start (mb\<lparr>mb_to_extract := None, mb_readed := 0,
                         mb_is_too_small := False\<rparr>))
                  (\<lambda>mb1. Inr (0, mb1))
              else
                (let msg_size = get_type_data_size t in
                 if mb_readed mb > msg_size then Inl OutOfBounds
                 else Inr (remains, mb\<lparr>mb_to_extract :=
                        Some (take (nat (mb_readed mb)) arr
                              @ replicate (nat (msg_size - mb_readed mb)) None)\<rparr>))))
         else
           rbind (object_get_size arr) (\<lambda>sz.
             Inr (if mb_readed mb + remains > sz then sz else remains, mb))))"

section \<open>Gathering messages\<close>

fun gain_loop :: "nat \<Rightarrow> MsgBuffer \<Rightarrow> MsgBuffer res" where
  "gain_loop 0 mb = Inl Diverges"
| "gain_loop (Suc n) mb =
     (if mb_is_empty mb then Inr mb
      else
        rbind (case mb_to_extract mb of
                 None \<Rightarrow> new_reading mb
               | Some arr \<Rightarrow> finishing_reading arr mb)
          (\<lambda>(to_write, mb1).
             if to_write = 0 then gain_loop n mb1
             else rbind (take_over to_write mb1) (\<lambda>mb2.
                    rbind (create_from_array mb2) (\<lambda>tmp.
                      case tmp of
                        Some m \<Rightarrow> gain_loop n (mb2\<lparr>mb_queue := mb_queue mb2 @ [m],
                                    mb_to_extract := None, mb_readed := 0\<rparr>)
                      | None \<Rightarrow> Inr mb2))))"

definition gain_msg :: "MsgBuffer \<Rightarrow> (BuffError \<times> MsgBuffer) res" where
  "gain_msg mb =
     (let mb0 = mb\<lparr>mb_is_too_small := False\<rparr>;
          gather = (\<lambda>mb. rbind (gain_loop (2 * length (mb_buf mb) + 2) mb) (\<lambda>mb'. Inr (BUFF_OK, mb')))
      in
      if mb_to_extract mb0 = None \<and> \<not> has_start_mark mb0 then
        rbind (move_msg_to_start mb0)
          (\<lambda>mb1. if mb_is_empty mb1 then Inr (EMPTY_BUFF, mb1) else gather mb1)
      else if mb_to_extract mb0 \<noteq> None \<and> has_start_mark mb0 then
        gather (mb0\<lparr>mb_to_extract := None, mb_readed := 0\<rparr>)
      else gather mb0)"

definition read_msg :: "int \<Rightarrow> (nat \<Rightarrow> byte list option) \<Rightarrow> MsgBuffer \<Rightarrow> (BuffError \<times> MsgBuffer) res" where
  "read_msg fd read_fd mb =
     (if fd < 0 then Inr (INVALID_FD, mb)
      else
        (let free_space = int BUFF_SIZE - int (length (mb_buf mb)) in
         if free_space \<le> 0 then Inr (FULL_BUFF, mb)
         else
           (case read_fd (nat free_space) of
              None \<Rightarrow> Inr (READ_ERR, mb)
            | Some [] \<Rightarrow> Inr (CONN_BROKEN, mb)
            | Some bs \<Rightarrow> rbind (gain_msg (mb\<lparr>mb_buf := mb_buf mb @ bs\<rparr>))
                            (\<lambda>(_, mb1). Inr (BUFF_OK, mb1)))))"

section \<open>Whole messages\<close>

lemma get_data_Cons: "\<exists>bs. get_data m = MSG_START # bs"
  by (simp add: get_data_def body_data_payload set_header_data_def)

lemma get_data_not_Nil [simp]: "get_data m \<noteq> []"
  using get_data_Cons [of m] by auto

lemma hd_get_data [simp]: "hd (get_data m) = MSG_START"
  using get_data_Cons [of m] by auto

lemma length_get_data_bounds:
  "wf_msg m \<Longrightarrow> 13 \<le> length (get_data m) \<and> length (get_data m) \<le> 525"
  using length_get_data [of m] get_type_data_size_pos [of "msg_type m"] by (simp add: msg_type_def)

lemma read_type_get_data [simp]: "read_type (get_data m @ xs) = Some (msg_type m)"
  by (simp add: get_data_def body_data_payload msg_type_def)

lemma msg_type_valid [simp]: "msg_type m \<noteq> INVALID_MSG" "msg_type m \<noteq> UNDEFINED_MSG"
  by (simp_all add: msg_type_def)

lemma get_type_valid:
  "read_type d = Some t \<Longrightarrow> t \<noteq> INVALID_MSG \<Longrightarrow> t \<noteq> UNDEFINED_MSG \<Longrightarrow> 5 \<le> sz \<Longrightarrow> get_type d sz = t"
  by (cases t) (simp_all add: get_type_def is_too_small_def min_size_def)

lemma get_msg_type_get_data:
  assumes "wf_msg m"
  shows "get_msg_type (get_data m @ xs) = msg_type m"
proof -
  have "5 \<le> int (length (get_data m @ xs))" using length_get_data_bounds [OF assms] by simp
  then show ?thesis
    using get_type_valid [of "get_data m @ xs" "msg_type m"]
    by (simp add: get_msg_type_def is_too_small_def min_size_def)
qed

lemma takeWhile_mark:
  "MSG_START \<notin> set g \<Longrightarrow> takeWhile (\<lambda>c. c \<noteq> MSG_START) (g @ MSG_START # xs) = g"
  "MSG_START \<notin> set g \<Longrightarrow> takeWhile (\<lambda>c. c \<noteq> MSG_START) g = g"
  by (induction g) auto

lemma to_start_walk_message:
  assumes "wf_msg m" "MSG_START \<notin> set g" "length g < BUFF_SIZE"
  shows "to_start_walk (Suc n) (g @ get_data m @ xs) = Inr (get_data m @ xs)"
proof -
  obtain bs where bs: "get_data m = MSG_START # bs" using get_data_Cons by blast
  have "takeWhile (\<lambda>c. c \<noteq> MSG_START) (g @ get_data m @ xs) = g"
    using takeWhile_mark(1) [OF assms(2)] by (simp add: bs)
  then show ?thesis
    using assms(3) get_msg_type_get_data [OF assms(1)] by (simp add: Let_def)
qed

lemma to_start_walk_garbage:
  assumes "MSG_START \<notin> set g" "length g < BUFF_SIZE"
  shows "to_start_walk (Suc n) g = Inr []"
proof -
  have "length (takeWhile (\<lambda>c. c \<noteq> MSG_START) g) = length g"
    by (simp only: takeWhile_mark(2) [OF assms(1)])
  then show ?thesis using assms(2) by (simp only: to_start_walk.simps Let_def) simp
qed

lemma new_reading_message:
  assumes "wf_msg m" "MSG_START \<notin> set g" "length g < BUFF_SIZE" "mb_buf mb = g @ get_data m @ xs"
  shows "new_reading mb = Inr (int (length (get_data m)), mb\<lparr>mb_buf := get_data m @ xs,
     mb_to_extract := Some (replicate (length (get_data m)) None)\<rparr>)"
proof -
  let ?mb = "mb\<lparr>mb_buf := get_data m @ xs\<rparr>"
  have at_mark: "new_reading_loop (Suc n) ?mb = Inr (int (length (get_data m)), ?mb)" for n
    using get_msg_type_get_data [OF assms(1)] length_get_data [OF assms(1)]
    by (simp add: mb_is_empty_def has_start_mark_def Let_def)
  have "new_reading_loop (Suc (Suc n)) mb = Inr (int (length (get_data m)), ?mb)" for n
  proof (cases "g = []")
    case True
    then have "mb = ?mb" using assms(4) by simp
    then show ?thesis using at_mark [of "Suc n"] by metis
  next
    case False
    then have "hd (mb_buf mb) \<noteq> MSG_START" "mb_buf mb \<noteq> []"
      using assms(2,4) hd_in_set by (fastforce simp: hd_append)+
    then have "\<not> mb_is_empty mb" "\<not> has_start_mark mb"
      by (simp_all add: mb_is_empty_def has_start_mark_def)
    moreover have "move_msg_to_start mb = Inr ?mb"
      using to_start_walk_message [OF assms(1-3)] assms(4) calculation(1)
      by (simp add: move_msg_to_start_def del: to_start_walk.simps)
    ultimately show ?thesis using at_mark [of n] by (simp del: new_reading_loop.simps add: new_reading_loop.simps(2) [of "Suc n"])
  qed
  then show ?thesis by (simp add: new_reading_def del: new_reading_loop.simps)
qed

lemma new_reading_garbage:
  assumes "MSG_START \<notin> set g" "length g < BUFF_SIZE" "mb_buf mb = g" "g \<noteq> []"
  shows "new_reading mb = Inr (0, mb\<lparr>mb_buf := []\<rparr>)"
proof -
  have "hd (mb_buf mb) \<noteq> MSG_START" using assms hd_in_set by fastforce
  then have "\<not> mb_is_empty mb" "\<not> has_start_mark mb"
    using assms by (simp_all add: mb_is_empty_def has_start_mark_def)
  moreover have "move_msg_to_start mb = Inr (mb\<lparr>mb_buf := []\<rparr>)"
    using to_start_walk_garbage [OF assms(1,2)] assms(3) calculation(1)
    by (simp add: move_msg_to_start_def del: to_start_walk.simps)
  ultimately show ?thesis by (simp add: new_reading_def mb_is_empty_def)
qed

lemma take_over_message:
  assumes "mb_buf mb = d @ xs" "mb_to_extract mb = Some (replicate n None)" "mb_readed mb = 0"
    "length d \<le> n"
  shows "take_over (int (length d)) mb = Inr (mb\<lparr>mb_to_extract := Some (map Some d
     @ replicate (n - length d) None), mb_buf := xs, mb_readed := int (length d)\<rparr>)"
  using assms by (simp add: take_over_def)

lemma read_bytes_prefix [simp]:
  "read_bytes (map Some d @ zs) 0 (int (length d)) = Inr d"
  by (simp add: read_bytes_def Let_def comp_def)

lemma gain_loop_message:
  assumes "wf_msg m" "MSG_START \<notin> set g" "length g < BUFF_SIZE" "mb_buf mb = g @ get_data m @ xs"
    "mb_to_extract mb = None" "mb_readed mb = 0"
  shows "gain_loop (Suc n) mb
    = gain_loop n (mb\<lparr>mb_buf := xs, mb_queue := mb_queue mb @ [m]\<rparr>)"
proof -
  let ?n = "length (get_data m)"
  let ?mb1 = "mb\<lparr>mb_buf := get_data m @ xs, mb_to_extract := Some (replicate ?n None)\<rparr>"
  let ?mb2 = "mb\<lparr>mb_buf := xs, mb_to_extract := Some (map Some (get_data m)), mb_readed := int ?n\<rparr>"
  have "new_reading mb = Inr (int ?n, ?mb1)"
    using assms by (intro new_reading_message)
  moreover have "take_over (int ?n) ?mb1 = Inr ?mb2"
    using take_over_message [of ?mb1 "get_data m" xs ?n] assms(6) by simp
  moreover have "create_from_array ?mb2 = Inr (Some m)"
    using read_bytes_prefix [of "get_data m" "[]"] create_get_data [OF assms(1)]
    by (simp add: create_from_array_def)
  moreover have "\<not> mb_is_empty mb" using assms(4) by (simp add: mb_is_empty_def)
  ultimately have "gain_loop (Suc n) mb
      = gain_loop n (?mb2\<lparr>mb_queue := mb_queue ?mb2 @ [m], mb_to_extract := None, mb_readed := 0\<rparr>)"
    using assms(5) by simp
  also have "?mb2\<lparr>mb_queue := mb_queue ?mb2 @ [m], mb_to_extract := None, mb_readed := 0\<rparr>
      = mb\<lparr>mb_buf := xs, mb_queue := mb_queue mb @ [m]\<rparr>"
    using assms(5,6) by (cases mb) simp
  finally show ?thesis .
qed

lemma gain_loop_garbage:
  assumes "MSG_START \<notin> set g" "length g < BUFF_SIZE" "mb_buf mb = g" "mb_to_extract mb = None"
  shows "gain_loop (Suc (Suc n)) mb = Inr (mb\<lparr>mb_buf := []\<rparr>)"
proof (cases "g = []")
  case True
  then have "mb\<lparr>mb_buf := []\<rparr> = mb" using assms(3) by simp
  then show ?thesis using True assms(3) by (simp add: mb_is_empty_def)
next
  case False
  then show ?thesis
    using new_reading_garbage [OF assms(1-3) False] assms(3,4) by (simp add: mb_is_empty_def)
qed

text \<open>A stream of messages, each of them behind bytes that are no start mark.\<close>

fun stream :: "(byte list \<times> Message) list \<Rightarrow> byte list" where
  "stream [] = []"
| "stream ((g, m) # ms) = g @ get_data m @ stream ms"

lemma gain_loop_stream:
  assumes "\<forall>(g, m) \<in> set ms. MSG_START \<notin> set g \<and> wf_msg m" "MSG_START \<notin> set g"
    "mb_buf mb = stream ms @ g" "length (mb_buf mb) < BUFF_SIZE" "length ms + 2 \<le> n"
    "mb_to_extract mb = None" "mb_readed mb = 0"
  shows "gain_loop n mb = Inr (mb\<lparr>mb_buf := [], mb_queue := mb_queue mb @ map snd ms\<rparr>)"
  using assms
proof (induction ms arbitrary: mb n)
  case Nil
  then have "n = Suc (Suc (n - 2))" by simp
  then show ?case using gain_loop_garbage [of g mb "n - 2"] Nil by simp
next
  case (Cons gm ms)
  obtain h m where gm: "gm = (h, m)" by force
  obtain k where k: "n = Suc k" using Cons.prems(5) by (cases n) auto
  let ?mb = "mb\<lparr>mb_buf := stream ms @ g, mb_queue := mb_queue mb @ [m]\<rparr>"
  have "gain_loop n mb = gain_loop k ?mb"
    unfolding k using Cons.prems gm by (intro gain_loop_message) auto
  also have "\<dots> = Inr (?mb\<lparr>mb_buf := [], mb_queue := mb_queue ?mb @ map snd ms\<rparr>)"
    using Cons.prems k gm by (intro Cons.IH) auto
  finally show ?case by (simp add: gm)
qed

lemma length_stream: "\<forall>(g, m) \<in> set ms. wf_msg m \<Longrightarrow> 13 * length ms \<le> length (stream ms)"
proof (induction ms rule: stream.induct)
  case (2 g m ms)
  then have "13 \<le> length (get_data m)" using length_get_data_bounds [of m] by simp
  with 2 show ?case by simp
qed simp

lemma gain_msg_stream:
  assumes "\<forall>(g, m) \<in> set ms. MSG_START \<notin> set g \<and> wf_msg m" "MSG_START \<notin> set g"
    "mb_buf mb = stream ms @ g" "length (mb_buf mb) < BUFF_SIZE"
    "mb_to_extract mb = None" "mb_readed mb = 0"
  shows "ok_with (\<lambda>r. snd r = mb\<lparr>mb_buf := [], mb_queue := mb_queue mb @ map snd ms,
     mb_is_too_small := False\<rparr>) (gain_msg mb)"
proof -
  let ?mb0 = "mb\<lparr>mb_is_too_small := False\<rparr>"
  have gather: "gain_loop (2 * length (mb_buf mb') + 2) mb'
      = Inr (mb'\<lparr>mb_buf := [], mb_queue := mb_queue mb' @ map snd ms'\<rparr>)"
    if "\<forall>(g, m) \<in> set ms'. MSG_START \<notin> set g \<and> wf_msg m" "mb_buf mb' = stream ms' @ g"
      "length (mb_buf mb') < BUFF_SIZE" "mb_to_extract mb' = None" "mb_readed mb' = 0" for mb' ms'
  proof -
    have "13 * length ms' \<le> length (stream ms')" using that(1) by (intro length_stream) auto
    then show ?thesis using that assms(2) by (intro gain_loop_stream) auto
  qed
  show ?thesis
  proof (cases "has_start_mark mb")
    case True
    then have "has_start_mark ?mb0" by (simp add: has_start_mark_def mb_is_empty_def)
    then show ?thesis
      using gather [of ms ?mb0] assms by (simp add: gain_msg_def Let_def del: gain_loop.simps)
  next
    case False
    then have nm: "\<not> has_start_mark ?mb0" by (simp add: has_start_mark_def mb_is_empty_def)
    show ?thesis
    proof (cases ms)
      case Nil
      then have "move_msg_to_start ?mb0 = Inr (?mb0\<lparr>mb_buf := []\<rparr>)"
        using to_start_walk_garbage [OF assms(2)] assms(3,4)
        by (simp add: move_msg_to_start_def mb_is_empty_def del: to_start_walk.simps)
      then show ?thesis using nm assms Nil by (simp add: gain_msg_def Let_def mb_is_empty_def)
    next
      case (Cons gm ms')
      obtain h m where gm: "gm = (h, m)" by force
      let ?mb1 = "?mb0\<lparr>mb_buf := stream (([], m) # ms') @ g\<rparr>"
      have "move_msg_to_start ?mb0 = Inr ?mb1"
        using to_start_walk_message [of m h _ "stream ms' @ g"] assms gm Cons
        by (simp add: move_msg_to_start_def mb_is_empty_def del: to_start_walk.simps)
      moreover have "\<not> mb_is_empty ?mb1" by (simp add: mb_is_empty_def)
      ultimately show ?thesis
        using gather [of "([], m) # ms'" ?mb1] nm assms Cons gm
        by (simp add: gain_msg_def Let_def del: gain_loop.simps)
    qed
  qed
qed

section \<open>The loops end\<close>

lemma to_start_walk_result:
  "length b < n \<Longrightarrow> to_start_walk n b \<noteq> Inl Diverges \<and> (\<forall>b'. to_start_walk n b = Inr b' \<longrightarrow>
     length b' \<le> length b \<and> (b' = [] \<or> hd b' = MSG_START \<and> get_msg_type b' \<noteq> INVALID_MSG))"
proof (induction n arbitrary: b)
  case (Suc n)
  define idx where "idx = length (takeWhile (\<lambda>c. c \<noteq> MSG_START) b)"
  have le: "idx \<le> length b" by (simp add: idx_def length_takeWhile_le)
  show ?case
  proof (cases "idx = BUFF_SIZE \<or> idx = length b")
    case True
    then show ?thesis by (auto simp: idx_def [symmetric] Let_def)
  next
    case False
    then have lt: "idx < length b" using le by simp
    then have hd: "hd (drop idx b) = MSG_START"
      using nth_length_takeWhile [of "\<lambda>c. c \<noteq> MSG_START" b]
      by (simp add: idx_def hd_drop_conv_nth)
    show ?thesis
    proof (cases "get_msg_type (drop idx b) = INVALID_MSG")
      case True
      let ?b = "drop (nat min_size) (drop idx b)"
      have len: "length ?b < n" and len': "length ?b \<le> length b"
        using Suc.prems lt by (auto simp: min_size_def)
      have eq: "to_start_walk (Suc n) b = to_start_walk n ?b"
        using False True by (simp add: idx_def [symmetric] Let_def)
      show ?thesis unfolding eq using Suc.IH [OF len] len' by (meson le_trans)
    next
      case False2: False
      then show ?thesis using False hd by (auto simp: idx_def [symmetric] Let_def)
    qed
  qed
qed simp

lemma move_msg_to_start_result:
  "move_msg_to_start mb \<noteq> Inl Diverges"
  "move_msg_to_start mb = Inr mb' \<Longrightarrow> mb' = mb\<lparr>mb_buf := mb_buf mb'\<rparr> \<and> length (mb_buf mb') \<le> length (mb_buf mb)
    \<and> (mb_is_empty mb' \<or> has_start_mark mb' \<and> get_msg_type (mb_buf mb') \<noteq> INVALID_MSG)"
  using to_start_walk_result [of "mb_buf mb" "Suc (length (mb_buf mb))"]
  by (auto simp: move_msg_to_start_def rbind_Inl_iff rbind_Inr_iff mb_is_empty_def has_start_mark_def
    simp del: to_start_walk.simps split: if_splits)

lemma start_mark_pos_range:
  "0 \<le> start \<Longrightarrow> start_mark_pos b start = -1 \<or> start \<le> start_mark_pos b start \<and> start_mark_pos b start < int (length b)
    \<and> b ! nat (start_mark_pos b start) = MSG_START"
  by (auto simp: start_mark_pos_def find_Some_iff nth_append split: option.splits)

definition reading_ok :: "MsgBuffer \<Rightarrow> int \<times> MsgBuffer \<Rightarrow> bool" where
  "reading_ok mb r \<longleftrightarrow> length (mb_buf (snd r)) \<le> length (mb_buf mb) \<and> mb_queue (snd r) = mb_queue mb
     \<and> (if fst r = -1 then mb_is_empty (snd r) else 0 < fst r)"

lemma new_reading_loop_marked:
  assumes "mb_is_empty mb \<or> has_start_mark mb \<and> get_msg_type (mb_buf mb) \<noteq> INVALID_MSG"
  shows "\<exists>r. new_reading_loop (Suc n) mb = Inr r \<and> reading_ok mb r"
proof (cases "mb_is_empty mb")
  case True
  then show ?thesis by (simp add: reading_ok_def)
next
  case False
  then have ne: "0 < length (mb_buf mb)" by (simp add: mb_is_empty_def)
  show ?thesis
  proof (cases "get_msg_type (mb_buf mb) = UNDEFINED_MSG")
    case True
    then show ?thesis
      using False assms ne start_mark_pos_range [of 1 "mb_buf mb"] by (auto simp: reading_ok_def Let_def)
  next
    case False2: False
    then show ?thesis
      using False assms get_type_data_size_pos [of "get_msg_type (mb_buf mb)"]
      by (auto simp: reading_ok_def Let_def)
  qed
qed

lemma new_reading_loop_result:
  assumes "2 \<le> n"
  shows "new_reading_loop n mb \<noteq> Inl Diverges \<and> (\<forall>r. new_reading_loop n mb = Inr r \<longrightarrow> reading_ok mb r)"
proof -
  define k where "k = n - 2"
  then have n: "n = Suc (Suc k)" using assms by simp
  show ?thesis
  proof (cases "mb_is_empty mb \<or> has_start_mark mb \<and> get_msg_type (mb_buf mb) \<noteq> INVALID_MSG")
    case True
    from new_reading_loop_marked [OF this, of "Suc k"] show ?thesis by (auto simp: n)
  next
    case False
    then have eq: "new_reading_loop n mb = rbind (move_msg_to_start mb) (new_reading_loop (Suc k))"
      unfolding n by (subst new_reading_loop.simps(2)) (auto simp: Let_def)
    show ?thesis
    proof (cases "move_msg_to_start mb")
      case (Inl e)
      then show ?thesis using move_msg_to_start_result(1) [of mb] by (simp add: eq)
    next
      case (Inr mb')
      from move_msg_to_start_result(2) [OF this]
      have m: "mb' = mb\<lparr>mb_buf := mb_buf mb'\<rparr>" "length (mb_buf mb') \<le> length (mb_buf mb)"
        "mb_is_empty mb' \<or> has_start_mark mb' \<and> get_msg_type (mb_buf mb') \<noteq> INVALID_MSG" by auto
      then have "mb_queue mb' = mb_queue mb" by (metis MsgBuffer.select_convs(5) MsgBuffer.surjective MsgBuffer.update_convs(1))
      then show ?thesis
        using new_reading_loop_marked [OF m(3), of k] m(2) Inr by (auto simp: eq reading_ok_def)
    qed
  qed
qed

lemma new_reading_result:
  "new_reading mb \<noteq> Inl Diverges"
  "new_reading mb = Inr (w, mb') \<Longrightarrow> length (mb_buf mb') \<le> length (mb_buf mb) \<and> mb_queue mb' = mb_queue mb
     \<and> (w = 0 \<and> mb_is_empty mb' \<or> 0 \<le> w \<and> w \<le> int (length (mb_buf mb')) \<and> (w = 0 \<longrightarrow> mb_is_empty mb'))"
  using new_reading_loop_result [of "Suc (Suc (length (mb_buf mb)))" mb]
  by (auto simp: new_reading_def rbind_Inl_iff rbind_Inr_iff reading_ok_def mb_is_empty_def
    simp del: new_reading_loop.simps split: if_splits)

lemma read_bytes_not_diverge [simp]: "read_bytes arr off n \<noteq> Inl Diverges"
  by (simp add: read_bytes_def Let_def)

lemma get_type_size_nonzero: "get_type_size t \<noteq> 0"
  by (cases t) simp_all

lemma finishing_reading_result:
  assumes "\<not> mb_is_too_small mb" "\<not> mb_is_empty mb" "\<not> has_start_mark mb"
  shows "finishing_reading arr mb \<noteq> Inl Diverges"
    and "finishing_reading arr mb = Inr (w, mb') \<Longrightarrow> mb' = mb \<and> w \<noteq> 0"
proof -
  have "start_mark_pos (mb_buf mb) 0 \<noteq> 0"
    using start_mark_pos_range [of 0 "mb_buf mb"] assms(2,3)
    by (auto simp: mb_is_empty_def has_start_mark_def hd_conv_nth)
  then have r: "(if start_mark_pos (mb_buf mb) 0 = -1 then int (length (mb_buf mb))
      else start_mark_pos (mb_buf mb) 0) \<noteq> 0"
    using assms(2) by (simp add: mb_is_empty_def)
  have o: "object_get_size arr \<noteq> Inr 0"
    by (auto simp: object_get_size_def rbind_Inr_iff get_type_size_nonzero split: option.splits)
  show "finishing_reading arr mb \<noteq> Inl Diverges"
    using assms by (auto simp: finishing_reading_def Let_def rbind_Inl_iff object_get_size_def)
  show "finishing_reading arr mb = Inr (w, mb') \<Longrightarrow> mb' = mb \<and> w \<noteq> 0"
    using assms r o by (auto simp: finishing_reading_def Let_def rbind_Inr_iff split: if_splits)
qed

lemma take_over_result:
  "take_over w mb \<noteq> Inl Diverges"
  "take_over w mb = Inr mb' \<Longrightarrow> w \<noteq> 0 \<Longrightarrow> length (mb_buf mb') < length (mb_buf mb) \<and> mb_queue mb' = mb_queue mb"
  by (auto simp: take_over_def split: option.splits if_splits)

lemma create_from_array_result:
  "create_from_array mb \<noteq> Inl Diverges"
  "create_from_array mb = Inr (Some m) \<Longrightarrow> wf_msg m"
proof -
  show "create_from_array mb \<noteq> Inl Diverges"
    by (auto simp: create_from_array_def rbind_Inl_iff split: option.splits)
next
  assume "create_from_array mb = Inr (Some m)"
  then obtain arr d where d: "read_bytes arr 0 (mb_readed mb) = Inr d"
    "create_instance d (mb_readed mb) = Some m"
    by (auto simp: create_from_array_def rbind_Inr_iff split: option.splits)
  then have "mb_readed mb \<le> int (length d)"
    by (auto simp: read_bytes_def Let_def split: if_splits)
  with d(2) show "wf_msg m" by (rule create_instance_wf)
qed

text \<open>What the loop of \<open>_gain_msg\<close> starts with.\<close>

definition can_gain :: "MsgBuffer \<Rightarrow> bool" where
  "can_gain mb \<longleftrightarrow> mb_to_extract mb = None \<or> \<not> mb_is_too_small mb \<and> \<not> has_start_mark mb"

definition gained :: "MsgBuffer \<Rightarrow> MsgBuffer \<Rightarrow> bool" where
  "gained mb mb' \<longleftrightarrow> length (mb_buf mb') \<le> length (mb_buf mb)
     \<and> (\<exists>ms. mb_queue mb' = mb_queue mb @ ms \<and> (\<forall>m \<in> set ms. wf_msg m))"

lemma gained_message:
  assumes "gained (mb2\<lparr>mb_queue := mb_queue mb2 @ [m], mb_to_extract := None, mb_readed := 0\<rparr>) mb'"
    "length (mb_buf mb2) \<le> length (mb_buf mb)" "mb_queue mb2 = mb_queue mb" "wf_msg m"
  shows "gained mb mb'"
proof -
  obtain ms where "mb_queue mb' = (mb_queue mb2 @ [m]) @ ms" "\<forall>m \<in> set ms. wf_msg m"
    "length (mb_buf mb') \<le> length (mb_buf mb2)"
    using assms(1) by (auto simp: gained_def)
  then show ?thesis using assms(2-4) unfolding gained_def by (intro conjI exI [of _ "m # ms"]) auto
qed

lemma gain_loop_result:
  assumes "can_gain mb" "length (mb_buf mb) + 1 < n"
  shows "gain_loop n mb \<noteq> Inl Diverges \<and> (\<forall>mb'. gain_loop n mb = Inr mb' \<longrightarrow> gained mb mb')"
  using assms
proof (induction n arbitrary: mb)
  case (Suc n)
  show ?case
  proof (cases "mb_is_empty mb")
    case True
    then show ?thesis by (simp add: gained_def)
  next
    case ne: False
    let ?r = "case mb_to_extract mb of None \<Rightarrow> new_reading mb | Some arr \<Rightarrow> finishing_reading arr mb"
    have r: "?r \<noteq> Inl Diverges" "?r = Inr (w, mb1) \<Longrightarrow> length (mb_buf mb1) \<le> length (mb_buf mb)
        \<and> mb_queue mb1 = mb_queue mb \<and> (w = 0 \<longrightarrow> mb_is_empty mb1)" for w mb1
      using new_reading_result [of mb] finishing_reading_result [of mb] Suc.prems(1) ne
      by (cases "mb_to_extract mb"; fastforce simp: can_gain_def)+
    show ?thesis
    proof (cases ?r)
      case (Inl e)
      then show ?thesis using r(1) ne by simp
    next
      case (Inr p)
      obtain w mb1 where p: "p = (w, mb1)" by force
      note r1 = r(2) [OF Inr [unfolded p]]
      show ?thesis
      proof (cases "w = 0")
        case True
        obtain k where "n = Suc k" using Suc.prems(2) by (cases n) auto
        then show ?thesis using True r1 Inr p ne by (auto simp: gained_def mb_is_empty_def)
      next
        case False
        show ?thesis
        proof (cases "take_over w mb1")
          case (Inl e)
          then show ?thesis using take_over_result(1) [of w mb1] Inr p ne False by simp
        next
          case to: (Inr mb2)
          note t = take_over_result(2) [OF to False]
          show ?thesis
          proof (cases "create_from_array mb2")
            case (Inl e)
            then show ?thesis using create_from_array_result(1) [of mb2] to Inr p ne False by simp
          next
            case cr: (Inr tmp)
            show ?thesis
            proof (cases tmp)
              case None
              then show ?thesis using cr to Inr p ne False t r1 by (simp add: gained_def)
            next
              case (Some m)
              let ?mb = "mb2\<lparr>mb_queue := mb_queue mb2 @ [m], mb_to_extract := None, mb_readed := 0\<rparr>"
              have "wf_msg m" using create_from_array_result(2) cr Some by simp
              moreover have "gain_loop (Suc n) mb = gain_loop n ?mb"
                using cr to Inr p ne False Some by simp
              moreover have "can_gain ?mb" "length (mb_buf ?mb) + 1 < n"
                using t r1 Suc.prems(2) by (auto simp: can_gain_def)
              moreover have "gained mb mb'" if "gained ?mb mb'" for mb'
                using gained_message [OF that, of mb] calculation(1) t r1 by simp
              ultimately show ?thesis using Suc.IH [of ?mb] by metis
            qed
          qed
        qed
      qed
    qed
  qed
qed simp

lemma gain_msg_result:
  "gain_msg mb \<noteq> Inl Diverges \<and> (\<forall>e mb'. gain_msg mb = Inr (e, mb') \<longrightarrow> gained mb mb')"
proof -
  have g: "rbind (gain_loop (2 * length (mb_buf mb1) + 2) mb1) (\<lambda>mb'. Inr (BUFF_OK, mb')) \<noteq> Inl Diverges \<and>
    (\<forall>e mb'. rbind (gain_loop (2 * length (mb_buf mb1) + 2) mb1) (\<lambda>mb'. Inr (BUFF_OK, mb')) = Inr (e, mb')
      \<longrightarrow> gained mb mb')"
    if "can_gain mb1" "length (mb_buf mb1) \<le> length (mb_buf mb)" "mb_queue mb1 = mb_queue mb" for mb1
    using gain_loop_result [of mb1 "2 * length (mb_buf mb1) + 2"] that
    by (auto simp: rbind_Inl_iff rbind_Inr_iff gained_def simp del: gain_loop.simps)
  let ?mb0 = "mb\<lparr>mb_is_too_small := False\<rparr>"
  consider (none) "mb_to_extract mb = None" "\<not> has_start_mark ?mb0"
    | (drop) "mb_to_extract mb \<noteq> None" "has_start_mark ?mb0"
    | (other) "mb_to_extract mb = None \<longleftrightarrow> has_start_mark ?mb0"
    by (cases "has_start_mark ?mb0"; cases "mb_to_extract mb") auto
  then show ?thesis
  proof cases
    case none
    show ?thesis
    proof (cases "move_msg_to_start ?mb0")
      case (Inl e)
      then show ?thesis using none move_msg_to_start_result(1) [of ?mb0] by (simp add: gain_msg_def Let_def)
    next
      case (Inr mb1)
      note m = move_msg_to_start_result(2) [OF Inr]
      have q: "mb_queue mb1 = mb_queue mb" "mb_to_extract mb1 = None"
        using arg_cong [OF conjunct1 [OF m], of mb_queue] arg_cong [OF conjunct1 [OF m], of mb_to_extract] none
        by simp_all
      have "can_gain mb1" using q by (simp add: can_gain_def)
      from g [OF this] m q show ?thesis
        using none Inr by (auto simp: gain_msg_def Let_def gained_def mb_is_empty_def simp del: gain_loop.simps)
    qed
  next
    case drop
    then show ?thesis using g [of "?mb0\<lparr>mb_to_extract := None, mb_readed := 0\<rparr>"]
      by (simp add: gain_msg_def Let_def can_gain_def del: gain_loop.simps)
  next
    case other
    then show ?thesis using g [of ?mb0]
      by (cases "has_start_mark ?mb0"; cases "mb_to_extract mb")
        (simp_all add: gain_msg_def Let_def can_gain_def del: gain_loop.simps)
  qed
qed

section \<open>A message in two pieces\<close>

lemma MsgType_code_byte: "word_of_int (MsgType_code t) \<noteq> MSG_START \<and> (0 :: byte) \<noteq> MSG_START"
  by (cases t; simp add: MSG_START_def)

lemma header_marks:
  assumes "0 < j" "j < 5"
  shows "(set_header_data t i @ xs) ! j \<noteq> MSG_START"
proof -
  have "MsgType_code t div 256 = 0" using MsgType_code_bounds [of t] by simp
  then have "le_bytes 4 (MsgType_code t) = [word_of_int (MsgType_code t), 0, 0, 0]"
    by (simp add: numeral_eq_Suc)
  moreover have "j = 1 \<or> j = 2 \<or> j = 3 \<or> j = 4" using assms by auto
  ultimately show ?thesis
    using MsgType_code_byte [of t] by (auto simp: set_header_data_def)
qed

lemma get_data_marks: "0 < j \<Longrightarrow> j < 5 \<Longrightarrow> get_data m ! j \<noteq> MSG_START"
  by (simp add: get_data_def body_data_payload header_marks)

definition half_read :: "byte list \<Rightarrow> nat \<Rightarrow> bool \<Rightarrow> MsgBuffer" where
  "half_read d n small = \<lparr>mb_buf = [], mb_to_extract = Some (map Some d @ replicate (n - length d) None),
     mb_is_too_small = small, mb_readed = int (length d), mb_queue = []\<rparr>"

lemma new_reading_split:
  assumes "wf_msg m" "0 < k" "k < length (get_data m)" "mb_buf mb = take k (get_data m)"
  shows "new_reading mb = Inr (int k, mb\<lparr>mb_is_too_small := (k < 5 \<or> mb_is_too_small mb), mb_to_extract :=
     Some (replicate (if k < 5 then k else length (get_data m)) None)\<rparr>)"
proof -
  let ?d = "take k (get_data m)"
  have l: "length ?d = k" using assms(3) by simp
  have hd: "hd ?d = MSG_START" using assms(2) by (simp add: hd_take)
  have st: "\<not> mb_is_empty mb" "has_start_mark mb"
    using assms(2,4) l hd by (auto simp: mb_is_empty_def has_start_mark_def)
  show ?thesis
  proof (cases "k < 5")
    case True
    then have t: "get_msg_type ?d = UNDEFINED_MSG"
      using l by (simp add: get_msg_type_def is_too_small_def min_size_def)
    have "find (\<lambda>i. ?d ! i = MSG_START) [1..<length ?d] = None"
      using get_data_marks True by (auto simp: find_None_iff l)
    then have "start_mark_pos ?d 1 = -1" by (simp add: start_mark_pos_def)
    then show ?thesis using st t l True assms(2,4) by (simp add: new_reading_def Let_def)
  next
    case False
    then have "read_type ?d = Some (msg_type m)"
      using read_type_get_data [of m "[]"] False by (simp add: read_type_def drop_take)
    then have t: "get_msg_type ?d = msg_type m"
      using get_type_valid [of ?d "msg_type m" "int k"] False l
      by (simp add: get_msg_type_def is_too_small_def min_size_def)
    have "(13 :: int) \<le> int (length (get_data m))"
      using length_get_data_bounds [OF assms(1)] by simp
    then have "get_type_data_size (msg_type m) \<noteq> -1" "\<not> int k > get_type_data_size (msg_type m)"
      "nat (get_type_data_size (msg_type m)) = length (get_data m)"
      using assms(3) length_get_data [OF assms(1)] by linarith+
    then show ?thesis using st t l False assms(4)
      by (simp add: new_reading_def Let_def)
  qed
qed

lemma first_half:
  assumes "wf_msg m" "0 < k" "k < length (get_data m)" "0 \<le> fd"
  shows "read_msg fd (\<lambda>_. Some (take k (get_data m))) MsgBuffer_default
    = Inr (BUFF_OK, half_read (take k (get_data m)) (if k < 5 then k else length (get_data m)) (k < 5))"
proof -
  let ?d = "take k (get_data m)" and ?n = "if k < 5 then k else length (get_data m)"
  have l: "length ?d = k" using assms(3) by simp
  have hd: "hd ?d = MSG_START" using assms(2) by (simp add: hd_take)
  define mb where "mb = MsgBuffer_default\<lparr>mb_buf := ?d, mb_is_too_small := False\<rparr>"
  let ?mb1 = "mb\<lparr>mb_is_too_small := k < 5, mb_to_extract := Some (replicate ?n None)\<rparr>"
  let ?h = "half_read ?d ?n (k < 5)"
  have st: "\<not> mb_is_empty mb" "has_start_mark mb"
    using assms(2) l hd by (auto simp: mb_def mb_is_empty_def has_start_mark_def)
  have nr: "new_reading mb = Inr (int k, ?mb1)"
    using new_reading_split [OF assms(1-3), of mb] by (simp add: mb_def)
  have to: "take_over (int k) ?mb1 = Inr ?h"
    using take_over_message [of ?mb1 ?d "[]" ?n] l assms(3)
    by (simp add: mb_def MsgBuffer_default_def half_read_def)
  have "create_instance ?d (int k) = None"
  proof (rule ccontr)
    assume "create_instance ?d (int k) \<noteq> None"
    then obtain t where t: "read_type ?d = Some t" "int k = get_type_data_size t"
      "t \<noteq> INVALID_MSG" "t \<noteq> UNDEFINED_MSG"
      by (auto simp only: create_instance_accepts)
    then have "13 \<le> k" using get_type_data_size_pos [of t] by simp
    then have "read_type ?d = Some (msg_type m)"
      using read_type_get_data [of m "[]"] by (simp add: read_type_def drop_take)
    then show False using t length_get_data [OF assms(1)] assms(3) by simp
  qed
  then have cr: "create_from_array ?h = Inr None"
    using read_bytes_prefix [of ?d] l by (simp add: create_from_array_def half_read_def)
  have "gain_loop (Suc (2 * k + 1)) mb = Inr ?h"
    using st nr to cr assms(2) by (simp add: mb_def MsgBuffer_default_def)
  then have "gain_msg (MsgBuffer_default\<lparr>mb_buf := ?d\<rparr>) = Inr (BUFF_OK, ?h)"
    using st l by (simp add: gain_msg_def Let_def mb_def [symmetric] del: gain_loop.simps)
      (simp add: mb_def MsgBuffer_default_def)
  moreover obtain x xs where "?d = x # xs" using assms(2) l by (cases ?d) auto
  ultimately show ?thesis
    using assms(4) by (simp add: read_msg_def MsgBuffer_default_def BUFF_SIZE_def)
qed

lemma second_half:
  assumes "length d < 16" "ds \<noteq> []" "hd ds \<noteq> MSG_START" "0 \<le> fd" "length d \<le> n"
  shows "read_msg fd (\<lambda>_. Some ds) (half_read d n small)
    = Inl (if n < 16 then OutOfBounds else Uninitialised)"
proof -
  let ?arr = "map Some d @ replicate (n - length d) None"
  let ?mb = "(half_read d n False)\<lparr>mb_buf := ds\<rparr>"
  have st: "\<not> mb_is_empty ?mb" "\<not> has_start_mark ?mb"
    using assms(2,3) by (simp_all add: mb_is_empty_def has_start_mark_def)
  have "object_get_size ?arr = Inl (if n < 16 then OutOfBounds else Uninitialised)"
  proof (cases "n < 16")
    case True
    then show ?thesis using assms(5) by (simp add: object_get_size_def read_bytes_def)
  next
    case False
    then have "?arr ! 15 = None" using assms(1) by (simp add: nth_append)
    moreover have "take 4 (drop 12 xs) ! 3 = xs ! 15" if "16 \<le> length xs" for xs :: "byte option list"
      using that by simp
    ultimately have "take 4 (drop 12 ?arr) ! 3 = None" using False assms(5) by (metis length_append
      length_map length_replicate le_add_diff_inverse not_less)
    moreover have "3 < length (take 4 (drop 12 ?arr))" using False assms(5) by simp
    ultimately have "None \<in> set (take 4 (drop 12 ?arr))" by (metis nth_mem)
    then show ?thesis using False assms(5) by (simp add: object_get_size_def read_bytes_def)
  qed
  then have "finishing_reading ?arr ?mb = Inl (if n < 16 then OutOfBounds else Uninitialised)"
    using st by (simp add: finishing_reading_def Let_def half_read_def)
  then have "gain_loop (Suc k) ?mb = Inl (if n < 16 then OutOfBounds else Uninitialised)" for k
    using st by (simp add: half_read_def)
  then have "gain_msg ((half_read d n small)\<lparr>mb_buf := ds\<rparr>) = Inl (if n < 16 then OutOfBounds else Uninitialised)"
    using st by (simp add: gain_msg_def Let_def half_read_def del: gain_loop.simps)
  moreover obtain x xs where "ds = x # xs" using assms(2) by (cases ds) auto
  ultimately show ?thesis
    using assms(4) by (simp add: read_msg_def half_read_def BUFF_SIZE_def)
qed

lemma read_whole_messages:
  assumes "\<forall>(g, m) \<in> set ms. MSG_START \<notin> set g \<and> wf_msg m" and "MSG_START \<notin> set g"
    and "read_fd 4096 = Some (stream ms @ g)" and "stream ms @ g \<noteq> []"
    and "length (stream ms @ g) < 4096" and "0 \<le> fd"
    and "mb_buf mb = []" and "mb_to_extract mb = None" and "mb_readed mb = 0"
  shows "read_msg fd read_fd mb = Inr (BUFF_OK,
    mb\<lparr>mb_queue := mb_queue mb @ map snd ms, mb_is_too_small := False\<rparr>)"
proof -
  obtain x xs where x: "stream ms @ g = x # xs" using assms(4) by (cases "stream ms @ g") auto
  have "ok_with (\<lambda>r. snd r = mb\<lparr>mb_buf := [], mb_queue := mb_queue mb @ map snd ms,
     mb_is_too_small := False\<rparr>) (gain_msg (mb\<lparr>mb_buf := stream ms @ g\<rparr>))"
    using gain_msg_stream [OF assms(1,2), of "mb\<lparr>mb_buf := stream ms @ g\<rparr>"] assms(5,8,9)
    by (simp add: BUFF_SIZE_def)
  then obtain e where "gain_msg (mb\<lparr>mb_buf := x # xs\<rparr>) = Inr (e, mb\<lparr>mb_buf := [],
      mb_queue := mb_queue mb @ map snd ms, mb_is_too_small := False\<rparr>)"
    unfolding x by (auto dest!: ok_withD)
  moreover have "mb\<lparr>mb_buf := [], mb_queue := mb_queue mb @ map snd ms, mb_is_too_small := False\<rparr>
      = mb\<lparr>mb_queue := mb_queue mb @ map snd ms, mb_is_too_small := False\<rparr>"
    using assms(7) by (cases mb) simp
  ultimately show ?thesis
    using assms(3,6,7) x by (simp add: read_msg_def BUFF_SIZE_def)
qed

lemma stream_plain: "stream (map (\<lambda>m. ([], m)) ms) = concat (map get_data ms)"
  by (induction ms) auto

text \<open>A buffer that is between two messages.\<close>

definition idle_buf :: "MsgBuffer \<Rightarrow> bool" where
  "idle_buf mb \<longleftrightarrow> mb_buf mb = [] \<and> mb_to_extract mb = None \<and> mb_readed mb = 0"

lemma idle_default [simp]: "idle_buf MsgBuffer_default"
  by (simp add: idle_buf_def MsgBuffer_default_def)

lemma read_plain_messages:
  assumes "idle_buf mb" "\<forall>m \<in> set ms. wf_msg m" "ms \<noteq> []" "length (concat (map get_data ms)) < 4096"
    "read_fd 4096 = Some (concat (map get_data ms))" "0 \<le> fd"
  shows "read_msg fd read_fd mb = Inr (BUFF_OK, mb\<lparr>mb_queue := mb_queue mb @ ms, mb_is_too_small := False\<rparr>)"
proof -
  obtain m ms' where "ms = m # ms'" using assms(3) by (cases ms) auto
  then have "concat (map get_data ms) \<noteq> []" by simp
  then show ?thesis
    using read_whole_messages [of "map (\<lambda>m. ([], m)) ms" "[]" read_fd fd mb] assms
    by (auto simp: stream_plain idle_buf_def comp_def)
qed

section \<open>Properties\<close>

definition sample_move :: Message where
  "sample_move = \<lparr>msg_id = 12, msg_body = GameMoveMsg (Point 3 7)\<rparr>"

lemma sample_move_data:
  "get_data sample_move = [96, 8, 0, 0, 0, 12, 0, 0, 0, 0, 0, 0, 0, 3, 0, 0, 0, 7, 0, 0, 0]"
  by code_simp

lemma wf_sample_move: "wf_msg sample_move"
  by (simp add: sample_move_def wf_msg_def fits_examples)

text \<open>
  C20. Whole messages are delivered: when the bytes of one read are any number of complete
  messages, each of them behind any bytes that are no start mark, a buffer that is not in the
  middle of a message queues exactly these messages, in their order, and is empty again.
\<close>

theorem whole_messages_delivered:
  assumes "\<forall>(g, m) \<in> set ms. MSG_START \<notin> set g \<and> wf_msg m" and "MSG_START \<notin> set g"
    and "read_fd 4096 = Some (stream ms @ g)" and "stream ms @ g \<noteq> []"
    and "length (stream ms @ g) < 4096" and "0 \<le> fd"
    and "mb_buf mb = []" and "mb_to_extract mb = None" and "mb_readed mb = 0"
  shows "read_msg fd read_fd mb = Inr (BUFF_OK,
    mb\<lparr>mb_queue := mb_queue mb @ map snd ms, mb_is_too_small := False\<rparr>)"
  using assms by (rule read_whole_messages)

theorem whole_messages_delivered_witness:
  "read_msg 5 (\<lambda>_. Some ([7, 8] @ get_data sample_move @ get_data sample_move @ [1])) MsgBuffer_default
    = Inr (BUFF_OK, MsgBuffer_default\<lparr>mb_queue := [sample_move, sample_move], mb_is_too_small := False\<rparr>)"
  using whole_messages_delivered [of "[([7, 8], sample_move), ([], sample_move)]" "[1]"
    "\<lambda>_. Some ([7, 8] @ get_data sample_move @ get_data sample_move @ [1])" 5 MsgBuffer_default]
  by (simp add: wf_sample_move MsgBuffer_default_def MSG_START_def sample_move_data)

text \<open>
  C22. Reading from a connection always ends, whatever the state of the buffer and whatever bytes
  arrive; when no memory fault stops it, it only appends messages to the queue, and every one of
  them is well-formed.
\<close>

theorem read_ends_with_wf_messages:
  "case read_msg fd read_fd mb of
     Inl e \<Rightarrow> e \<noteq> Diverges
   | Inr (r, mb') \<Rightarrow> \<exists>ms. mb_queue mb' = mb_queue mb @ ms \<and> list_all wf_msg ms"
proof (cases "\<exists>b bs. 0 \<le> fd \<and> length (mb_buf mb) < BUFF_SIZE
    \<and> read_fd (BUFF_SIZE - length (mb_buf mb)) = Some (b # bs)")
  case True
  then obtain b bs where r: "0 \<le> fd" "length (mb_buf mb) < BUFF_SIZE"
    "read_fd (BUFF_SIZE - length (mb_buf mb)) = Some (b # bs)" by blast
  then have "nat (int BUFF_SIZE - int (length (mb_buf mb))) = BUFF_SIZE - length (mb_buf mb)" by simp
  then have "read_msg fd read_fd mb
      = rbind (gain_msg (mb\<lparr>mb_buf := mb_buf mb @ b # bs\<rparr>)) (\<lambda>(_, mb1). Inr (BUFF_OK, mb1))"
    using r by (simp add: read_msg_def)
  then show ?thesis
    using gain_msg_result [of "mb\<lparr>mb_buf := mb_buf mb @ b # bs\<rparr>"]
    by (cases "gain_msg (mb\<lparr>mb_buf := mb_buf mb @ b # bs\<rparr>)")
      (auto simp: gained_def list_all_iff)
next
  case False
  then have "\<exists>e. read_msg fd read_fd mb = Inr (e, mb)"
    by (auto simp: read_msg_def nat_diff_distrib split: option.splits list.splits)
  then show ?thesis by auto
qed

text \<open>
  C37. A message that arrives in two pieces is not put together again. When the first read ends
  within the first 15 bytes of a message and the rest, which does not begin like a start mark,
  follows in the next read, the second read takes the raw bytes of the first piece for a message
  object and asks it for its size: it reads the type member of an object at the bytes 12 to 15, past
  the end of the array for the short messages, and bytes that were never written otherwise.
\<close>

theorem split_message_faults:
  assumes "wf_msg m" and "0 < k" and "k < 16" and "k < length (get_data m)"
    and "get_data m ! k \<noteq> MSG_START" and "0 \<le> fd"
  shows "\<exists>mb. read_msg fd (\<lambda>_. Some (take k (get_data m))) MsgBuffer_default = Inr (BUFF_OK, mb)
    \<and> mb_queue mb = []
    \<and> read_msg fd (\<lambda>_. Some (drop k (get_data m))) mb
       = Inl (if k < 5 \<or> length (get_data m) < 16 then OutOfBounds else Uninitialised)"
proof -
  let ?n = "if k < 5 then k else length (get_data m)"
  have "read_msg fd (\<lambda>_. Some (drop k (get_data m))) (half_read (take k (get_data m)) ?n (k < 5))
      = Inl (if ?n < 16 then OutOfBounds else Uninitialised)"
    using assms by (intro second_half) (auto simp: hd_drop_conv_nth)
  moreover have "?n < 16 \<longleftrightarrow> k < 5 \<or> length (get_data m) < 16" by auto
  moreover have "mb_queue (half_read (take k (get_data m)) ?n (k < 5)) = []"
    by (simp add: half_read_def)
  ultimately show ?thesis using first_half [OF assms(1,2,4,6)] by auto
qed

theorem split_message_faults_witness:
  "\<exists>mb. read_msg 3 (\<lambda>_. Some (take 10 (get_data sample_move))) MsgBuffer_default = Inr (BUFF_OK, mb)
    \<and> mb_queue mb = []
    \<and> read_msg 3 (\<lambda>_. Some (drop 10 (get_data sample_move))) mb = Inl Uninitialised"
  using split_message_faults [of sample_move 10 3] wf_sample_move
  by (simp add: sample_move_data MSG_START_def)

text \<open>
  C38. When a read fills the whole buffer with bytes none of which is a start mark, the search for
  the start mark looks at the byte behind the array.
\<close>

theorem full_buffer_overread:
  assumes "length g = 4096" and "MSG_START \<notin> set g" and "read_fd 4096 = Some g" and "0 \<le> fd"
  shows "read_msg fd read_fd MsgBuffer_default = Inl OutOfBounds"
proof -
  obtain x xs where x: "g = x # xs" using assms(1) by (cases g) auto
  then have hd: "x \<noteq> MSG_START" using assms(2) by auto
  have len: "length (takeWhile (\<lambda>c. c \<noteq> MSG_START) g) = BUFF_SIZE"
    using assms(1) by (simp only: takeWhile_mark(2) [OF assms(2)] BUFF_SIZE_def)
  have "to_start_walk (Suc n) g = Inl OutOfBounds" for n
    by (simp only: to_start_walk.simps Let_def len) simp
  then have "gain_msg (MsgBuffer_default\<lparr>mb_buf := g\<rparr>) = Inl OutOfBounds"
    using x hd
    by (simp add: gain_msg_def Let_def MsgBuffer_default_def move_msg_to_start_def mb_is_empty_def
      has_start_mark_def del: to_start_walk.simps)
  then show ?thesis
    using assms(3,4) x by (simp add: read_msg_def MsgBuffer_default_def BUFF_SIZE_def)
qed

theorem full_buffer_overread_witness:
  "read_msg 3 (\<lambda>n. Some (replicate n 0)) MsgBuffer_default = Inl OutOfBounds"
  using full_buffer_overread [of "replicate 4096 0" "\<lambda>n. Some (replicate n 0)" 3]
  by (simp add: MSG_START_def set_replicate_conv_if)

end
