(* ===== verification/Delivery.thy ===== *)
theory Delivery
  imports Message
begin

text \<open>
  The control of message delivery (\<^verbatim>\<open>src/core/msg_delivery_control.h\<close>,
  \<^verbatim>\<open>msg_delivery_control.cpp\<close>): which sent messages wait for a receipt, when they were sent last and
  how often they may be sent again. The class owns the messages by pointer, so a message is an
  address of a heap here; \<open>delete\<close> empties the address and using it afterwards is the fault
  \<open>UseAfterFree\<close>. \<open>dc_items\<close> is the chain of nodes from \<open>last\<close> on; a node is its position in it, which
  is enough as nodes are only reached by walking the chain. \<open>now\<close> is the value of \<^verbatim>\<open>time(0)\<close>.
\<close>

section \<open>Data\<close>

type_synonym msg_heap = "nat \<Rightarrow> Message option"

record DeliveryItem =
  di_msg :: nat
  di_last_send_time :: int
  di_resend_cnt :: int

record MsgDeliveryControl =
  dc_items :: "DeliveryItem list"
  dc_size :: int
  dc_resend_cnt :: int
  dc_resend_time :: int

definition DEFAULT_RESEND_CNT :: int where "DEFAULT_RESEND_CNT = 3"
definition DEFAULT_RESEND_TIME :: int where "DEFAULT_RESEND_TIME = 10"

definition mk_delivery :: "int \<Rightarrow> int \<Rightarrow> MsgDeliveryControl" where
  "mk_delivery p_resend p_resend_time =
     \<lparr>dc_items = [], dc_size = 0, dc_resend_cnt = p_resend, dc_resend_time = p_resend_time\<rparr>"

section \<open>Finding a message\<close>

fun find_walk :: "DeliveryItem list \<Rightarrow> nat \<Rightarrow> nat \<Rightarrow> nat option" where
  "find_walk [] i a = None"
| "find_walk (it # its) i a = (if di_msg it = a then Some i else find_walk its (Suc i) a)"

definition dc_find :: "MsgDeliveryControl \<Rightarrow> nat option \<Rightarrow> nat option" where
  "dc_find dc msg = (case msg of None \<Rightarrow> None | Some a \<Rightarrow> find_walk (dc_items dc) 0 a)"

text \<open>The search by number reads every message on its way.\<close>

fun find_id_walk :: "msg_heap \<Rightarrow> DeliveryItem list \<Rightarrow> nat \<Rightarrow> int \<Rightarrow> nat option res" where
  "find_id_walk h [] i mid = Inr None"
| "find_id_walk h (it # its) i mid =
     (case h (di_msg it) of
        None \<Rightarrow> Inl UseAfterFree
      | Some m \<Rightarrow> (if msg_id m = mid then Inr (Some i) else find_id_walk h its (Suc i) mid))"

definition dc_find_id :: "msg_heap \<Rightarrow> MsgDeliveryControl \<Rightarrow> int \<Rightarrow> nat option res" where
  "dc_find_id h dc mid = find_id_walk h (dc_items dc) 0 mid"

definition under_control :: "MsgDeliveryControl \<Rightarrow> nat option \<Rightarrow> bool" where
  "under_control dc msg = (dc_find dc msg \<noteq> None)"

definition under_control_id :: "msg_heap \<Rightarrow> MsgDeliveryControl \<Rightarrow> int \<Rightarrow> bool res" where
  "under_control_id h dc mid = rbind (dc_find_id h dc mid) (\<lambda>p. Inr (p \<noteq> None))"

definition dc_find_msg :: "MsgDeliveryControl \<Rightarrow> nat option \<Rightarrow> nat option" where
  "dc_find_msg dc msg = (case dc_find dc msg of None \<Rightarrow> None | Some i \<Rightarrow> Some (di_msg (dc_items dc ! i)))"

section \<open>Adding and removing\<close>

definition dc_add :: "int \<Rightarrow> nat option \<Rightarrow> MsgDeliveryControl \<Rightarrow> MsgDeliveryControl" where
  "dc_add now msg dc =
     (case msg of
        None \<Rightarrow> dc
      | Some a \<Rightarrow>
          (if under_control dc (Some a) then dc
           else dc\<lparr>dc_items := \<lparr>di_msg = a, di_last_send_time = now, di_resend_cnt = dc_resend_cnt dc\<rparr> # dc_items dc,
                   dc_size := dc_size dc + 1\<rparr>))"

text \<open>\<open>_remove_msg\<close> deletes the message and then unlinks and deletes the node.\<close>

definition remove_msg :: "nat \<Rightarrow> msg_heap \<Rightarrow> MsgDeliveryControl \<Rightarrow> (msg_heap \<times> MsgDeliveryControl) res" where
  "remove_msg i h dc =
     (if i \<ge> length (dc_items dc) then Inl UseAfterFree
      else
        (let a = di_msg (dc_items dc ! i) in
         case h a of
           None \<Rightarrow> Inl UseAfterFree
         | Some _ \<Rightarrow> Inr (h(a := None),
                          dc\<lparr>dc_items := take i (dc_items dc) @ drop (Suc i) (dc_items dc),
                             dc_size := dc_size dc - 1\<rparr>)))"

definition dc_remove :: "nat option \<Rightarrow> msg_heap \<Rightarrow> MsgDeliveryControl \<Rightarrow> (bool \<times> msg_heap \<times> MsgDeliveryControl) res" where
  "dc_remove msg h dc =
     (case dc_find dc msg of
        None \<Rightarrow> Inr (False, h, dc)
      | Some i \<Rightarrow> rbind (remove_msg i h dc) (\<lambda>(h', dc'). Inr (True, h', dc')))"

definition dc_remove_id :: "int \<Rightarrow> msg_heap \<Rightarrow> MsgDeliveryControl \<Rightarrow> (bool \<times> msg_heap \<times> MsgDeliveryControl) res" where
  "dc_remove_id mid h dc =
     rbind (dc_find_id h dc mid) (\<lambda>p.
       case p of
         None \<Rightarrow> Inr (False, h, dc)
       | Some i \<Rightarrow> rbind (remove_msg i h dc) (\<lambda>(h', dc'). Inr (True, h', dc')))"

text \<open>A receipt is handed over as its message; a null pointer is \<open>None\<close>.\<close>

definition process_check :: "int option \<Rightarrow> msg_heap \<Rightarrow> MsgDeliveryControl \<Rightarrow> (bool \<times> msg_heap \<times> MsgDeliveryControl) res" where
  "process_check req_msg_id h dc =
     (case req_msg_id of None \<Rightarrow> Inr (False, h, dc) | Some mid \<Rightarrow> dc_remove_id mid h dc)"

definition dc_decrease :: "int \<Rightarrow> nat option \<Rightarrow> MsgDeliveryControl \<Rightarrow> MsgDeliveryControl" where
  "dc_decrease now msg dc =
     (case dc_find dc msg of
        None \<Rightarrow> dc
      | Some i \<Rightarrow> dc\<lparr>dc_items := (dc_items dc)[i := (dc_items dc ! i)\<lparr>di_last_send_time := now,
                       di_resend_cnt := di_resend_cnt (dc_items dc ! i) - 1\<rparr>]\<rparr>)"

section \<open>Sending again\<close>

definition need_resend :: "MsgDeliveryControl \<Rightarrow> int \<Rightarrow> DeliveryItem \<Rightarrow> bool" where
  "need_resend dc cur_time it =
     (if di_resend_cnt it > 0 then
        (let passed = cur_time - di_last_send_time it in
         if passed > dc_resend_time dc then True else False)
      else False)"

text \<open>
  The walk of \<open>_rm_all_exhausted\<close> over the nodes: after the removal of a node it goes on with the
  \<open>next\<close> member of that node, which has just been deleted.
\<close>

fun rm_exhausted_walk :: "nat \<Rightarrow> nat \<Rightarrow> msg_heap \<Rightarrow> MsgDeliveryControl \<Rightarrow> (msg_heap \<times> MsgDeliveryControl) res" where
  "rm_exhausted_walk 0 i h dc = Inr (h, dc)"
| "rm_exhausted_walk (Suc n) i h dc =
     (if di_resend_cnt (dc_items dc ! i) \<le> 0 then rbind (remove_msg i h dc) (\<lambda>_. Inl UseAfterFree)
      else rm_exhausted_walk n (Suc i) h dc)"

definition rm_all_exhausted :: "msg_heap \<Rightarrow> MsgDeliveryControl \<Rightarrow> (msg_heap \<times> MsgDeliveryControl) res" where
  "rm_all_exhausted h dc = rm_exhausted_walk (length (dc_items dc)) 0 h dc"

text \<open>The loop of \<open>resend\<close> that puts the messages into \<open>ret\<close>.\<close>

fun resend_walk :: "MsgDeliveryControl \<Rightarrow> int \<Rightarrow> DeliveryItem list \<Rightarrow> nat list \<Rightarrow> nat list" where
  "resend_walk dc cur_time [] ret = ret"
| "resend_walk dc cur_time (it # its) ret =
     resend_walk dc cur_time its (if need_resend dc cur_time it then ret @ [di_msg it] else ret)"

definition resend :: "int \<Rightarrow> nat list \<Rightarrow> msg_heap \<Rightarrow> MsgDeliveryControl \<Rightarrow> (nat list \<times> msg_heap \<times> MsgDeliveryControl) res" where
  "resend now ret h dc =
     (let ret' = resend_walk dc now (dc_items dc) ret in
      rbind (rm_all_exhausted h dc) (\<lambda>(h', dc'). Inr (ret', h', dc')))"

definition dc_get_size :: "MsgDeliveryControl \<Rightarrow> int" where
  "dc_get_size dc = dc_size dc"

fun dc_index_walk :: "DeliveryItem list \<Rightarrow> int \<Rightarrow> int \<Rightarrow> nat option" where
  "dc_index_walk [] i idx = None"
| "dc_index_walk (it # its) i idx = (if i = idx then Some (di_msg it) else dc_index_walk its (i + 1) idx)"

definition dc_index :: "MsgDeliveryControl \<Rightarrow> int \<Rightarrow> nat option" where
  "dc_index dc idx =
     (if idx < 0 \<or> idx \<ge> dc_size dc then None else dc_index_walk (dc_items dc) 0 idx)"

section \<open>Invariant\<close>

text \<open>
  The messages under control are alive and distinct, the size is their number, and every one of
  them may be sent again.
\<close>

definition dc_wf :: "msg_heap \<Rightarrow> MsgDeliveryControl \<Rightarrow> bool" where
  "dc_wf h dc \<longleftrightarrow> distinct (map di_msg (dc_items dc)) \<and> dc_size dc = int (length (dc_items dc))
     \<and> (\<forall>it \<in> set (dc_items dc). h (di_msg it) \<noteq> None \<and> 0 < di_resend_cnt it) \<and> 0 < dc_resend_cnt dc"

lemma find_walk_None: "find_walk its i a = None \<longleftrightarrow> a \<notin> di_msg ` set its"
  by (induction its arbitrary: i) auto

lemma find_walk_Some:
  "find_walk its i a = Some j \<Longrightarrow> i \<le> j \<and> j < i + length its \<and> di_msg (its ! (j - i)) = a"
  by (induction its arbitrary: i) (fastforce split: if_splits simp: nth_Cons')+

lemma dc_find_Some: "dc_find dc (Some a) = Some j \<Longrightarrow> j < length (dc_items dc) \<and> di_msg (dc_items dc ! j) = a"
  using find_walk_Some [of "dc_items dc" 0 a j] by (simp add: dc_find_def)

lemma under_control_iff: "under_control dc (Some a) \<longleftrightarrow> a \<in> di_msg ` set (dc_items dc)"
  using find_walk_None [of "dc_items dc" 0 a] by (auto simp: under_control_def dc_find_def)

lemma find_id_walk_alive:
  assumes "\<forall>it \<in> set its. h (di_msg it) \<noteq> None"
  shows "\<exists>p. find_id_walk h its i mid = Inr p \<and>
    (case p of None \<Rightarrow> \<forall>it \<in> set its. msg_id (the (h (di_msg it))) \<noteq> mid
     | Some j \<Rightarrow> i \<le> j \<and> j < i + length its \<and> msg_id (the (h (di_msg (its ! (j - i))))) = mid)"
  using assms
proof (induction its arbitrary: i)
  case (Cons it its)
  obtain m where m: "h (di_msg it) = Some m" using Cons.prems by auto
  show ?case
  proof (cases "msg_id m = mid")
    case True
    then show ?thesis using m by simp
  next
    case False
    obtain p where p: "find_id_walk h its (Suc i) mid = Inr p"
      "case p of None \<Rightarrow> \<forall>it \<in> set its. msg_id (the (h (di_msg it))) \<noteq> mid
       | Some j \<Rightarrow> Suc i \<le> j \<and> j < Suc i + length its \<and> msg_id (the (h (di_msg (its ! (j - Suc i))))) = mid"
      using Cons.IH [of "Suc i"] Cons.prems by auto
    then show ?thesis using m False by (cases p) (auto simp: nth_Cons')
  qed
qed simp

lemma rm_exhausted_none:
  "\<forall>j. i \<le> j \<and> j < i + n \<longrightarrow> 0 < di_resend_cnt (dc_items dc ! j) \<Longrightarrow> rm_exhausted_walk n i h dc = Inr (h, dc)"
  by (induction n arbitrary: i) (fastforce simp: not_le [symmetric])+

lemma rm_exhausted_some:
  assumes "\<exists>j. i \<le> j \<and> j < i + n \<and> di_resend_cnt (dc_items dc ! j) \<le> 0"
  shows "rm_exhausted_walk n i h dc = Inl UseAfterFree"
  using assms
proof (induction n arbitrary: i)
  case (Suc n)
  show ?case
  proof (cases "di_resend_cnt (dc_items dc ! i) \<le> 0")
    case True
    then show ?thesis
      by (cases "remove_msg i h dc") (auto simp: remove_msg_def Let_def split: if_splits option.splits)
  next
    case False
    from Suc.prems obtain j where "i \<le> j" "j < i + Suc n" "di_resend_cnt (dc_items dc ! j) \<le> 0" by blast
    with False have "Suc i \<le> j" "j < Suc i + n" by (auto simp: le_eq_less_or_eq)
    with \<open>di_resend_cnt (dc_items dc ! j) \<le> 0\<close> Suc.IH [of "Suc i"] False show ?thesis by auto
  qed
qed auto

lemma wf_remove_msg:
  assumes "dc_wf h dc" "i < length (dc_items dc)"
  shows "\<exists>h' dc'. remove_msg i h dc = Inr (h', dc') \<and> dc_wf h' dc'
    \<and> h' = h(di_msg (dc_items dc ! i) := None)
    \<and> dc_items dc' = take i (dc_items dc) @ drop (Suc i) (dc_items dc)"
proof -
  let ?it = "dc_items dc ! i"
  have split: "dc_items dc = take i (dc_items dc) @ ?it # drop (Suc i) (dc_items dc)"
    using assms(2) by (rule id_take_nth_drop)
  have alive: "h (di_msg ?it) \<noteq> None" using assms by (simp add: dc_wf_def)
  define xs ys where "xs = take i (dc_items dc)" and "ys = drop (Suc i) (dc_items dc)"
  have items: "dc_items dc = xs @ ?it # ys" using split by (simp add: xs_def ys_def)
  have "distinct (map di_msg (xs @ ?it # ys))" using assms(1) items by (simp add: dc_wf_def)
  moreover have "\<forall>it \<in> set (xs @ ?it # ys). h (di_msg it) \<noteq> None \<and> 0 < di_resend_cnt it"
    using assms(1) items by (metis dc_wf_def)
  moreover have "dc_size dc = int (length (xs @ ?it # ys))" using assms(1) items by (metis dc_wf_def)
  ultimately have "dc_wf (h(di_msg ?it := None)) (dc\<lparr>dc_items := xs @ ys, dc_size := dc_size dc - 1\<rparr>)"
    using assms(1) by (auto simp: dc_wf_def) (metis image_eqI)+
  then show ?thesis
    using assms(2) alive by (auto simp: remove_msg_def Let_def xs_def ys_def split: option.splits)
qed

lemma wf_dc_add:
  "dc_wf h dc \<Longrightarrow> h a \<noteq> None \<Longrightarrow> dc_wf h (dc_add now (Some a) dc)"
  by (auto simp: dc_wf_def dc_add_def under_control_iff)

lemma wf_dc_decrease:
  assumes "dc_wf h dc" "\<And>it. it \<in> set (dc_items dc) \<Longrightarrow> di_msg it = a \<Longrightarrow> 1 < di_resend_cnt it"
  shows "dc_wf h (dc_decrease now (Some a) dc)"
proof (cases "dc_find dc (Some a)")
  case None
  then show ?thesis using assms(1) by (simp add: dc_decrease_def)
next
  case (Some i)
  define it where "it = dc_items dc ! i"
  have i: "i < length (dc_items dc)" "di_msg it = a" using dc_find_Some [OF Some] by (simp_all add: it_def)
  let ?it = "it\<lparr>di_last_send_time := now, di_resend_cnt := di_resend_cnt it - 1\<rparr>"
  have "it \<in> set (dc_items dc)" using i by (simp add: it_def)
  with assms i have it: "1 < di_resend_cnt it" "h (di_msg it) \<noteq> None" by (auto simp: dc_wf_def)
  have "map di_msg ((dc_items dc)[i := ?it]) = map di_msg (dc_items dc)"
    using i(1) by (simp add: map_update it_def) (metis length_map list_update_id nth_map)
  then have d: "distinct (map di_msg ((dc_items dc)[i := ?it]))"
    using assms(1) by (metis dc_wf_def)
  have "\<forall>x \<in> set ((dc_items dc)[i := ?it]). h (di_msg x) \<noteq> None \<and> 0 < di_resend_cnt x"
    using assms(1) it by (auto simp: dc_wf_def dest!: set_update_subset_insert [THEN subsetD])
  with d show ?thesis using assms(1) Some by (simp add: dc_wf_def dc_decrease_def it_def)
qed

lemma resend_walk_filter: "resend_walk dc t its ret = ret @ map di_msg (filter (need_resend dc t) its)"
  by (induction its arbitrary: ret) auto

lemma rm_all_exhausted_iff:
  "rm_all_exhausted h dc = (if \<exists>it \<in> set (dc_items dc). di_resend_cnt it \<le> 0 then Inl UseAfterFree else Inr (h, dc))"
proof (cases "\<exists>it \<in> set (dc_items dc). di_resend_cnt it \<le> 0")
  case True
  then have "\<exists>j < length (dc_items dc). di_resend_cnt (dc_items dc ! j) \<le> 0" by (metis in_set_conv_nth)
  then show ?thesis using True rm_exhausted_some [of 0 "length (dc_items dc)" dc h] by (auto simp: rm_all_exhausted_def)
next
  case False
  then have "\<forall>j < length (dc_items dc). 0 < di_resend_cnt (dc_items dc ! j)" by (meson not_le nth_mem)
  then show ?thesis using False rm_exhausted_none [of 0 "length (dc_items dc)" dc h] by (simp add: rm_all_exhausted_def)
qed

definition is_overdue :: "MsgDeliveryControl \<Rightarrow> int \<Rightarrow> DeliveryItem \<Rightarrow> bool" where
  "is_overdue dc now it \<longleftrightarrow> now - di_last_send_time it > dc_resend_time dc"

lemma need_resend_iff: "need_resend dc now it \<longleftrightarrow> 0 < di_resend_cnt it \<and> is_overdue dc now it"
  by (simp add: need_resend_def is_overdue_def)

lemma resend_iff:
  "resend now ret h dc =
     (if \<exists>it \<in> set (dc_items dc). di_resend_cnt it \<le> 0 then Inl UseAfterFree
      else Inr (ret @ map di_msg (filter (is_overdue dc now) (dc_items dc)), h, dc))"
proof -
  have "filter (need_resend dc now) (dc_items dc) = filter (is_overdue dc now) (dc_items dc)"
    if "\<not> (\<exists>it \<in> set (dc_items dc). di_resend_cnt it \<le> 0)"
    using that by (intro filter_cong) (auto simp: need_resend_iff)
  then show ?thesis by (simp add: resend_def resend_walk_filter rm_all_exhausted_iff Let_def)
qed

lemma wf_resend:
  "dc_wf h dc \<Longrightarrow> resend now ret h dc
    = Inr (ret @ map di_msg (filter (need_resend dc now) (dc_items dc)), h, dc)"
  by (simp add: resend_def resend_walk_filter Let_def rm_all_exhausted_def rm_exhausted_none dc_wf_def)

lemma process_check_wf:
  assumes "dc_wf h dc"
  shows "\<exists>b h' dc'. process_check (Some mid) h dc = Inr (b, h', dc') \<and> dc_wf h' dc'
    \<and> b = (mid \<in> (\<lambda>it. msg_id (the (h (di_msg it)))) ` set (dc_items dc))
    \<and> (if b then \<exists>xs it ys. dc_items dc = xs @ it # ys \<and> dc_items dc' = xs @ ys
                  \<and> msg_id (the (h (di_msg it))) = mid \<and> h' = h(di_msg it := None)
       else dc' = dc \<and> h' = h)"
proof -
  have "\<forall>it \<in> set (dc_items dc). h (di_msg it) \<noteq> None" using assms by (simp add: dc_wf_def)
  from find_id_walk_alive [OF this, of 0 mid] obtain p where
    p: "dc_find_id h dc mid = Inr p"
    "case p of None \<Rightarrow> \<forall>it \<in> set (dc_items dc). msg_id (the (h (di_msg it))) \<noteq> mid
     | Some j \<Rightarrow> j < length (dc_items dc) \<and> msg_id (the (h (di_msg (dc_items dc ! j)))) = mid"
    by (auto simp: dc_find_id_def split: option.splits)
  show ?thesis
  proof (cases p)
    case None
    then show ?thesis using p assms by (auto simp: process_check_def dc_remove_id_def)
  next
    case (Some j)
    then have j: "j < length (dc_items dc)" "msg_id (the (h (di_msg (dc_items dc ! j)))) = mid"
      using p(2) by simp_all
    from wf_remove_msg [OF assms j(1)] obtain h' dc' where r: "remove_msg j h dc = Inr (h', dc')"
      "dc_wf h' dc'" "h' = h(di_msg (dc_items dc ! j) := None)"
      "dc_items dc' = take j (dc_items dc) @ drop (Suc j) (dc_items dc)" by blast
    have "process_check (Some mid) h dc = Inr (True, h', dc')"
      using p(1) Some r(1) by (simp add: process_check_def dc_remove_id_def)
    moreover have "mid \<in> (\<lambda>it. msg_id (the (h (di_msg it)))) ` set (dc_items dc)"
      using j by (metis (no_types, lifting) image_eqI nth_mem)
    ultimately show ?thesis
      using r j id_take_nth_drop [OF j(1)] by (intro exI conjI) (auto intro!: exI)
  qed
qed

section \<open>The attempts to send a message\<close>

text \<open>
  Rounds at the times of a list: what \<open>resend\<close> has found is written again, as \<open>write_msg\<close> does, and
  no receipt comes. The result is what every round found.
\<close>

fun resend_rounds :: "int list \<Rightarrow> msg_heap \<Rightarrow> MsgDeliveryControl \<Rightarrow> (nat list list \<times> MsgDeliveryControl) res" where
  "resend_rounds [] h dc = Inr ([], dc)"
| "resend_rounds (t # ts) h dc =
     rbind (resend t [] h dc) (\<lambda>(ret, h', dc').
     rbind (resend_rounds ts h' (foldl (\<lambda>dc a. dc_decrease t (Some a) dc) dc' ret)) (\<lambda>(rs, dc'').
       Inr (ret # rs, dc'')))"

text \<open>The times of a list at which a message is due that was sent last at \<open>t0\<close>.\<close>

fun due_times :: "int \<Rightarrow> int \<Rightarrow> int list \<Rightarrow> int list" where
  "due_times r t0 [] = []"
| "due_times r t0 (t # ts) = (if t - t0 > r then t # due_times r t ts else due_times r t0 ts)"

text \<open>The times of the rounds that found a message.\<close>

definition found_at :: "nat \<Rightarrow> int list \<Rightarrow> nat list list \<Rightarrow> int list" where
  "found_at a ts rs = map fst (filter (\<lambda>(t, r). a \<in> set r) (zip ts rs))"

definition rewritten :: "int \<Rightarrow> DeliveryItem \<Rightarrow> DeliveryItem" where
  "rewritten t it = it\<lparr>di_last_send_time := t, di_resend_cnt := di_resend_cnt it - 1\<rparr>"

lemma rewritten_sel [simp]: "di_msg (rewritten t it) = di_msg it" "di_last_send_time (rewritten t it) = t"
  "di_resend_cnt (rewritten t it) = di_resend_cnt it - 1"
  by (simp_all add: rewritten_def)

definition write_again :: "int \<Rightarrow> nat set \<Rightarrow> MsgDeliveryControl \<Rightarrow> MsgDeliveryControl" where
  "write_again t s dc = dc\<lparr>dc_items := map (\<lambda>it. if di_msg it \<in> s then rewritten t it else it) (dc_items dc)\<rparr>"

lemma write_again_sel [simp]:
  "dc_items (write_again t s dc) = map (\<lambda>it. if di_msg it \<in> s then rewritten t it else it) (dc_items dc)"
  "dc_resend_time (write_again t s dc) = dc_resend_time dc"
  "map di_msg (dc_items (write_again t s dc)) = map di_msg (dc_items dc)"
  by (simp_all add: write_again_def)

lemma decrease_write_again:
  assumes "distinct (map di_msg (dc_items dc))"
  shows "dc_decrease t (Some a) dc = write_again t {a} dc"
proof (cases "dc_find dc (Some a)")
  case None
  then have "a \<notin> di_msg ` set (dc_items dc)" using under_control_iff [of dc a] by (simp add: under_control_def)
  then have "map (\<lambda>it. if di_msg it \<in> {a} then rewritten t it else it) (dc_items dc) = dc_items dc"
    by (intro map_idI) auto
  then show ?thesis using None by (simp add: dc_decrease_def write_again_def)
next
  case (Some i)
  then have i: "i < length (dc_items dc)" "di_msg (dc_items dc ! i) = a" using dc_find_Some by auto
  have "(dc_items dc)[i := rewritten t (dc_items dc ! i)] = map (\<lambda>it. if di_msg it \<in> {a} then rewritten t it else it) (dc_items dc)"
    using i assms by (intro nth_equalityI) (auto simp: nth_list_update distinct_conv_nth)
  then show ?thesis using Some by (simp add: dc_decrease_def write_again_def rewritten_def)
qed

lemma decrease_all:
  assumes "distinct (map di_msg (dc_items dc))" "distinct as"
  shows "foldl (\<lambda>dc a. dc_decrease t (Some a) dc) dc as = write_again t (set as) dc"
  using assms
proof (induction as arbitrary: dc)
  case Nil
  then show ?case by (simp add: write_again_def)
next
  case (Cons a as)
  have "write_again t (set as) (write_again t {a} dc) = write_again t (set (a # as)) dc"
    using Cons.prems(2) by (auto simp: write_again_def)
  then show ?case
    using Cons.IH [of "write_again t {a} dc"] Cons.prems by (simp add: decrease_write_again del: write_again_sel(1))
qed

lemma attempts_step:
  assumes "distinct (map di_msg (dc_items dc))" "\<forall>it \<in> set (dc_items dc). 0 < di_resend_cnt it"
  shows "resend_rounds (t # ts) h dc =
    rbind (resend_rounds ts h (dc\<lparr>dc_items := map (\<lambda>it. if is_overdue dc t it then rewritten t it else it) (dc_items dc)\<rparr>))
      (\<lambda>(rs, dc'). Inr (map di_msg (filter (is_overdue dc t) (dc_items dc)) # rs, dc'))"
proof -
  let ?as = "map di_msg (filter (is_overdue dc t) (dc_items dc))"
  have "(di_msg it \<in> set ?as) = is_overdue dc t it" if "it \<in> set (dc_items dc)" for it
    using that assms(1) by (auto simp: distinct_map dest: inj_onD)
  then have "map (\<lambda>it. if di_msg it \<in> set ?as then rewritten t it else it) (dc_items dc)
      = map (\<lambda>it. if is_overdue dc t it then rewritten t it else it) (dc_items dc)" by (intro map_cong) simp_all
  then have "foldl (\<lambda>dc a. dc_decrease t (Some a) dc) dc ?as
      = dc\<lparr>dc_items := map (\<lambda>it. if is_overdue dc t it then rewritten t it else it) (dc_items dc)\<rparr>"
    using decrease_all [OF assms(1), of ?as t] assms(1) by (simp add: distinct_map_filter write_again_def)
  moreover have "resend t [] h dc = Inr (?as, h, dc)" using assms(2) by (auto simp: resend_iff)
  ultimately show ?thesis by simp
qed

lemma attempts_due:
  assumes "distinct (map di_msg (dc_items dc))"
  shows "if \<exists>it \<in> set (dc_items dc). di_resend_cnt it \<le> int (length (due_times (dc_resend_time dc) (di_last_send_time it) ts))
    then resend_rounds (ts @ [t]) h dc = Inl UseAfterFree
    else ok_with (\<lambda>(rs, _). length rs = Suc (length ts) \<and> (\<forall>it \<in> set (dc_items dc).
        found_at (di_msg it) (ts @ [t]) rs = due_times (dc_resend_time dc) (di_last_send_time it) (ts @ [t])))
      (resend_rounds (ts @ [t]) h dc)"
  using assms
proof (induction ts arbitrary: dc)
  case Nil
  show ?case
    by (auto simp: resend_iff found_at_def is_overdue_def) (use Nil in \<open>auto simp: distinct_map dest: inj_onD\<close>)
next
  case (Cons t' ts)
  let ?r = "dc_resend_time dc"
  let ?f = "\<lambda>it. if is_overdue dc t' it then rewritten t' it else it"
  let ?dc = "dc\<lparr>dc_items := map ?f (dc_items dc)\<rparr>"
  show ?case
  proof (cases "\<exists>it \<in> set (dc_items dc). di_resend_cnt it \<le> 0")
    case True
    then have "\<exists>it \<in> set (dc_items dc). di_resend_cnt it \<le> int (length (due_times ?r (di_last_send_time it) (t' # ts)))"
      by (meson of_nat_0_le_iff order_trans)
    moreover have "resend_rounds ((t' # ts) @ [t]) h dc = Inl UseAfterFree" using True by (simp add: resend_iff)
    ultimately show ?thesis by simp
  next
    case False
    then have pos: "\<forall>it \<in> set (dc_items dc). 0 < di_resend_cnt it" by auto
    note step = attempts_step [OF Cons.prems pos, of t' "ts @ [t]" h]
    have m: "di_msg (?f it) = di_msg it" for it by simp
    have "map di_msg (dc_items ?dc) = map di_msg (dc_items dc)" by simp
    then have d: "distinct (map di_msg (dc_items ?dc))" using Cons.prems by metis
    have dsel: "dc_items ?dc = map ?f (dc_items dc)" "dc_resend_time ?dc = ?r" by simp_all
    have due: "due_times ?r (di_last_send_time it) (t' # us) =
        (if is_overdue dc t' it then t' # due_times ?r (di_last_send_time (?f it)) us else due_times ?r (di_last_send_time (?f it)) us)"
      for it us by (simp add: is_overdue_def)
    have "di_resend_cnt it \<le> int (length (due_times ?r (di_last_send_time it) (t' # ts)))
        \<longleftrightarrow> di_resend_cnt (?f it) \<le> int (length (due_times ?r (di_last_send_time (?f it)) ts))" for it
      unfolding due by auto
    then have ex: "(\<exists>it \<in> set (dc_items dc). di_resend_cnt it \<le> int (length (due_times ?r (di_last_send_time it) (t' # ts))))
        \<longleftrightarrow> (\<exists>it \<in> set (dc_items ?dc). di_resend_cnt it \<le> int (length (due_times (dc_resend_time ?dc) (di_last_send_time it) ts)))"
      unfolding dsel list.set_map bex_simps(7) by (rule bex_cong [OF refl])
    show ?thesis
    proof (cases "\<exists>it \<in> set (dc_items ?dc). di_resend_cnt it \<le> int (length (due_times (dc_resend_time ?dc) (di_last_send_time it) ts))")
      case True
      then have "resend_rounds (ts @ [t]) h ?dc = Inl UseAfterFree" using Cons.IH [OF d] by (simp only: if_True)
      then have "resend_rounds ((t' # ts) @ [t]) h dc = Inl UseAfterFree" using step by simp
      then show ?thesis using True ex by (simp only: if_True)
    next
      case False
      then obtain rs dc' where rs: "resend_rounds (ts @ [t]) h ?dc = Inr (rs, dc')" "length rs = Suc (length ts)"
        "\<forall>it \<in> set (dc_items ?dc). found_at (di_msg it) (ts @ [t]) rs = due_times ?r (di_last_send_time it) (ts @ [t])"
        using Cons.IH [OF d] by (auto dest!: ok_withD)
      let ?as = "map di_msg (filter (is_overdue dc t') (dc_items dc))"
      have "found_at (di_msg it) ((t' # ts) @ [t]) (?as # rs) = due_times ?r (di_last_send_time it) ((t' # ts) @ [t])"
        if it: "it \<in> set (dc_items dc)" for it
      proof -
        have "(di_msg it \<in> set ?as) = is_overdue dc t' it" using it Cons.prems by (auto simp: distinct_map dest: inj_onD)
        moreover have "?f it \<in> set (dc_items ?dc)" unfolding dsel list.set_map using it by (rule imageI)
        from bspec [OF rs(3) this]
        have "found_at (di_msg it) (ts @ [t]) rs = due_times ?r (di_last_send_time (?f it)) (ts @ [t])" unfolding m .
        ultimately show ?thesis using due [of it "ts @ [t]"] by (simp add: found_at_def del: due_times.simps)
      qed
      then have "ok_with (\<lambda>(rs, _). length rs = Suc (length (t' # ts)) \<and> (\<forall>it \<in> set (dc_items dc).
          found_at (di_msg it) ((t' # ts) @ [t]) rs = due_times ?r (di_last_send_time it) ((t' # ts) @ [t])))
        (resend_rounds ((t' # ts) @ [t]) h dc)"
        using step rs(1,2) by simp
      then show ?thesis using False ex by (simp only: if_False)
    qed
  qed
qed

section \<open>Properties\<close>

definition sample_heap :: msg_heap where
  "sample_heap = (\<lambda>_. None)(0 := Some \<lparr>msg_id = 5, msg_body = StopPreparationMsg\<rparr>,
     1 := Some \<lparr>msg_id = 6, msg_body = StopTurnMsg True\<rparr>)"

definition sample_delivery :: MsgDeliveryControl where
  "sample_delivery = dc_add 140 (Some 1) (dc_add 100 (Some 0) (mk_delivery 3 10))"

lemma wf_sample_control: "dc_wf sample_heap sample_delivery"
  by (simp add: dc_wf_def sample_heap_def sample_delivery_def dc_add_def mk_delivery_def
    under_control_iff)

text \<open>
  C30. A receipt ends the control of exactly the message with its number: the message is deleted
  and leaves the chain, every other message stays alive and under control, and the answer tells
  whether there was one.
\<close>

theorem receipt_releases_message:
  assumes "dc_wf h dc"
  shows "\<exists>b h' dc'. process_check (Some mid) h dc = Inr (b, h', dc') \<and> dc_wf h' dc'
    \<and> b = (mid \<in> (\<lambda>it. msg_id (the (h (di_msg it)))) ` set (dc_items dc))
    \<and> (if b then \<exists>xs it ys. dc_items dc = xs @ it # ys \<and> dc_items dc' = xs @ ys
                  \<and> msg_id (the (h (di_msg it))) = mid \<and> h' = h(di_msg it := None)
       else dc' = dc \<and> h' = h)"
  using assms by (rule process_check_wf)

theorem receipt_releases_message_witness:
  "\<exists>b h' dc'. process_check (Some 5) sample_heap sample_delivery = Inr (b, h', dc') \<and> dc_wf h' dc' \<and> b"
  using receipt_releases_message [OF wf_sample_control, of 5]
  by (auto simp: sample_heap_def sample_delivery_def dc_add_def mk_delivery_def under_control_iff)

text \<open>
  C31. Messages are sent again when they are due, as often as they may, and then badly. One call puts
  every message that has attempts left and whose last attempt lies more than the resend time back
  behind those in \<open>ret\<close>, in the order of the chain; it faults exactly when a message under control
  has no attempt left, as the node of this message is used after it was deleted. Over any rounds at
  which the messages found are written again, without receipts, every message is found exactly at
  the times it is due, as long as no message was found as often as it had attempts; from the next
  round on there is the fault.
\<close>

theorem resend_selects_overdue:
  assumes "distinct (map di_msg (dc_items dc))"
  shows "resend_walk dc now (dc_items dc) ret
      = ret @ map di_msg (filter (\<lambda>it. 0 < di_resend_cnt it \<and> is_overdue dc now it) (dc_items dc))
    \<and> resend now ret h dc = (if \<exists>it \<in> set (dc_items dc). di_resend_cnt it \<le> 0 then Inl UseAfterFree
        else Inr (ret @ map di_msg (filter (is_overdue dc now) (dc_items dc)), h, dc))
    \<and> (if \<exists>it \<in> set (dc_items dc). di_resend_cnt it \<le> int (length (due_times (dc_resend_time dc) (di_last_send_time it) ts))
       then resend_rounds (ts @ [t]) h dc = Inl UseAfterFree
       else ok_with (\<lambda>(rs, _). \<forall>it \<in> set (dc_items dc).
           found_at (di_msg it) (ts @ [t]) rs = due_times (dc_resend_time dc) (di_last_send_time it) (ts @ [t]))
         (resend_rounds (ts @ [t]) h dc))"
proof -
  have "need_resend dc now = (\<lambda>it. 0 < di_resend_cnt it \<and> is_overdue dc now it)" by (simp add: need_resend_iff fun_eq_iff)
  then have "resend_walk dc now (dc_items dc) ret
      = ret @ map di_msg (filter (\<lambda>it. 0 < di_resend_cnt it \<and> is_overdue dc now it) (dc_items dc))"
    by (simp add: resend_walk_filter)
  then show ?thesis
    using attempts_due [OF assms, of ts t h] by (auto simp: resend_iff dest!: ok_withD split: if_splits)
qed

text \<open>Three more attempts, and the fault after them.\<close>

theorem resend_selects_overdue_witness:
  "resend 111 [7] sample_heap sample_delivery = Inr ([7, 0], sample_heap, sample_delivery)
    \<and> resend_rounds [110, 111, 122, 133, 134] sample_heap sample_delivery = Inl UseAfterFree
    \<and> (\<exists>rs dc. resend_rounds [110, 111, 122, 133] sample_heap sample_delivery = Inr (rs, dc)
        \<and> found_at 0 [110, 111, 122, 133] rs = [111, 122, 133])"
proof -
  have d: "dc_items sample_delivery = [\<lparr>di_msg = 1, di_last_send_time = 140, di_resend_cnt = 3\<rparr>,
      \<lparr>di_msg = 0, di_last_send_time = 100, di_resend_cnt = 3\<rparr>]" "dc_resend_time sample_delivery = 10"
    by (simp_all add: sample_delivery_def dc_add_def mk_delivery_def under_control_iff)
  note t = resend_selects_overdue [of sample_delivery 111 "[7]" sample_heap]
  show ?thesis
    using t [of "[110, 111, 122, 133]" 134] t [of "[110, 111, 122]" 133]
    by (auto simp: d is_overdue_def dest!: ok_withD)
qed

end
