(* ===== verification/ClientArray.thy ===== *)
theory ClientArray
  imports Prelude
begin

text \<open>
  The array of client pointers of fixed size the server keeps its clients in
  (\<^verbatim>\<open>src/server/client_array.h\<close>, \<^verbatim>\<open>client_array.cpp\<close>). A pointer is an address, the null pointer is
  \<open>None\<close>; \<open>ca_clients\<close> has \<open>ca_size\<close> elements.
\<close>

section \<open>Data\<close>

record ClientArray =
  ca_count :: int
  ca_size :: int
  ca_clients :: "nat option list"

definition mk_client_array :: "int \<Rightarrow> ClientArray" where
  "mk_client_array p_size =
     (let sz = (if p_size < 0 then 0 else p_size) in
      \<lparr>ca_count = 0, ca_size = sz, ca_clients = replicate (nat sz) None\<rparr>)"

section \<open>Operations\<close>

definition ca_index :: "ClientArray \<Rightarrow> int \<Rightarrow> nat option" where
  "ca_index ca index =
     (if index < 0 \<or> index \<ge> ca_size ca then None else ca_clients ca ! nat index)"

fun free_pos_walk :: "nat option list \<Rightarrow> int \<Rightarrow> int" where
  "free_pos_walk [] i = -1"
| "free_pos_walk (None # cs) i = i"
| "free_pos_walk (Some c # cs) i = free_pos_walk cs (i + 1)"

definition find_free_pos :: "ClientArray \<Rightarrow> int" where
  "find_free_pos ca = (if ca_size ca \<le> 0 then -1 else free_pos_walk (ca_clients ca) 0)"

definition ca_add :: "ClientArray \<Rightarrow> nat option \<Rightarrow> bool \<times> ClientArray" where
  "ca_add ca p_client =
     (case p_client of
        None \<Rightarrow> (False, ca)
      | Some c \<Rightarrow>
          (let pos = find_free_pos ca in
           if pos \<noteq> -1 then
             (True, ca\<lparr>ca_clients := (ca_clients ca)[nat pos := Some c], ca_count := ca_count ca + 1\<rparr>)
           else (False, ca)))"

fun position_walk :: "nat option list \<Rightarrow> nat \<Rightarrow> nat \<Rightarrow> nat option" where
  "position_walk [] i c = None"
| "position_walk (x # xs) i c = (if x = Some c then Some i else position_walk xs (Suc i) c)"

definition ca_remove :: "ClientArray \<Rightarrow> nat option \<Rightarrow> ClientArray" where
  "ca_remove ca p_client =
     (case p_client of
        None \<Rightarrow> ca
      | Some c \<Rightarrow>
          (case position_walk (ca_clients ca) 0 c of
             None \<Rightarrow> ca
           | Some i \<Rightarrow> ca\<lparr>ca_clients := (ca_clients ca)[i := None], ca_count := ca_count ca - 1\<rparr>))"

definition ca_get_count :: "ClientArray \<Rightarrow> int" where
  "ca_get_count ca = ca_count ca"

definition ca_get_size :: "ClientArray \<Rightarrow> int" where
  "ca_get_size ca = ca_size ca"

definition is_full :: "ClientArray \<Rightarrow> bool" where
  "is_full ca = (\<not> list_ex (\<lambda>x. x = None) (ca_clients ca))"

definition ca_contains :: "ClientArray \<Rightarrow> nat option \<Rightarrow> bool" where
  "ca_contains ca p_client =
     (case p_client of None \<Rightarrow> False | Some c \<Rightarrow> list_ex (\<lambda>x. x = Some c) (ca_clients ca))"

section \<open>The set of clients\<close>

definition ca_set :: "ClientArray \<Rightarrow> nat set" where
  "ca_set ca = {c. Some c \<in> set (ca_clients ca)}"

definition occupied :: "nat option list \<Rightarrow> nat list" where
  "occupied xs = map the (filter (\<lambda>x. x \<noteq> None) xs)"

text \<open>The count is the number of clients in the array, and no client is in it twice.\<close>

definition ca_wf :: "ClientArray \<Rightarrow> bool" where
  "ca_wf ca \<longleftrightarrow> ca_size ca = int (length (ca_clients ca)) \<and> distinct (occupied (ca_clients ca))
     \<and> ca_count ca = int (length (occupied (ca_clients ca)))"

lemma set_occupied: "set (occupied xs) = {c. Some c \<in> set xs}"
  by (force simp: occupied_def)

lemma ca_set_occupied: "ca_set ca = set (occupied (ca_clients ca))"
  by (simp add: ca_set_def set_occupied)

lemma occupied_simps [simp]:
  "occupied [] = []" "occupied (None # xs) = occupied xs" "occupied (Some c # xs) = c # occupied xs"
  "occupied (xs @ ys) = occupied xs @ occupied ys"
  by (simp_all add: occupied_def)

lemma length_occupied_le: "length (occupied xs) \<le> length xs"
  by (simp add: occupied_def)

lemma free_pos_walk_iff:
  "(free_pos_walk xs i = -1 \<and> None \<notin> set xs) \<or>
   (i \<le> free_pos_walk xs i \<and> (\<exists>ys zs. xs = ys @ None # zs \<and> None \<notin> set ys
      \<and> free_pos_walk xs i = i + int (length ys)))"
proof (induction xs i rule: free_pos_walk.induct)
  case (2 cs i)
  then show ?case by (intro disjI2) (auto intro!: exI [of _ "[]"])
next
  case (3 c cs i)
  then show ?case
  proof (elim disjE conjE exE)
    fix ys zs
    assume "cs = ys @ None # zs" "None \<notin> set ys" "i + 1 \<le> free_pos_walk cs (i + 1)"
      "free_pos_walk cs (i + 1) = i + 1 + int (length ys)"
    then show ?thesis
      by (intro disjI2 conjI, simp, intro exI [of _ "Some c # ys"] exI [of _ zs]) simp
  qed simp
qed simp

lemma find_free_pos_cases:
  assumes "ca_wf ca"
  obtains "find_free_pos ca = -1" "None \<notin> set (ca_clients ca)"
  | ys zs where "ca_clients ca = ys @ None # zs" "find_free_pos ca = int (length ys)" "None \<notin> set ys"
proof (cases "ca_size ca \<le> 0")
  case True
  then have "ca_clients ca = []" using assms by (simp add: ca_wf_def)
  then show ?thesis using True that(1) by (simp add: find_free_pos_def)
next
  case False
  then have "find_free_pos ca = free_pos_walk (ca_clients ca) 0" by (simp add: find_free_pos_def)
  then show ?thesis using free_pos_walk_iff [of "ca_clients ca" 0] that by fastforce
qed

lemma is_full_iff: "is_full ca \<longleftrightarrow> None \<notin> set (ca_clients ca)"
  by (auto simp: is_full_def list_ex_iff)

lemma length_occupied_full: "None \<notin> set xs \<Longrightarrow> length (occupied xs) = length xs"
proof (induction xs)
  case (Cons x xs)
  then show ?case by (cases x) auto
qed simp

lemma full_card:
  assumes "ca_wf ca"
  shows "is_full ca \<longleftrightarrow> card (ca_set ca) = nat (ca_size ca)"
proof -
  have c: "card (ca_set ca) = length (occupied (ca_clients ca))"
    using assms by (simp add: ca_set_occupied ca_wf_def distinct_card)
  have "length (occupied xs) = length xs \<longleftrightarrow> None \<notin> set xs" for xs :: "nat option list"
  proof
    assume "length (occupied xs) = length xs"
    then have "length (filter (\<lambda>x. x \<noteq> None) xs) = length xs" by (simp add: occupied_def)
    then show "None \<notin> set xs" by (metis (mono_tags) length_filter_less less_irrefl)
  qed (rule length_occupied_full)
  with c show ?thesis using assms by (simp add: is_full_iff ca_wf_def)
qed

lemma ca_add_spec:
  assumes "ca_wf ca" "c \<notin> ca_set ca"
  shows "ca_wf (snd (ca_add ca (Some c)))"
    and "fst (ca_add ca (Some c)) \<longleftrightarrow> \<not> is_full ca"
    and "ca_set (snd (ca_add ca (Some c))) = (if is_full ca then ca_set ca else insert c (ca_set ca))"
    and "ca_size (snd (ca_add ca (Some c))) = ca_size ca"
proof -
  have "ca_wf (snd (ca_add ca (Some c))) \<and> (fst (ca_add ca (Some c)) \<longleftrightarrow> \<not> is_full ca)
    \<and> ca_set (snd (ca_add ca (Some c))) = (if is_full ca then ca_set ca else insert c (ca_set ca))
    \<and> ca_size (snd (ca_add ca (Some c))) = ca_size ca"
  proof (rule find_free_pos_cases [OF assms(1)])
    assume "find_free_pos ca = -1" "None \<notin> set (ca_clients ca)"
    then show ?thesis using assms by (simp add: ca_add_def is_full_iff)
  next
    fix ys zs
    assume a: "ca_clients ca = ys @ None # zs" "find_free_pos ca = int (length ys)" "None \<notin> set ys"
    then show ?thesis
      using assms by (auto simp: ca_add_def is_full_iff ca_wf_def ca_set_occupied set_occupied)
  qed
  then show "ca_wf (snd (ca_add ca (Some c)))"
    and "fst (ca_add ca (Some c)) \<longleftrightarrow> \<not> is_full ca"
    and "ca_set (snd (ca_add ca (Some c))) = (if is_full ca then ca_set ca else insert c (ca_set ca))"
    and "ca_size (snd (ca_add ca (Some c))) = ca_size ca" by simp_all
qed

lemma position_walk_cases:
  "(position_walk xs i c = None \<and> Some c \<notin> set xs) \<or>
   (\<exists>ys zs. xs = ys @ Some c # zs \<and> position_walk xs i c = Some (i + length ys))"
proof (induction xs arbitrary: i)
  case (Cons x xs)
  show ?case
  proof (cases "x = Some c")
    case True
    then show ?thesis by (intro disjI2) (auto intro!: exI [of _ "[]"])
  next
    case False
    from Cons [of "Suc i"] show ?thesis
    proof (elim disjE exE conjE)
      fix ys zs assume "xs = ys @ Some c # zs" "position_walk xs (Suc i) c = Some (Suc i + length ys)"
      then show ?thesis using False
        by (intro disjI2, intro exI [of _ "x # ys"] exI [of _ zs]) simp
    qed (use False in auto)
  qed
qed simp

lemma ca_remove_spec:
  assumes "ca_wf ca"
  shows "ca_wf (ca_remove ca (Some c))"
    and "ca_set (ca_remove ca (Some c)) = ca_set ca - {c}"
    and "ca_size (ca_remove ca (Some c)) = ca_size ca"
proof -
  have "ca_wf (ca_remove ca (Some c)) \<and> ca_set (ca_remove ca (Some c)) = ca_set ca - {c}
    \<and> ca_size (ca_remove ca (Some c)) = ca_size ca"
    using position_walk_cases [of "ca_clients ca" 0 c]
  proof (elim disjE exE conjE)
    fix ys zs
    assume a: "ca_clients ca = ys @ Some c # zs" "position_walk (ca_clients ca) 0 c = Some (0 + length ys)"
    then show ?thesis
      using assms by (auto simp: ca_remove_def ca_wf_def ca_set_occupied)
  qed (use assms in \<open>auto simp: ca_remove_def ca_set_def\<close>)
  then show "ca_wf (ca_remove ca (Some c))"
    and "ca_set (ca_remove ca (Some c)) = ca_set ca - {c}"
    and "ca_size (ca_remove ca (Some c)) = ca_size ca" by simp_all
qed

lemma ca_contains_iff: "ca_contains ca (Some c) \<longleftrightarrow> c \<in> ca_set ca"
  by (auto simp: ca_contains_def ca_set_def list_ex_iff)

lemma mk_client_array_spec [simp]:
  "ca_wf (mk_client_array n)" "ca_set (mk_client_array n) = {}" "ca_size (mk_client_array n) = max 0 n"
proof -
  have "occupied (replicate k None) = []" for k by (induction k) auto
  then show "ca_wf (mk_client_array n)" "ca_set (mk_client_array n) = {}"
    "ca_size (mk_client_array n) = max 0 n"
    by (auto simp: mk_client_array_def Let_def ca_wf_def ca_set_occupied)
qed

section \<open>Properties\<close>

text \<open>Adding and removing by the set and the count of the clients.\<close>

lemma client_array_add:
  assumes "ca_wf ca" and "c \<notin> ca_set ca"
  shows "ca_wf (snd (ca_add ca (Some c)))
    \<and> fst (ca_add ca (Some c)) = (card (ca_set ca) < nat (ca_size ca))
    \<and> ca_set (snd (ca_add ca (Some c)))
       = (if card (ca_set ca) < nat (ca_size ca) then insert c (ca_set ca) else ca_set ca)
    \<and> ca_count (snd (ca_add ca (Some c))) = int (card (ca_set (snd (ca_add ca (Some c)))))"
proof -
  have le: "card (ca_set ca) \<le> nat (ca_size ca)"
    using assms(1) length_occupied_le [of "ca_clients ca"]
    by (simp add: ca_wf_def ca_set_occupied distinct_card)
  then have "\<not> is_full ca \<longleftrightarrow> card (ca_set ca) < nat (ca_size ca)"
    using full_card [OF assms(1)] by linarith
  moreover have "ca_count x = int (card (ca_set x))" if "ca_wf x" for x
    using that by (simp add: ca_wf_def ca_set_occupied distinct_card)
  ultimately show ?thesis using ca_add_spec [OF assms] by (cases "is_full ca") simp_all
qed

lemma client_array_remove:
  assumes "ca_wf ca"
  shows "ca_wf (ca_remove ca (Some c)) \<and> ca_set (ca_remove ca (Some c)) = ca_set ca - {c}
    \<and> ca_contains (ca_remove ca (Some c)) (Some c) = False
    \<and> ca_count (ca_remove ca (Some c)) = ca_count ca - (if ca_contains ca (Some c) then 1 else 0)"
proof -
  have n: "ca_count x = int (card (ca_set x))" "finite (ca_set x)" if "ca_wf x" for x
    using that by (simp_all add: ca_wf_def ca_set_occupied distinct_card)
  note r = ca_remove_spec [OF assms, of c]
  have "int (card (ca_set ca - {c})) = int (card (ca_set ca)) - (if c \<in> ca_set ca then 1 else 0)"
  proof (cases "c \<in> ca_set ca")
    case True
    then have "card (ca_set ca) = Suc (card (ca_set ca - {c}))"
      using n(2) [OF assms] by (metis card_Suc_Diff1)
    then show ?thesis using True by simp
  qed simp
  then have "ca_count (ca_remove ca (Some c)) = ca_count ca - (if c \<in> ca_set ca then 1 else 0)"
    using n(1) [OF assms] n(1) [OF r(1)] r(2) by simp
  then show ?thesis using r by (simp add: ca_contains_iff)
qed

text \<open>
  C39. A client array is a set of clients of bounded size. From a well-formed array, adding a new
  client succeeds exactly when the array is not full and adds just this client; removing a client
  takes it out and nothing else, and its place is free for the next client. The array stays
  well-formed and its count remains the number of clients in it.
\<close>

theorem client_array_bounded_set:
  assumes "ca_wf ca" and "c \<notin> ca_set ca"
  shows "ca_wf (snd (ca_add ca (Some c))) \<and> ca_wf (ca_remove ca (Some d))
    \<and> fst (ca_add ca (Some c)) = (card (ca_set ca) < nat (ca_size ca))
    \<and> ca_set (snd (ca_add ca (Some c)))
       = (if card (ca_set ca) < nat (ca_size ca) then insert c (ca_set ca) else ca_set ca)
    \<and> ca_count (snd (ca_add ca (Some c))) = int (card (ca_set (snd (ca_add ca (Some c)))))
    \<and> ca_set (ca_remove ca (Some d)) = ca_set ca - {d}
    \<and> ca_contains (ca_remove ca (Some d)) (Some d) = False
    \<and> ca_count (ca_remove ca (Some d)) = ca_count ca - (if ca_contains ca (Some d) then 1 else 0)"
  using client_array_add [OF assms] client_array_remove [OF assms(1), of d] by blast

theorem client_array_bounded_set_witness:
  "ca_set (snd (ca_add (mk_client_array 10) (Some 4))) = {4} \<and> ca_set (ca_remove (mk_client_array 10) (Some 4)) = {}"
  using client_array_bounded_set [of "mk_client_array 10" 4 4] by simp

end
