(* ===== verification/ClientData.thy ===== *)
theory ClientData
  imports MsgBuffer Delivery
begin

text \<open>
  The server's data of one connected client (\<^verbatim>\<open>src/server/client_data.h\<close>, \<^verbatim>\<open>client_data.cpp\<close>) and its
  operations that touch nothing else: sending, writing and receiving messages and the handling of
  receipts. The handling of the other messages needs the game sessions and is in \<open>BsServer\<close>. The
  messages to send are addresses of the client's message heap, as the delivery control and the
  queue share them; the client's own heap suffices because no message is ever handed to two
  clients. The result of the \<open>k\<close>-th \<^verbatim>\<open>write(2)\<close> of a call is \<open>wr k\<close>.
\<close>

section \<open>Data\<close>

record ClientData =
  cd_session :: "nat option"
  cd_fd :: int
  cd_buf :: MsgBuffer
  cd_heap :: msg_heap
  cd_next_msg :: nat
  cd_to_send :: "nat list"
  cd_to_process :: "Message list"
  cd_delivery :: MsgDeliveryControl

definition mk_client :: ClientData where
  "mk_client = \<lparr>cd_session = None, cd_fd = -1, cd_buf = MsgBuffer_default, cd_heap = (\<lambda>_. None),
     cd_next_msg = 0, cd_to_send = [], cd_to_process = [],
     cd_delivery = mk_delivery DEFAULT_RESEND_CNT DEFAULT_RESEND_TIME\<rparr>"

definition get_fd :: "ClientData \<Rightarrow> int" where
  "get_fd cl = cd_fd cl"

definition set_fd :: "int \<Rightarrow> ClientData \<Rightarrow> ClientData" where
  "set_fd p_fd cl = cl\<lparr>cd_fd := p_fd\<rparr>"

definition get_msg_num :: "int \<Rightarrow> int \<times> int" where
  "get_msg_num msg_num = (msg_num, msg_num + 1)"

definition ready_write :: "ClientData \<Rightarrow> bool" where
  "ready_write cl = (length (cd_to_send cl) \<noteq> 0)"

section \<open>Sending\<close>

text \<open>\<open>new\<close> of a message, and its pointer put at the end of the queue.\<close>

definition send_msg :: "Message option \<Rightarrow> ClientData \<Rightarrow> ClientData" where
  "send_msg msg cl =
     (case msg of
        None \<Rightarrow> cl
      | Some m \<Rightarrow> cl\<lparr>cd_heap := (cd_heap cl)(cd_next_msg cl := Some m),
                     cd_next_msg := Suc (cd_next_msg cl),
                     cd_to_send := cd_to_send cl @ [cd_next_msg cl]\<rparr>)"

definition send_receipt :: "int \<Rightarrow> ClientData \<Rightarrow> ClientData" where
  "send_receipt mid cl = send_msg (Some (new_receipt mid)) cl"

section \<open>Writing\<close>

text \<open>
  The loop of \<open>write_msg\<close>: it takes the messages from the queue until the queue is empty or a
  write fails. The result has the bytes handed to the connection in full, one entry per message,
  the client and the next message number; a write that was not complete is reported by the last
  component of the loop with the message back at the end of the queue.
\<close>

fun write_loop :: "int \<Rightarrow> (nat \<Rightarrow> int) \<Rightarrow> nat \<Rightarrow> nat list \<Rightarrow> int \<Rightarrow> ClientData
    \<Rightarrow> (byte list list \<times> int \<times> ClientData) res" where
  "write_loop now wr k [] msg_num cl = Inr ([], msg_num, cl\<lparr>cd_to_send := []\<rparr>)"
| "write_loop now wr k (a # q) msg_num cl =
     (case cd_heap cl a of
        None \<Rightarrow> Inl UseAfterFree
      | Some m \<Rightarrow>
          (let t = msg_type m in
           if t = INVALID_MSG \<or> t = UNDEFINED_MSG then
             write_loop now wr k q msg_num (cl\<lparr>cd_heap := (cd_heap cl)(a := None)\<rparr>)
           else
             (let (num, msg_num') = (if msg_id m = NO_ID then get_msg_num msg_num else (msg_id m, msg_num));
                  m' = m\<lparr>msg_id := num\<rparr>;
                  cl1 = cl\<lparr>cd_heap := (cd_heap cl)(a := Some m')\<rparr>;
                  data = get_data m';
                  msg_size = get_type_data_size t
              in
              if wr k = msg_size then
                (let cl2 = (if t = RECEIPT_MSG then cl1\<lparr>cd_heap := (cd_heap cl1)(a := None)\<rparr>
                            else if \<not> under_control (cd_delivery cl1) (Some a)
                            then cl1\<lparr>cd_delivery := dc_add now (Some a) (cd_delivery cl1)\<rparr>
                            else cl1\<lparr>cd_delivery := dc_decrease now (Some a) (cd_delivery cl1)\<rparr>)
                 in rbind (write_loop now wr (Suc k) q msg_num' cl2)
                      (\<lambda>(out, n, cl3). Inr (data # out, n, cl3)))
              else Inr ([], msg_num', cl1\<lparr>cd_to_send := q @ [a]\<rparr>))))"

definition write_msg :: "int \<Rightarrow> (nat \<Rightarrow> int) \<Rightarrow> int \<Rightarrow> ClientData \<Rightarrow> (byte list list \<times> int \<times> ClientData) res" where
  "write_msg now wr msg_num cl =
     (if cd_fd cl = -1 then Inr ([], msg_num, cl)
      else
        rbind (write_loop now wr 0 (cd_to_send cl) msg_num cl)
          (\<lambda>(out, n, cl1).
             rbind (resend now (cd_to_send cl1) (cd_heap cl1) (cd_delivery cl1))
               (\<lambda>(q, h, dc). Inr (out, n, cl1\<lparr>cd_to_send := q, cd_heap := h, cd_delivery := dc\<rparr>))))"

section \<open>Receiving\<close>

text \<open>The loop of \<open>read_msg\<close> that moves every extracted message to the messages to process.\<close>

fun extract_loop :: "nat \<Rightarrow> ClientData \<Rightarrow> ClientData" where
  "extract_loop 0 cl = cl"
| "extract_loop (Suc n) cl =
     (case mb_extract (cd_buf cl) of
        (None, _) \<Rightarrow> cl
      | (Some m, mb) \<Rightarrow> extract_loop n (cl\<lparr>cd_buf := mb, cd_to_process := cd_to_process cl @ [m]\<rparr>))"

text \<open>
  The part of \<open>read_msg\<close> before the client leaves its session when the connection is broken.
\<close>

definition client_read :: "(nat \<Rightarrow> byte list option) \<Rightarrow> ClientData \<Rightarrow> (BuffError \<times> ClientData) res" where
  "client_read read_fd cl =
     (if cd_fd cl = -1 then Inr (INVALID_FD, cl)
      else
        rbind (read_msg (cd_fd cl) read_fd (cd_buf cl))
          (\<lambda>(err, mb).
             (let cl1 = cl\<lparr>cd_buf := mb\<rparr> in
              if err = BUFF_OK then Inr (BUFF_OK, extract_loop (length (mb_queue mb)) cl1)
              else if err = CONN_BROKEN then Inr (CONN_BROKEN, cl1)
              else Inr (BUFF_OK, cl1))))"

definition process_receipt_msg :: "int \<Rightarrow> ClientData \<Rightarrow> ClientData res" where
  "process_receipt_msg req_msg_id cl =
     rbind (process_check (Some req_msg_id) (cd_heap cl) (cd_delivery cl))
       (\<lambda>(_, h, dc). Inr (cl\<lparr>cd_heap := h, cd_delivery := dc\<rparr>))"

section \<open>Lemmas\<close>

lemma extract_loop_all:
  "extract_loop (length (mb_queue (cd_buf cl))) cl
    = cl\<lparr>cd_buf := (cd_buf cl)\<lparr>mb_queue := []\<rparr>, cd_to_process := cd_to_process cl @ mb_queue (cd_buf cl)\<rparr>"
proof (induction "length (mb_queue (cd_buf cl))" arbitrary: cl)
  case 0
  then have "mb_queue (cd_buf cl) = []" by simp
  then show ?case by (cases cl; cases "cd_buf cl") simp
next
  case (Suc n)
  then obtain m ms where q: "mb_queue (cd_buf cl) = m # ms" by (cases "mb_queue (cd_buf cl)") auto
  let ?cl = "cl\<lparr>cd_buf := (cd_buf cl)\<lparr>mb_queue := ms\<rparr>, cd_to_process := cd_to_process cl @ [m]\<rparr>"
  have "extract_loop (length ms) ?cl = ?cl\<lparr>cd_buf := (cd_buf ?cl)\<lparr>mb_queue := []\<rparr>,
      cd_to_process := cd_to_process ?cl @ ms\<rparr>"
    using Suc(1) [of ?cl] Suc(2) q by simp
  then show ?case by (simp add: q mb_extract_def ready_to_extract_def)
qed

text \<open>The session and the descriptor of a client are none of the business of these operations.\<close>

lemma send_msg_frame [simp]:
  "cd_session (send_msg m cl) = cd_session cl" "cd_fd (send_msg m cl) = cd_fd cl"
  "cd_to_process (send_msg m cl) = cd_to_process cl" "cd_buf (send_msg m cl) = cd_buf cl"
  by (simp_all add: send_msg_def split: option.splits)

lemma extract_loop_frame [simp]:
  "cd_session (extract_loop n cl) = cd_session cl" "cd_fd (extract_loop n cl) = cd_fd cl"
  by (induction n arbitrary: cl) (auto split: prod.splits option.splits)

lemma write_loop_frame:
  "write_loop now wr k q n cl = Inr (out, n', cl') \<Longrightarrow> cd_session cl' = cd_session cl \<and> cd_fd cl' = cd_fd cl"
proof (induction now wr k q n cl arbitrary: out n' cl' rule: write_loop.induct)
  case (2 now wr k a q msg_num cl)
  from "2.prems" obtain m where m: "cd_heap cl a = Some m" by (auto split: option.splits)
  show ?case
    using "2.prems" m
    by (auto simp: Let_def rbind_Inr_iff split: prod.splits if_splits dest!: "2.IH" [rotated -1])
qed auto

lemma write_msg_frame:
  "write_msg now wr n cl = Inr (out, n', cl') \<Longrightarrow> cd_session cl' = cd_session cl \<and> cd_fd cl' = cd_fd cl"
  by (auto simp: write_msg_def rbind_Inr_iff split: if_splits prod.splits dest!: write_loop_frame)

lemma client_read_frame:
  "client_read rd cl = Inr (e, cl') \<Longrightarrow> cd_session cl' = cd_session cl \<and> cd_fd cl' = cd_fd cl"
  by (auto simp: client_read_def rbind_Inr_iff Let_def split: if_splits prod.splits)

lemma process_receipt_frame:
  "process_receipt_msg mid cl = Inr cl' \<Longrightarrow> cd_session cl' = cd_session cl \<and> cd_fd cl' = cd_fd cl
    \<and> cd_to_process cl' = cd_to_process cl"
  by (auto simp: process_receipt_msg_def rbind_Inr_iff split: prod.splits)

text \<open>Numbering the messages that have no number yet.\<close>

fun number_msgs :: "int \<Rightarrow> Message list \<Rightarrow> Message list" where
  "number_msgs n [] = []"
| "number_msgs n (m # ms) =
     (if msg_id m = NO_ID then m\<lparr>msg_id := n\<rparr> # number_msgs (n + 1) ms else m # number_msgs n ms)"

lemma length_number_msgs [simp]: "length (number_msgs n ms) = length ms"
  by (induction n ms rule: number_msgs.induct) auto

lemma msg_type_update [simp]: "msg_type (m\<lparr>msg_id := i\<rparr>) = msg_type m"
  by (simp add: msg_type_def)

lemma wf_number_msgs:
  assumes "\<forall>m \<in> set ms. wf_msg m" "0 < n" "n + int (length ms) < 2 ^ 63"
  shows "\<forall>m \<in> set (number_msgs n ms). wf_msg m"
  using assms
proof (induction n ms rule: number_msgs.induct)
  case (2 n m ms)
  then show ?case by (auto simp: wf_msg_def fits_def)
qed simp

definition fresh_queue :: "nat list \<Rightarrow> ClientData \<Rightarrow> bool" where
  "fresh_queue q cl \<longleftrightarrow> distinct q \<and> (\<forall>a \<in> set q. cd_heap cl a \<noteq> None)
     \<and> set q \<inter> di_msg ` set (dc_items (cd_delivery cl)) = {} \<and> dc_wf (cd_heap cl) (cd_delivery cl)"

lemma dc_wf_heap_cong:
  assumes "dc_wf h dc" "\<And>a. h a \<noteq> None \<Longrightarrow> a \<in> di_msg ` set (dc_items dc) \<Longrightarrow> h' a \<noteq> None"
  shows "dc_wf h' dc"
  using assms by (auto simp: dc_wf_def)

lemma write_loop_succeeds:
  assumes "fresh_queue q cl"
    and "\<forall>i < length q. wr (k + i) = get_type_data_size (msg_type (the (cd_heap cl (q ! i))))"
  shows "\<exists>n' cl'. write_loop now wr k q n cl
      = Inr (map get_data (number_msgs n (map (the \<circ> cd_heap cl) q)), n', cl')
    \<and> dc_wf (cd_heap cl') (cd_delivery cl') \<and> cd_to_send cl' = []"
  using assms
proof (induction q arbitrary: k n cl)
  case Nil
  then show ?case by (simp add: fresh_queue_def)
next
  case (Cons a q)
  obtain m where m: "cd_heap cl a = Some m" using Cons.prems(1) by (auto simp: fresh_queue_def)
  define num where "num = (if msg_id m = NO_ID then n else msg_id m)"
  define n1 where "n1 = (if msg_id m = NO_ID then n + 1 else n)"
  define m' where "m' = m\<lparr>msg_id := num\<rparr>"
  let ?cl1 = "cl\<lparr>cd_heap := (cd_heap cl)(a := Some m')\<rparr>"
  define cl2 where "cl2 = (if msg_type m = RECEIPT_MSG then ?cl1\<lparr>cd_heap := (cd_heap ?cl1)(a := None)\<rparr>
    else ?cl1\<lparr>cd_delivery := dc_add now (Some a) (cd_delivery cl)\<rparr>)"
  have w: "wr k = get_type_data_size (msg_type m)" using Cons.prems(2) m by fastforce
  have nu: "\<not> under_control (cd_delivery cl) (Some a)"
    using Cons.prems(1) by (auto simp: under_control_iff fresh_queue_def)
  have step: "write_loop now wr k (a # q) n cl = rbind (write_loop now wr (Suc k) q n1 cl2)
      (\<lambda>(out, n, cl3). Inr (get_data m' # out, n, cl3))"
    using m w nu by (simp add: Let_def num_def n1_def m'_def cl2_def get_msg_num_def)
  have heap: "cd_heap cl2 b = cd_heap cl b" if "b \<noteq> a" for b
    using that by (simp add: cl2_def)
  have wf1: "dc_wf ((cd_heap cl)(a := Some m')) (cd_delivery cl)"
    using Cons.prems(1) by (auto simp: fresh_queue_def intro: dc_wf_heap_cong)
  have fresh: "fresh_queue q cl2"
  proof (cases "msg_type m = RECEIPT_MSG")
    case True
    have "dc_wf ((cd_heap cl)(a := None)) (cd_delivery cl)"
      by (rule dc_wf_heap_cong [of "cd_heap cl"]) (use Cons.prems(1) in \<open>auto simp: fresh_queue_def\<close>)
    then have "dc_wf (cd_heap cl2) (cd_delivery cl2)" using True by (simp add: cl2_def)
    then show ?thesis using Cons.prems(1) True by (auto simp: fresh_queue_def cl2_def)
  next
    case False
    then have "dc_wf (cd_heap cl2) (cd_delivery cl2)"
      using wf_dc_add [OF wf1, of a now] by (simp add: cl2_def)
    then show ?thesis
      using Cons.prems(1) False nu by (auto simp: fresh_queue_def cl2_def dc_add_def)
  qed
  have same: "map (the \<circ> cd_heap cl2) q = map (the \<circ> cd_heap cl) q"
  proof (rule map_cong [OF refl])
    fix b assume "b \<in> set q"
    then have "b \<noteq> a" using Cons.prems(1) by (auto simp: fresh_queue_def)
    then show "(the \<circ> cd_heap cl2) b = (the \<circ> cd_heap cl) b" using heap by simp
  qed
  have "wr (Suc k + i) = get_type_data_size (msg_type (the (cd_heap cl2 (q ! i))))" if "i < length q" for i
  proof -
    have "q ! i \<noteq> a" using Cons.prems(1) that by (auto simp: fresh_queue_def)
    then show ?thesis using Cons.prems(2) [rule_format, of "Suc i"] that heap by simp
  qed
  with Cons.IH [OF fresh, of "Suc k" n1, unfolded same] obtain n' cl' where
    "write_loop now wr (Suc k) q n1 cl2 = Inr (map get_data (number_msgs n1 (map (the \<circ> cd_heap cl) q)), n', cl')"
    "dc_wf (cd_heap cl') (cd_delivery cl')" "cd_to_send cl' = []"
    by blast
  moreover have "number_msgs n (map (the \<circ> cd_heap cl) (a # q)) = m' # number_msgs n1 (map (the \<circ> cd_heap cl) q)"
    using m by (simp add: m'_def num_def n1_def)
  ultimately show ?case
    by (intro exI [of _ n'] exI [of _ cl'])
      (simp only: step list.map rbind.simps prod.case simp_thms)
qed

section \<open>Properties\<close>

text \<open>
  C19. Messages arrive: when the connection takes every write in full, one call of \<open>write_msg\<close> sends
  all fresh messages of the queue, the unnumbered ones with the next free numbers, in the order
  they were queued, and a receiver that gets the bytes in one read queues exactly these messages.
\<close>

theorem written_messages_arrive:
  assumes "fresh_queue (cd_to_send cl) cl" and "cd_fd cl \<noteq> -1" and "cd_to_send cl \<noteq> []"
    and "\<forall>i < length (cd_to_send cl).
           wr i = get_type_data_size (msg_type (the (cd_heap cl (cd_to_send cl ! i))))"
    and "\<forall>m \<in> set (map (the \<circ> cd_heap cl) (cd_to_send cl)). wf_msg m"
    and "0 < n" and "n + int (length (cd_to_send cl)) < 2 ^ 63"
    and "length (concat (map get_data (number_msgs n (map (the \<circ> cd_heap cl) (cd_to_send cl))))) < 4096"
    and "0 \<le> fd"
  shows "\<exists>out n' cl'. write_msg now wr n cl = Inr (out, n', cl')
    \<and> read_msg fd (\<lambda>_. Some (concat out)) MsgBuffer_default
      = Inr (BUFF_OK, MsgBuffer_default\<lparr>mb_is_too_small := False,
          mb_queue := number_msgs n (map (the \<circ> cd_heap cl) (cd_to_send cl))\<rparr>)"
proof -
  let ?ms = "number_msgs n (map (the \<circ> cd_heap cl) (cd_to_send cl))"
  from write_loop_succeeds [OF assms(1), of wr 0 now n] assms(4) obtain n' cl' where
    w: "write_loop now wr 0 (cd_to_send cl) n cl = Inr (map get_data ?ms, n', cl')"
    "dc_wf (cd_heap cl') (cd_delivery cl')" by auto
  obtain q h dc where "resend now (cd_to_send cl') (cd_heap cl') (cd_delivery cl') = Inr (q, h, dc)"
    using wf_resend [OF w(2)] by blast
  then have "\<exists>cl'. write_msg now wr n cl = Inr (map get_data ?ms, n', cl')"
    using assms(2) w(1) by (simp add: write_msg_def)
  moreover have "read_msg fd (\<lambda>_. Some (concat (map get_data ?ms))) MsgBuffer_default
      = Inr (BUFF_OK, MsgBuffer_default\<lparr>mb_is_too_small := False, mb_queue := ?ms\<rparr>)"
  proof -
    have wf: "\<forall>m \<in> set ?ms. wf_msg m" using assms(5,6,7) by (intro wf_number_msgs) auto
    have "length ?ms \<noteq> 0" using assms(3) by simp
    then have ne: "?ms \<noteq> []" by (simp only: length_0_conv simp_thms)
    have "read_msg fd (\<lambda>_. Some (concat (map get_data ?ms))) MsgBuffer_default
        = Inr (BUFF_OK, MsgBuffer_default\<lparr>mb_queue := mb_queue MsgBuffer_default @ ?ms, mb_is_too_small := False\<rparr>)"
      by (rule read_plain_messages [OF idle_default wf ne assms(8) refl assms(9)])
    then show ?thesis by (simp add: MsgBuffer_default_def del: number_msgs.simps)
  qed
  ultimately show ?thesis by blast
qed

definition sample_client :: ClientData where
  "sample_client = send_msg (Some (new_msg StopPreparationMsg)) (send_receipt 4 (set_fd 7 mk_client))"

lemma sample_client_queue: "fresh_queue (cd_to_send sample_client) sample_client"
  by (simp add: fresh_queue_def sample_client_def send_msg_def send_receipt_def set_fd_def mk_client_def
    mk_delivery_def dc_wf_def DEFAULT_RESEND_CNT_def DEFAULT_RESEND_TIME_def)

lemma sample_client_values:
  "cd_to_send sample_client = [0, 1]" "cd_fd sample_client = 7"
  "cd_heap sample_client 0 = Some (new_receipt 4)" "cd_heap sample_client 1 = Some (new_msg StopPreparationMsg)"
  "cd_heap sample_client (Suc 0) = Some (new_msg StopPreparationMsg)"
  by (simp_all add: sample_client_def send_msg_def send_receipt_def set_fd_def mk_client_def)

lemma sample_messages:
  "number_msgs 1 [new_receipt 4, new_msg StopPreparationMsg]
    = [new_receipt 4, \<lparr>msg_id = 1, msg_body = StopPreparationMsg\<rparr>]"
  "wf_msg (new_receipt 4)" "wf_msg (new_msg StopPreparationMsg)"
  "msg_type (new_receipt 4) = RECEIPT_MSG" "msg_type (new_msg StopPreparationMsg) = STOP_PREPARATION_MSG"
  "wf_msg \<lparr>msg_id = 1, msg_body = StopPreparationMsg\<rparr>"
  by (simp_all add: new_receipt_def new_msg_def NO_ID_def NO_REQ_ID_def wf_msg_def msg_type_def fits_def)

theorem written_messages_arrive_witness:
  "\<exists>out n' cl'. write_msg 100 (\<lambda>k. if k = 0 then 21 else 13) 1 sample_client = Inr (out, n', cl')
    \<and> read_msg 3 (\<lambda>_. Some (concat out)) MsgBuffer_default
      = Inr (BUFF_OK, MsgBuffer_default\<lparr>mb_is_too_small := False,
          mb_queue := [new_receipt 4, \<lparr>msg_id = 1, msg_body = StopPreparationMsg\<rparr>]\<rparr>)"
proof -
  have "\<forall>i < length (cd_to_send sample_client). (if i = 0 then 21 else 13)
      = get_type_data_size (msg_type (the (cd_heap sample_client (cd_to_send sample_client ! i))))"
    by (auto simp: sample_client_values sample_messages wire_simps less_Suc_eq)
  moreover have "length (get_data (new_receipt 4)) \<le> 525"
    "length (get_data \<lparr>msg_id = 1, msg_body = StopPreparationMsg\<rparr>) \<le> 525"
    using length_get_data_bounds sample_messages by blast+
  ultimately show ?thesis
    using written_messages_arrive [of sample_client "\<lambda>k. if k = 0 then 21 else 13" 1 3 100]
      sample_client_queue
    by (simp add: sample_client_values sample_messages del: number_msgs.simps)
qed

text \<open>
  C40. A receipt can free a message that is still to be written. When a message that was queued to be
  sent again is acknowledged before the next write, its receipt deletes it, but its pointer stays
  in the queue, and the next write reads the deleted message.
\<close>

theorem receipt_frees_queued_message:
  assumes "dc_wf (cd_heap cl) (cd_delivery cl)" and "dc_items (cd_delivery cl) = it # its"
    and "cd_heap cl (di_msg it) = Some m" and "cd_to_send cl = di_msg it # q" and "cd_fd cl \<noteq> -1"
  shows "\<exists>cl'. process_receipt_msg (msg_id m) cl = Inr cl' \<and> write_msg now wr n cl' = Inl UseAfterFree"
  using assms
  by (simp add: process_receipt_msg_def process_check_def dc_remove_id_def dc_find_id_def remove_msg_def
    Let_def write_msg_def)

definition acked_client :: ClientData where
  "acked_client = mk_client\<lparr>cd_fd := 7, cd_heap := (\<lambda>_. None)(0 := Some \<lparr>msg_id = 1, msg_body = StopPreparationMsg\<rparr>),
     cd_next_msg := 1, cd_to_send := [0], cd_delivery := dc_add 100 (Some 0) (mk_delivery 3 10)\<rparr>"

lemma acked_client_reached:
  "write_msg 100 (\<lambda>_. 13) 1 (send_msg (Some (new_msg StopPreparationMsg)) (set_fd 7 mk_client))
     = Inr ([get_data \<lparr>msg_id = 1, msg_body = StopPreparationMsg\<rparr>], 2, acked_client\<lparr>cd_to_send := []\<rparr>)"
  "write_msg 120 (\<lambda>_. 13) 2 (acked_client\<lparr>cd_to_send := []\<rparr>) = Inr ([], 2, acked_client)"
  by (simp_all add: write_msg_def send_msg_def set_fd_def mk_client_def acked_client_def new_msg_def
    NO_ID_def msg_type_def get_msg_num_def wire_simps Let_def under_control_def dc_find_def dc_add_def
    mk_delivery_def resend_def rm_all_exhausted_def need_resend_def DEFAULT_RESEND_CNT_def
    DEFAULT_RESEND_TIME_def fun_eq_iff)

theorem receipt_frees_queued_message_witness:
  "\<exists>out1 n1 cl1 out2 n2 cl2 cl3.
     write_msg 100 (\<lambda>_. 13) 1 (send_msg (Some (new_msg StopPreparationMsg)) (set_fd 7 mk_client)) = Inr (out1, n1, cl1)
     \<and> write_msg 120 (\<lambda>_. 13) n1 cl1 = Inr (out2, n2, cl2)
     \<and> process_receipt_msg 1 cl2 = Inr cl3
     \<and> write_msg 121 (\<lambda>_. 13) n2 cl3 = Inl UseAfterFree"
proof -
  have "dc_wf (cd_heap acked_client) (cd_delivery acked_client)"
    by (simp add: acked_client_def dc_wf_def dc_add_def mk_delivery_def under_control_def dc_find_def)
  then obtain cl' where "process_receipt_msg 1 acked_client = Inr cl'"
    "write_msg 121 (\<lambda>_. 13) 2 cl' = Inl UseAfterFree"
    using receipt_frees_queued_message [of acked_client _ "[]" "\<lparr>msg_id = 1, msg_body = StopPreparationMsg\<rparr>"
        "[]" 121 "\<lambda>_. 13" 2]
    by (auto simp: acked_client_def dc_add_def mk_delivery_def under_control_def dc_find_def)
  with acked_client_reached show ?thesis by auto
qed

end
