(* ===== verification/GameSession.thy ===== *)
theory GameSession
  imports ClientData ClientArray Timing FieldShots FieldValid
begin

text \<open>
  The state of the server and the game sessions on it (\<^verbatim>\<open>src/server/game_session.h\<close>,
  \<^verbatim>\<open>game_session.cpp\<close>, \<^verbatim>\<open>preparation_timeout.h\<close>, \<^verbatim>\<open>preparation_timeout.cpp\<close>), with the operations of
  the client and the server a session calls: \<open>ClientData::send_msg\<close>,
  \<open>ClientData::disconnect_from_game_session\<close>, \<open>BattleshipServer::add_timeout_handler\<close> and
  \<open>disconnect_client\<close>. Clients and timeout handlers are addresses of heaps, \<open>delete\<close> empties the
  address. Sessions are never deleted while the server runs, so a session is its position in the
  list of sessions. The value of \<^verbatim>\<open>time(0)\<close> and the sequence of values of \<^verbatim>\<open>rand()\<close> are parts of the
  state, and \<open>sv_bound\<close> is the number of shots after which the search for a cell that has not been
  shot at counts as endless.
\<close>

section \<open>Data\<close>

datatype timeout_kind =
    PreparationTimeout
  | CheckStartFieldsTimeout
  | GameStartTimeout
  | GameTurnTimeout
  | ChangeTurnTimeout
  | EndGameTimeout

record Timeout = TimeoutHandler +
  to_kind :: timeout_kind
  to_session :: nat

definition mk_timeout :: "timeout_kind \<Rightarrow> int \<Rightarrow> nat \<Rightarrow> Timeout" where
  "mk_timeout kind p_sec p_session =
     \<lparr>th_sec = p_sec, th_usec = 0, to_kind = kind, to_session = p_session\<rparr>"

definition PLAYERS_COUNT :: int where "PLAYERS_COUNT = 2"
definition FIRST_PLAYER :: int where "FIRST_PLAYER = 0"
definition SECOND_PLAYER :: int where "SECOND_PLAYER = 1"

record GameSession =
  gs_state :: GameState
  gs_players :: "nat option list"
  gs_fields :: "GameField list"
  gs_cur :: int
  gs_last_shot :: Point
  gs_turn_timeout :: "nat option"

record Server =
  sv_clients :: "nat \<Rightarrow> ClientData option"
  sv_next_client :: nat
  sv_sessions :: "GameSession list"
  sv_handlers :: "nat \<Rightarrow> Timeout option"
  sv_next_handler :: nat
  sv_timeouts :: "nat list"
  sv_queue :: ClientArray
  sv_in_game :: ClientArray
  sv_msg_num :: int
  sv_clock :: int
  sv_rand :: "nat \<Rightarrow> nat"
  sv_rand_pos :: nat
  sv_bound :: nat

definition mk_session :: GameSession where
  "mk_session = \<lparr>gs_state = NO_VACANT_GAME, gs_players = [None, None],
     gs_fields = [GameField_default, GameField_default], gs_cur = FIRST_PLAYER,
     gs_last_shot = Point (-1) (-1), gs_turn_timeout = None\<rparr>"

abbreviation sess :: "Server \<Rightarrow> nat \<Rightarrow> GameSession" where
  "sess sv s \<equiv> sv_sessions sv ! s"

definition mod_session :: "nat \<Rightarrow> (GameSession \<Rightarrow> GameSession) \<Rightarrow> Server \<Rightarrow> Server" where
  "mod_session s f sv = sv\<lparr>sv_sessions := (sv_sessions sv)[s := f (sess sv s)]\<rparr>"

section \<open>Clients and handlers\<close>

text \<open>A call on a client pointer.\<close>

definition on_client :: "nat option \<Rightarrow> (ClientData \<Rightarrow> ClientData) \<Rightarrow> Server \<Rightarrow> Server res" where
  "on_client p f sv =
     (case p of
        None \<Rightarrow> Inl NullDeref
      | Some c \<Rightarrow>
          (case sv_clients sv c of
             None \<Rightarrow> Inl UseAfterFree
           | Some cl \<Rightarrow> Inr (sv\<lparr>sv_clients := (sv_clients sv)(c := Some (f cl))\<rparr>)))"

definition add_timeout_handler :: "Timeout \<Rightarrow> Server \<Rightarrow> nat \<times> Server" where
  "add_timeout_handler t sv =
     (sv_next_handler sv,
      sv\<lparr>sv_handlers := (sv_handlers sv)(sv_next_handler sv := Some t),
         sv_next_handler := Suc (sv_next_handler sv),
         sv_timeouts := sv_timeouts sv @ [sv_next_handler sv]\<rparr>)"

text \<open>\<open>RANDOM->rand(n)\<close>.\<close>

definition rand_below :: "nat \<Rightarrow> Server \<Rightarrow> int \<times> Server" where
  "rand_below less_than_num sv =
     (let r = sv_rand sv (sv_rand_pos sv);
          sv' = sv\<lparr>sv_rand_pos := Suc (sv_rand_pos sv)\<rparr>
      in (if less_than_num \<noteq> 0 then int (r mod less_than_num) else int r, sv'))"

section \<open>Queries\<close>

definition is_valid_player_num :: "int \<Rightarrow> bool" where
  "is_valid_player_num num = (if num \<ge> FIRST_PLAYER \<and> num < PLAYERS_COUNT then True else False)"

definition get_game_state :: "GameSession \<Rightarrow> GameState" where
  "get_game_state gs = gs_state gs"

definition set_game_state :: "GameState \<Rightarrow> GameSession \<Rightarrow> GameSession" where
  "set_game_state p_state gs = gs\<lparr>gs_state := p_state\<rparr>"

definition is_vacant :: "GameSession \<Rightarrow> bool" where
  "is_vacant gs = list_ex (\<lambda>p. p = None) (gs_players gs)"

definition has_player_num :: "GameSession \<Rightarrow> int \<Rightarrow> bool" where
  "has_player_num gs num = (if \<not> is_valid_player_num num then False else gs_players gs ! nat num \<noteq> None)"

definition has_player :: "GameSession \<Rightarrow> nat option \<Rightarrow> bool" where
  "has_player gs player =
     (case player of None \<Rightarrow> False | Some c \<Rightarrow> list_ex (\<lambda>p. p = Some c) (gs_players gs))"

definition get_player_index :: "GameSession \<Rightarrow> nat option \<Rightarrow> bool \<Rightarrow> int" where
  "get_player_index gs player own =
     (let idx = (if gs_players gs ! 0 = player then 0
                 else if gs_players gs ! 1 = player then 1 else -1)
      in if \<not> own \<and> idx \<noteq> -1
         then (if idx = FIRST_PLAYER then SECOND_PLAYER else FIRST_PLAYER)
         else idx)"

definition get_players_count :: "GameSession \<Rightarrow> int" where
  "get_players_count gs = int (length (filter (\<lambda>p. p \<noteq> None) (gs_players gs)))"

definition get_enemy_idx :: "int \<Rightarrow> int" where
  "get_enemy_idx idx =
     (if idx = FIRST_PLAYER then SECOND_PLAYER
      else if idx = SECOND_PLAYER then FIRST_PLAYER
      else PLAYERS_COUNT)"

text \<open>The elements of the arrays of the session, with the bounds of the arrays.\<close>

definition player_at :: "GameSession \<Rightarrow> int \<Rightarrow> nat option res" where
  "player_at gs i = (if 0 \<le> i \<and> i < PLAYERS_COUNT then Inr (gs_players gs ! nat i) else Inl OutOfBounds)"

definition field_at :: "GameSession \<Rightarrow> int \<Rightarrow> GameField res" where
  "field_at gs i = (if 0 \<le> i \<and> i < PLAYERS_COUNT then Inr (gs_fields gs ! nat i) else Inl OutOfBounds)"

definition send_to :: "nat \<Rightarrow> int \<Rightarrow> Message \<Rightarrow> Server \<Rightarrow> Server res" where
  "send_to s i msg sv = rbind (player_at (sess sv s) i) (\<lambda>p. on_client p (send_msg (Some msg)) sv)"

section \<open>Players and fields\<close>

definition set_player :: "nat option \<Rightarrow> GameSession \<Rightarrow> bool \<times> GameSession" where
  "set_player player gs =
     (if player = None \<or> \<not> is_vacant gs \<or> has_player gs player then (False, gs)
      else
        (let i = (if gs_players gs ! 0 = None then 0 else 1);
             st = (if gs_state gs = NO_VACANT_GAME then WAIT_PLAYER else WAIT_PREPARATION)
         in (True, gs\<lparr>gs_players := (gs_players gs)[i := player], gs_state := st\<rparr>)))"

definition set_field_num :: "int \<Rightarrow> GameField \<Rightarrow> GameSession \<Rightarrow> bool \<times> GameSession" where
  "set_field_num num p_field gs =
     (if \<not> is_valid_player_num num then (False, gs)
      else (True, gs\<lparr>gs_fields := (gs_fields gs)[nat num := p_field]\<rparr>))"

definition set_field :: "nat option \<Rightarrow> GameField \<Rightarrow> GameSession \<Rightarrow> bool \<times> GameSession" where
  "set_field player p_field gs =
     (if player = None \<or> \<not> has_player gs player
         \<or> (gs_state gs \<noteq> PREPARATION \<and> gs_state gs \<noteq> WAIT_START) then (False, gs)
      else
        (let i = get_player_index gs player True in
         (True, gs\<lparr>gs_fields := (gs_fields gs)[nat i := p_field]\<rparr>)))"

definition get_field_num :: "GameSession \<Rightarrow> int \<Rightarrow> GameField \<times> bool" where
  "get_field_num gs num =
     (if \<not> has_player_num gs num then (GameField_default, False) else (gs_fields gs ! nat num, True))"

definition get_field :: "GameSession \<Rightarrow> nat option \<Rightarrow> bool \<Rightarrow> GameField \<times> bool" where
  "get_field gs player own =
     (if \<not> has_player gs player then (GameField_default, False)
      else (gs_fields gs ! nat (get_player_index gs player own), True))"

definition process_move :: "nat option \<Rightarrow> Point \<Rightarrow> GameSession \<Rightarrow> CellState \<times> GameSession" where
  "process_move player shot gs =
     (let enemy_idx = get_player_index gs player False in
      if \<not> has_player gs player \<or> \<not> has_player_num gs enemy_idx then (CELL_EMPTY, gs)
      else
        (let (ret, f) = register_shot (gs_fields gs ! nat enemy_idx) shot in
         (ret, gs\<lparr>gs_fields := (gs_fields gs)[nat enemy_idx := f]\<rparr>)))"

definition has_last_shot :: "GameSession \<Rightarrow> bool" where
  "has_last_shot gs = point_neq (gs_last_shot gs) (Point (-1) (-1))"

definition clear_last_shot :: "GameSession \<Rightarrow> GameSession" where
  "clear_last_shot gs = gs\<lparr>gs_last_shot := Point (-1) (-1)\<rparr>"

definition get_last_shot :: "GameSession \<Rightarrow> Point" where
  "get_last_shot gs = gs_last_shot gs"

definition set_last_shot :: "Point \<Rightarrow> nat option \<Rightarrow> GameSession \<Rightarrow> bool \<times> GameSession" where
  "set_last_shot shot player gs =
     (let idx = get_player_index gs player True in
      if idx = gs_cur gs \<and> \<not> has_last_shot gs then (True, gs\<lparr>gs_last_shot := shot\<rparr>)
      else (False, gs))"

definition change_cur_turn_player_idx :: "GameSession \<Rightarrow> GameSession" where
  "change_cur_turn_player_idx gs = gs\<lparr>gs_cur := get_enemy_idx (gs_cur gs)\<rparr>"

section \<open>Messages to the players\<close>

definition send_game_state_for_all :: "nat \<Rightarrow> Server \<Rightarrow> Server res" where
  "send_game_state_for_all s sv =
     rfor [0, 1] (\<lambda>i sv.
       if gs_players (sess sv s) ! i \<noteq> None
       then on_client (gs_players (sess sv s) ! i)
              (send_msg (Some (new_msg (GameStateMsg (GameState_code (gs_state (sess sv s))))))) sv
       else Inr sv) sv"

definition send_for_all :: "nat \<Rightarrow> Message \<Rightarrow> Server \<Rightarrow> Server res" where
  "send_for_all s msg sv =
     (let data = get_data msg; sz = get_type_data_size (msg_type msg) in
      rfor [0, 1] (\<lambda>i sv.
        if gs_players (sess sv s) ! i \<noteq> None
        then on_client (gs_players (sess sv s) ! i) (send_msg (create_instance data sz)) sv
        else Inr sv) sv)"

text \<open>The player leaves the session; only when it was not in it the state is sent to the others.\<close>

definition disconnect_player :: "nat \<Rightarrow> nat option \<Rightarrow> Server \<Rightarrow> Server res" where
  "disconnect_player s player sv =
     (if player = None then Inr sv
      else
        (let gs = sess sv s;
             left = (\<lambda>i. Inr (mod_session s (\<lambda>gs. gs\<lparr>gs_players := (gs_players gs)[i := None],
                        gs_state := (if gs_state gs \<noteq> WAIT_PLAYER then WAIT_PLAYER else NO_VACANT_GAME)\<rparr>) sv))
         in
         if gs_players gs ! 0 = player then left 0
         else if gs_players gs ! 1 = player then left 1
         else send_game_state_for_all s sv))"

definition disconnect_from_game_session :: "nat \<Rightarrow> Server \<Rightarrow> Server res" where
  "disconnect_from_game_session c sv =
     (case sv_clients sv c of
        None \<Rightarrow> Inl UseAfterFree
      | Some cl \<Rightarrow>
          (case cd_session cl of
             None \<Rightarrow> Inr sv
           | Some s \<Rightarrow>
               rbind (disconnect_player s (Some c) sv)
                 (on_client (Some c) (\<lambda>cl. cl\<lparr>cd_session := None\<rparr>))))"

definition disconnect_client :: "nat option \<Rightarrow> Server \<Rightarrow> Server res" where
  "disconnect_client client sv =
     (case client of
        None \<Rightarrow> Inr sv
      | Some c \<Rightarrow>
          rbind (disconnect_from_game_session c sv) (\<lambda>sv1.
            Inr (sv1\<lparr>sv_queue := ca_remove (sv_queue sv1) (Some c),
                     sv_in_game := ca_remove (sv_in_game sv1) (Some c),
                     sv_clients := (sv_clients sv1)(c := None)\<rparr>)))"

section \<open>Preparation\<close>

definition start_preparation :: "nat \<Rightarrow> Server \<Rightarrow> Server res" where
  "start_preparation s sv =
     (if gs_state (sess sv s) \<noteq> WAIT_PREPARATION then Inr sv
      else
        (let sv1 = mod_session s (set_game_state PREPARATION) sv;
             end_time = sv_clock sv1 + PREPARATION_DURATION
         in
         rbind (send_for_all s (new_msg (StartFieldReqMsg end_time)) sv1)
           (\<lambda>sv2. Inr (snd (add_timeout_handler (mk_timeout PreparationTimeout PREPARATION_DURATION s) sv2)))))"

definition stop_preparation :: "nat \<Rightarrow> Server \<Rightarrow> Server res" where
  "stop_preparation s sv =
     (if gs_state (sess sv s) \<noteq> PREPARATION then Inr sv
      else
        rbind (send_for_all s (new_msg StopPreparationMsg) sv) (\<lambda>sv1.
          send_game_state_for_all s
            (snd (add_timeout_handler (mk_timeout CheckStartFieldsTimeout WAIT_DURATION s)
               (mod_session s (\<lambda>gs. gs\<lparr>gs_state := WAIT_START\<rparr>) sv1)))))"

definition send_start_fields :: "nat \<Rightarrow> Server \<Rightarrow> Server res" where
  "send_start_fields s sv =
     (if gs_state (sess sv s) \<noteq> WAIT_START then Inr sv
      else
        rfor [0, 1] (\<lambda>i sv.
          rbind (field_at (sess sv s) i) (\<lambda>own_field.
          rbind (field_at (sess sv s) (get_enemy_idx i)) (\<lambda>f.
          rbind (send_to s i (new_msg (GameFieldMsg own_field True)) sv) (\<lambda>sv1.
          send_to s i (new_msg (GameFieldMsg (get_for_enemy f) False)) sv1)))) sv)"

definition check_start_fields :: "nat \<Rightarrow> Server \<Rightarrow> Server res" where
  "check_start_fields s sv =
     rbind (rfor [0, 1] (\<lambda>i sv.
         if gs_players (sess sv s) ! i \<noteq> None \<and> \<not> is_valid_start_field (gs_fields (sess sv s) ! i)
         then disconnect_client (gs_players (sess sv s) ! i) sv
         else Inr sv) sv)
       (\<lambda>sv1.
          (let players_count = get_players_count (sess sv1 s) in
           if players_count = PLAYERS_COUNT then
             rbind (send_start_fields s sv1) (\<lambda>sv2.
               Inr (snd (add_timeout_handler (mk_timeout GameStartTimeout WAIT_DURATION s) sv2)))
           else if players_count = 1 then
             send_game_state_for_all s (mod_session s (\<lambda>gs. gs\<lparr>gs_state := WAIT_PLAYER\<rparr>) sv1)
           else Inr sv1))"

section \<open>Turns\<close>

definition start_new_turn :: "nat \<Rightarrow> Server \<Rightarrow> Server res" where
  "start_new_turn s sv =
     (if gs_state (sess sv s) \<noteq> WAIT_START \<and> gs_state (sess sv s) \<noteq> PROCESS_TURN then Inr sv
      else
        (let sv1 = mod_session s (\<lambda>gs. gs\<lparr>gs_state := GAME_TURN\<rparr>) sv;
             end_time = sv_clock sv1 + TURN_DURATION;
             cur = gs_cur (sess sv1 s)
         in
         rbind (send_to s cur (new_msg (StartTurnMsg end_time True)) sv1) (\<lambda>sv2.
         rbind (send_to s (get_enemy_idx cur) (new_msg (StartTurnMsg end_time False)) sv2) (\<lambda>sv3.
           (let (a, sv4) = add_timeout_handler (mk_timeout GameTurnTimeout TURN_DURATION s) sv3 in
            Inr (mod_session s (\<lambda>gs. gs\<lparr>gs_turn_timeout := Some a\<rparr>) sv4))))))"

definition start_game :: "nat \<Rightarrow> Server \<Rightarrow> Server res" where
  "start_game s sv =
     (if gs_state (sess sv s) \<noteq> WAIT_START then Inr sv
      else
        (let (r, sv1) = rand_below 2 sv in
         start_new_turn s (mod_session s (\<lambda>gs. gs\<lparr>gs_cur := r\<rparr>) sv1)))"

definition stop_handler :: "nat \<Rightarrow> Server \<Rightarrow> Server res" where
  "stop_handler a sv =
     (case sv_handlers sv a of
        None \<Rightarrow> Inl UseAfterFree
      | Some t \<Rightarrow> Inr (sv\<lparr>sv_handlers := (sv_handlers sv)(a := Some (th_stop t))\<rparr>))"

definition end_turn :: "nat \<Rightarrow> Server \<Rightarrow> Server res" where
  "end_turn s sv =
     (if gs_state (sess sv s) \<noteq> GAME_TURN then Inr sv
      else
        (let sv1 = mod_session s (\<lambda>gs. gs\<lparr>gs_state := PROCESS_TURN\<rparr>) sv;
             cur = gs_cur (sess sv1 s)
         in
         rbind (send_to s cur (new_msg (StopTurnMsg True)) sv1) (\<lambda>sv2.
         rbind (send_to s (get_enemy_idx cur) (new_msg (StopTurnMsg False)) sv2) (\<lambda>sv3.
           (let sv4 = snd (add_timeout_handler (mk_timeout ChangeTurnTimeout WAIT_DURATION s) sv3) in
            case gs_turn_timeout (sess sv4 s) of
              None \<Rightarrow> Inr sv4
            | Some a \<Rightarrow>
                rbind (stop_handler a sv4) (\<lambda>sv5.
                  Inr (mod_session s (\<lambda>gs. gs\<lparr>gs_turn_timeout := None\<rparr>) sv5)))))))"

text \<open>
  The loop of \<open>_register_shot\<close> on the field of the enemy: shots at random cells until one has an
  effect. Every iteration draws two random numbers after the shot.
\<close>

fun shot_loop :: "nat \<Rightarrow> GameField \<Rightarrow> Point \<Rightarrow> Server \<Rightarrow> (CellState \<times> GameField \<times> Server) res" where
  "shot_loop 0 f shot sv = Inl Diverges"
| "shot_loop (Suc n) f shot sv =
     (let (shot_res, f') = register_shot f shot;
          (x, sv1) = rand_below 10 sv;
          (y, sv2) = rand_below 10 sv1
      in if shot_res = CELL_EMPTY then shot_loop n f' (Point x y) sv2
         else Inr (shot_res, f', sv2))"

definition register_last_shot :: "nat \<Rightarrow> Server \<Rightarrow> (CellState \<times> Server) res" where
  "register_last_shot s sv =
     (let enemy_idx = get_enemy_idx (gs_cur (sess sv s));
          (shot, sv1) = (if \<not> has_last_shot (sess sv s)
                         then (let (x, sva) = rand_below 10 sv; (y, svb) = rand_below 10 sva in (Point x y, svb))
                         else (gs_last_shot (sess sv s), sv))
      in
      rbind (field_at (sess sv1 s) enemy_idx) (\<lambda>f.
      rbind (shot_loop (sv_bound sv1) f shot sv1) (\<lambda>(res, f', sv2).
        Inr (res, mod_session s (\<lambda>gs. clear_last_shot
               (gs\<lparr>gs_fields := (gs_fields gs)[nat enemy_idx := f']\<rparr>)) sv2))))"

definition send_fields :: "nat \<Rightarrow> Server \<Rightarrow> Server res" where
  "send_fields s sv =
     (let cur = gs_cur (sess sv s); enemy_idx = get_enemy_idx cur in
      rbind (field_at (sess sv s) enemy_idx) (\<lambda>enemy_field.
      rbind (send_to s cur (new_msg (GameFieldMsg (get_for_enemy enemy_field) False)) sv) (\<lambda>sv1.
      send_to s enemy_idx (new_msg (GameFieldMsg enemy_field True)) sv1)))"

definition is_game_over :: "GameSession \<Rightarrow> bool res" where
  "is_game_over gs =
     rbind (field_at gs (get_enemy_idx (gs_cur gs))) (\<lambda>f. Inr (all_ships_destroyed f))"

definition send_game_result :: "nat \<Rightarrow> Server \<Rightarrow> Server res" where
  "send_game_result s sv =
     (let cur = gs_cur (sess sv s) in
      rbind (send_to s cur (new_msg (GameStateMsg (GameState_code WIN_GAME))) sv) (\<lambda>sv1.
      send_to s (get_enemy_idx cur) (new_msg (GameStateMsg (GameState_code LOSE_GAME))) sv1))"

definition change_turn_player :: "nat \<Rightarrow> Server \<Rightarrow> Server res" where
  "change_turn_player s sv =
     (if gs_state (sess sv s) \<noteq> PROCESS_TURN then Inr sv
      else
        rbind (register_last_shot s sv) (\<lambda>(shot_res, sv1).
        rbind (send_fields s sv1) (\<lambda>sv2.
        rbind (is_game_over (sess sv2 s)) (\<lambda>over.
          if over then
            rbind (send_game_result s sv2) (\<lambda>sv3.
              Inr (snd (add_timeout_handler (mk_timeout EndGameTimeout WAIT_DURATION s) sv3)))
          else
            start_new_turn s
              (if shot_res \<noteq> CELL_DAMAGED then mod_session s change_cur_turn_player_idx sv2 else sv2)))))"

definition end_game :: "nat \<Rightarrow> Server \<Rightarrow> Server res" where
  "end_game s sv = rfor [0, 1] (\<lambda>i sv. disconnect_client (gs_players (sess sv s) ! i) sv) sv"

section \<open>Timeout events\<close>

definition timeout_event :: "Timeout \<Rightarrow> Server \<Rightarrow> Server res" where
  "timeout_event t sv =
     (case to_kind t of
        PreparationTimeout \<Rightarrow> stop_preparation (to_session t) sv
      | CheckStartFieldsTimeout \<Rightarrow> check_start_fields (to_session t) sv
      | GameStartTimeout \<Rightarrow> start_game (to_session t) sv
      | GameTurnTimeout \<Rightarrow> end_turn (to_session t) sv
      | ChangeTurnTimeout \<Rightarrow> change_turn_player (to_session t) sv
      | EndGameTimeout \<Rightarrow> end_game (to_session t) sv)"

end
