(* ===== verification/BsServer.thy ===== *)
theory BsServer
  imports GameSession
begin

text \<open>
  The server (\<^verbatim>\<open>src/server/bs_server.h\<close>, \<^verbatim>\<open>bs_server.cpp\<close>) and the operations of a client that need
  the sessions (\<^verbatim>\<open>client_data.cpp\<close>): joining a game, handling the messages of a client, and one
  iteration of the main loop. What the operating system answers in an iteration is a
  \<open>SelectInput\<close>: the result of \<^verbatim>\<open>select\<close>, the times of day around it, the result of \<^verbatim>\<open>accept\<close>, which
  descriptors are ready, and what \<^verbatim>\<open>read\<close> and \<^verbatim>\<open>write\<close> do. Setting up the socket and the log are
  left out.
\<close>

section \<open>Joining a game\<close>

definition GAME_COUNT :: int where "GAME_COUNT = 5"
definition CLIENT_QUEUE_LEN :: int where "CLIENT_QUEUE_LEN = 10"

definition mk_server :: "int \<Rightarrow> (nat \<Rightarrow> nat) \<Rightarrow> nat \<Rightarrow> Server" where
  "mk_server clock rand bound = \<lparr>sv_clients = (\<lambda>_. None), sv_next_client = 0, sv_sessions = [],
     sv_handlers = (\<lambda>_. None), sv_next_handler = 0, sv_timeouts = [],
     sv_queue = mk_client_array CLIENT_QUEUE_LEN, sv_in_game = mk_client_array (GAME_COUNT * 2),
     sv_msg_num = START_REG_NUM, sv_clock = clock, sv_rand = rand, sv_rand_pos = 0, sv_bound = bound\<rparr>"

definition set_game_session :: "nat \<Rightarrow> nat option \<Rightarrow> Server \<Rightarrow> (bool \<times> Server) res" where
  "set_game_session c p_session sv =
     (case sv_clients sv c of
        None \<Rightarrow> Inl UseAfterFree
      | Some cl \<Rightarrow>
          (case p_session of
             None \<Rightarrow> Inr (False, sv)
           | Some s \<Rightarrow>
               (if cd_session cl \<noteq> None then Inr (False, sv)
                else
                  (let (ok, gs) = set_player (Some c) (sess sv s) in
                   if ok then
                     rbind (on_client (Some c) (\<lambda>cl. cl\<lparr>cd_session := Some s\<rparr>)
                              (mod_session s (\<lambda>_. gs) sv))
                       (\<lambda>sv1. Inr (True, sv1))
                   else Inr (False, sv)))))"

definition change_client_queue :: "nat \<Rightarrow> bool \<Rightarrow> Server \<Rightarrow> (bool \<times> Server) res" where
  "change_client_queue c to_game sv =
     (if to_game then
        (let (ok, ca) = ca_add (sv_in_game sv) (Some c) in
         if ok then Inr (True, sv\<lparr>sv_in_game := ca, sv_queue := ca_remove (sv_queue sv) (Some c)\<rparr>)
         else Inr (False, sv))
      else
        (let (ok, ca) = ca_add (sv_queue sv) (Some c) in
         if ok then
           rbind (disconnect_from_game_session c
                    (sv\<lparr>sv_queue := ca, sv_in_game := ca_remove (sv_in_game sv) (Some c)\<rparr>))
             (\<lambda>sv1. Inr (True, sv1))
         else Inr (False, sv)))"

text \<open>The loop over the existing sessions: the first one the player can join, if any.\<close>

fun join_walk :: "nat \<Rightarrow> nat list \<Rightarrow> Server \<Rightarrow> (bool \<times> Server) res" where
  "join_walk c [] sv = Inr (False, sv)"
| "join_walk c (s # ss) sv =
     rbind (set_game_session c (Some s) sv)
       (\<lambda>(ok, sv1). if ok then Inr (True, sv1) else join_walk c ss sv1)"

definition connect_player_to_game :: "nat \<Rightarrow> Server \<Rightarrow> (bool \<times> Server) res" where
  "connect_player_to_game c sv =
     rbind (join_walk c [0..<length (sv_sessions sv)] sv) (\<lambda>(joined, sv1).
       if joined then change_client_queue c True sv1
       else if int (length (sv_sessions sv1)) = GAME_COUNT then Inr (False, sv1)
       else
         (let s = length (sv_sessions sv1);
              sv2 = sv1\<lparr>sv_sessions := sv_sessions sv1 @ [mk_session]\<rparr>
          in rbind (set_game_session c (Some s) sv2) (\<lambda>(_, sv3). change_client_queue c True sv3)))"

section \<open>Messages of a client\<close>

definition session_of :: "nat \<Rightarrow> Server \<Rightarrow> nat option res" where
  "session_of c sv = (case sv_clients sv c of None \<Rightarrow> Inl UseAfterFree | Some cl \<Rightarrow> Inr (cd_session cl))"

definition send :: "nat \<Rightarrow> msg_body \<Rightarrow> Server \<Rightarrow> Server res" where
  "send c b sv = on_client (Some c) (send_msg (Some (new_msg b))) sv"

definition send_error :: "nat \<Rightarrow> byte list \<Rightarrow> Server \<Rightarrow> Server res" where
  "send_error c text sv = on_client (Some c) (send_msg (Some (new_error text))) sv"

text \<open>The texts of the error messages, in ASCII.\<close>

definition NOT_IN_GAME :: "byte list" where
  "NOT_IN_GAME = map (word_of_nat \<circ> of_char) ''You are not in the game''"

definition INVALID_FIELD :: "byte list" where
  "INVALID_FIELD = map (word_of_nat \<circ> of_char) ''Invalid game field. Correct it!''"

definition CANT_SET_FIELD :: "byte list" where
  "CANT_SET_FIELD = map (word_of_nat \<circ> of_char) ''Can't set the game field''"

definition process_game_session_req_msg :: "nat \<Rightarrow> Server \<Rightarrow> Server res" where
  "process_game_session_req_msg c sv =
     rbind (session_of c sv) (\<lambda>gs.
     rbind (case gs of
              Some s \<Rightarrow> Inr (gs_state (sess sv s), sv)
            | None \<Rightarrow>
                rbind (connect_player_to_game c sv) (\<lambda>(ok, sv1).
                  if ok then
                    rbind (session_of c sv1) (\<lambda>gs'.
                      case gs' of
                        None \<Rightarrow> Inl NullDeref
                      | Some s \<Rightarrow> Inr (gs_state (sess sv1 s), sv1))
                  else Inr (NO_VACANT_GAME, sv1)))
       (\<lambda>(result, sv2).
          if result = WAIT_PREPARATION then
            rbind (session_of c sv2) (\<lambda>gs'.
              case gs' of None \<Rightarrow> Inl NullDeref | Some s \<Rightarrow> start_preparation s sv2)
          else send c (GameStateMsg (GameState_code result)) sv2))"

definition process_game_field_msg :: "nat \<Rightarrow> int \<Rightarrow> GameField \<Rightarrow> Server \<Rightarrow> Server res" where
  "process_game_field_msg c mid field sv =
     rbind (session_of c sv) (\<lambda>gs.
       case gs of
         None \<Rightarrow> send_error c NOT_IN_GAME sv
       | Some s \<Rightarrow>
           (if \<not> is_valid_start_field field then send_error c INVALID_FIELD sv
            else
              (let (ok, gs') = set_field (Some c) field (sess sv s) in
               if ok then on_client (Some c) (send_receipt mid) (mod_session s (\<lambda>_. gs') sv)
               else send_error c CANT_SET_FIELD sv)))"

definition process_game_move_msg :: "nat \<Rightarrow> Point \<Rightarrow> Server \<Rightarrow> Server res" where
  "process_game_move_msg c point sv =
     rbind (session_of c sv) (\<lambda>gs.
       case gs of
         None \<Rightarrow> send_error c NOT_IN_GAME sv
       | Some s \<Rightarrow>
           (let state = get_game_state (sess sv s) in
            if state = GAME_TURN \<or> state = PROCESS_TURN then
              (let (ok, gs') = set_last_shot point (Some c) (sess sv s) in
               if ok then end_turn s (mod_session s (\<lambda>_. gs') sv) else Inr sv)
            else Inr sv))"

definition process_receipt :: "nat \<Rightarrow> int \<Rightarrow> Server \<Rightarrow> Server res" where
  "process_receipt c mid sv =
     (case sv_clients sv c of
        None \<Rightarrow> Inl UseAfterFree
      | Some cl \<Rightarrow>
          rbind (process_receipt_msg mid cl)
            (\<lambda>cl'. Inr (sv\<lparr>sv_clients := (sv_clients sv)(c := Some cl')\<rparr>)))"

text \<open>One message; \<open>INVALID_MSG\<close> and \<open>UNDEFINED_MSG\<close> are not the type of any message.\<close>

definition process_one :: "nat \<Rightarrow> Message \<Rightarrow> Server \<Rightarrow> Server res" where
  "process_one c m sv =
     rbind (case msg_body m of
              GameSessionReqMsg \<Rightarrow> process_game_session_req_msg c sv
            | GameFieldMsg field _ \<Rightarrow> process_game_field_msg c (msg_id m) field sv
            | GameMoveMsg point \<Rightarrow> process_game_move_msg c point sv
            | ReceiptMsg mid \<Rightarrow> process_receipt c mid sv
            | _ \<Rightarrow> Inr sv)
       (\<lambda>sv1. if msg_type m \<noteq> RECEIPT_MSG then on_client (Some c) (send_receipt (msg_id m)) sv1
               else Inr sv1)"

fun process_loop :: "nat \<Rightarrow> nat \<Rightarrow> Server \<Rightarrow> Server res" where
  "process_loop 0 c sv = Inl Diverges"
| "process_loop (Suc n) c sv =
     (case sv_clients sv c of
        None \<Rightarrow> Inl UseAfterFree
      | Some cl \<Rightarrow>
          (case cd_to_process cl of
             [] \<Rightarrow> Inr sv
           | m # ms \<Rightarrow>
               rbind (on_client (Some c) (\<lambda>cl. cl\<lparr>cd_to_process := ms\<rparr>) sv) (\<lambda>sv1.
               rbind (process_one c m sv1) (process_loop n c))))"

definition process_msg :: "nat \<Rightarrow> Server \<Rightarrow> Server res" where
  "process_msg c sv =
     (case sv_clients sv c of
        None \<Rightarrow> Inl UseAfterFree
      | Some cl \<Rightarrow> process_loop (Suc (length (cd_to_process cl))) c sv)"

section \<open>Reading and writing\<close>

definition client_read_msg :: "(int \<Rightarrow> nat \<Rightarrow> byte list option) \<Rightarrow> nat \<Rightarrow> Server \<Rightarrow> (BuffError \<times> Server) res" where
  "client_read_msg read_fd c sv =
     (case sv_clients sv c of
        None \<Rightarrow> Inl UseAfterFree
      | Some cl \<Rightarrow>
          rbind (client_read (read_fd (cd_fd cl)) cl) (\<lambda>(err, cl').
            (let sv1 = sv\<lparr>sv_clients := (sv_clients sv)(c := Some cl')\<rparr> in
             if err = CONN_BROKEN then
               rbind (disconnect_from_game_session c sv1) (\<lambda>sv2. Inr (CONN_BROKEN, sv2))
             else Inr (err, sv1))))"

definition client_write_msg :: "(int \<Rightarrow> nat \<Rightarrow> int) \<Rightarrow> nat \<Rightarrow> Server \<Rightarrow> Server res" where
  "client_write_msg write_fd c sv =
     (case sv_clients sv c of
        None \<Rightarrow> Inl UseAfterFree
      | Some cl \<Rightarrow>
          rbind (write_msg (sv_clock sv) (write_fd (cd_fd cl)) (sv_msg_num sv) cl) (\<lambda>(_, n, cl').
            Inr (sv\<lparr>sv_clients := (sv_clients sv)(c := Some cl'), sv_msg_num := n\<rparr>)))"

section \<open>The main loop\<close>

record SelectInput =
  si_result :: int
  si_before :: "int \<times> int"
  si_after :: "int \<times> int"
  si_listen :: bool
  si_accept :: int
  si_readable :: "int \<Rightarrow> bool"
  si_writable :: "int \<Rightarrow> bool"
  si_read :: "int \<Rightarrow> nat \<Rightarrow> byte list option"
  si_write :: "int \<Rightarrow> nat \<Rightarrow> int"
  si_clock :: int

text \<open>
  The loops of \<open>_fill_fd_sets\<close> and \<open>_process_fd_actions\<close> run over the elements of an array until as
  many clients were met as it counts, with no bound on the index; past the end of the array there
  is no client any more, so a loop that gets there never ends. The macros \<^verbatim>\<open>FD_SET\<close> and
  \<^verbatim>\<open>FD_ISSET\<close> access an array of the operating system with the descriptor as its index.
\<close>

definition fd_set :: "int \<Rightarrow> int list \<Rightarrow> int list res" where
  "fd_set fd fds = (if fd < 0 \<or> fd \<ge> FD_SETSIZE then Inl OutOfBounds else Inr (fd # fds))"

fun fill_walk :: "nat \<Rightarrow> ClientArray \<Rightarrow> int \<Rightarrow> int \<Rightarrow> Server \<Rightarrow> int list \<times> int list \<Rightarrow> (int list \<times> int list) res" where
  "fill_walk 0 ca i unprocessed sv fds = Inl Diverges"
| "fill_walk (Suc n) ca i unprocessed sv fds =
     (if unprocessed \<le> 0 then Inr fds
      else
        (case ca_index ca i of
           None \<Rightarrow> fill_walk n ca (i + 1) unprocessed sv fds
         | Some c \<Rightarrow>
             (case sv_clients sv c of
                None \<Rightarrow> Inl UseAfterFree
              | Some cl \<Rightarrow>
                  rbind (fd_set (get_fd cl) (fst fds)) (\<lambda>readfds.
                  rbind (if ready_write cl then fd_set (get_fd cl) (snd fds) else Inr (snd fds)) (\<lambda>writefds.
                  fill_walk n ca (i + 1) (unprocessed - 1) sv (readfds, writefds))))))"

definition fill_fd_sets :: "Server \<Rightarrow> (int list \<times> int list) res" where
  "fill_fd_sets sv =
     rbind (fill_walk (Suc (length (ca_clients (sv_in_game sv)))) (sv_in_game sv) 0
              (ca_get_count (sv_in_game sv)) sv ([], []))
       (fill_walk (Suc (length (ca_clients (sv_queue sv)))) (sv_queue sv) 0
              (ca_get_count (sv_queue sv)) sv)"

definition accept_new_connection :: "SelectInput \<Rightarrow> Server \<Rightarrow> Server" where
  "accept_new_connection inp sv =
     (if is_full (sv_queue sv) then sv
      else
        (let c = sv_next_client sv;
             sv1 = sv\<lparr>sv_clients := (sv_clients sv)(c := Some mk_client), sv_next_client := Suc c\<rparr>
         in
         if si_accept inp = -1 then sv1\<lparr>sv_clients := (sv_clients sv1)(c := None)\<rparr>
         else
           sv1\<lparr>sv_queue := snd (ca_add (sv_queue sv1) (Some c)),
               sv_clients := (sv_clients sv1)(c := Some (set_fd (si_accept inp) mk_client))\<rparr>))"

definition fd_actions :: "SelectInput \<Rightarrow> int list \<times> int list \<Rightarrow> nat \<Rightarrow> Server \<Rightarrow> Server res" where
  "fd_actions inp fds c sv =
     (case sv_clients sv c of
        None \<Rightarrow> Inl UseAfterFree
      | Some cl \<Rightarrow>
          (let fd = get_fd cl in
           if fd < 0 \<or> fd \<ge> FD_SETSIZE then Inl OutOfBounds else
           rbind (if fd \<in> set (fst fds) \<and> si_readable inp fd
                  then client_read_msg (si_read inp) c sv else Inr (BUFF_OK, sv))
             (\<lambda>(err, sv1).
                if err = CONN_BROKEN then disconnect_client (Some c) sv1
                else
                  rbind (if fd \<in> set (snd fds) \<and> si_writable inp fd
                         then client_write_msg (si_write inp) c sv1 else Inr sv1)
                    (process_msg c))))"

fun fd_actions_walk :: "nat \<Rightarrow> SelectInput \<Rightarrow> int list \<times> int list \<Rightarrow> (Server \<Rightarrow> ClientArray) \<Rightarrow> int \<Rightarrow> int
    \<Rightarrow> Server \<Rightarrow> Server res" where
  "fd_actions_walk 0 inp fds arr i unprocessed sv = Inl Diverges"
| "fd_actions_walk (Suc n) inp fds arr i unprocessed sv =
     (if unprocessed \<le> 0 then Inr sv
      else
        (case ca_index (arr sv) i of
           None \<Rightarrow> fd_actions_walk n inp fds arr (i + 1) unprocessed sv
         | Some c \<Rightarrow>
             rbind (fd_actions inp fds c sv)
               (fd_actions_walk n inp fds arr (i + 1) (unprocessed - 1))))"

definition process_fd_actions :: "SelectInput \<Rightarrow> int list \<times> int list \<Rightarrow> Server \<Rightarrow> Server res" where
  "process_fd_actions inp fds sv =
     rbind (fd_actions_walk (Suc (length (ca_clients (sv_in_game sv)))) inp fds sv_in_game 0
              (ca_get_count (sv_in_game sv)) sv)
       (\<lambda>sv1. fd_actions_walk (Suc (length (ca_clients (sv_queue sv1)))) inp fds sv_queue 0
                 (ca_get_count (sv_queue sv1)) sv1)"

text \<open>
  The loop of \<open>_process_timeouts\<close>. It takes the handlers from the front of the list, also the ones
  the events add, and keeps those that have not elapsed in the list \<open>tmp\<close>, which becomes the new
  list in the end. \<open>n\<close> bounds the number of handlers processed.
\<close>

fun timeouts_loop :: "nat \<Rightarrow> int \<times> int \<Rightarrow> nat list \<Rightarrow> Server \<Rightarrow> (nat list \<times> Server) res" where
  "timeouts_loop 0 passed tmp sv = Inl OutOfFuel"
| "timeouts_loop (Suc n) passed tmp sv =
     (case sv_timeouts sv of
        [] \<Rightarrow> Inr (tmp, sv)
      | a # as \<Rightarrow>
          (case sv_handlers sv a of
             None \<Rightarrow> Inl UseAfterFree
           | Some t \<Rightarrow>
               (let (fired, t1) = th_process (fst passed) (snd passed) t;
                    sv1 = sv\<lparr>sv_timeouts := as, sv_handlers := (sv_handlers sv)(a := Some t1)\<rparr>
                in
                rbind (if fired then timeout_event t1 sv1 else Inr sv1) (\<lambda>sv2.
                  case sv_handlers sv2 a of
                    None \<Rightarrow> Inl UseAfterFree
                  | Some t2 \<Rightarrow>
                      (if \<not> th_elapsed t2 then timeouts_loop n passed (tmp @ [a]) sv2
                       else timeouts_loop n passed tmp (sv2\<lparr>sv_handlers := (sv_handlers sv2)(a := None)\<rparr>))))))"

definition process_timeouts :: "nat \<Rightarrow> int \<times> int \<Rightarrow> Server \<Rightarrow> Server res" where
  "process_timeouts n passed sv =
     (if sv_timeouts sv = [] then Inr sv
      else rbind (timeouts_loop n passed [] sv) (\<lambda>(tmp, sv1). Inr (sv1\<lparr>sv_timeouts := tmp\<rparr>)))"

definition process_select_result :: "nat \<Rightarrow> SelectInput \<Rightarrow> int \<times> int \<Rightarrow> int list \<times> int list \<Rightarrow> Server \<Rightarrow> Server res" where
  "process_select_result n inp passed_time fds sv =
     (if si_result inp = -1 then Inr sv
      else
        rbind (process_timeouts n passed_time sv) (\<lambda>sv1.
          if si_result inp \<noteq> 0 then
            process_fd_actions inp fds (if si_listen inp then accept_new_connection inp sv1 else sv1)
          else Inr sv1))"

text \<open>The elapsed time of an iteration, from the times of day before and after \<^verbatim>\<open>select\<close>.\<close>

definition elapsed_time :: "int \<times> int \<Rightarrow> int \<times> int \<Rightarrow> int \<times> int" where
  "elapsed_time before_select after_select =
     (let usec = snd after_select - snd before_select;
          (sec, usec') = (if usec < 0
                          then (let sec = fst after_select - 1 in
                                if sec \<ge> 0 then (sec, usec + 1000000) else (sec, usec))
                          else (fst after_select, usec))
      in (sec - fst before_select, usec'))"

definition run_iteration :: "nat \<Rightarrow> SelectInput \<Rightarrow> Server \<Rightarrow> Server res" where
  "run_iteration n inp sv =
     rbind (fill_fd_sets sv) (\<lambda>fds.
       process_select_result n inp (elapsed_time (si_before inp) (si_after inp)) fds (sv\<lparr>sv_clock := si_clock inp\<rparr>))"

section \<open>Reachable states\<close>

definition server_start :: "Server \<Rightarrow> bool" where
  "server_start sv \<longleftrightarrow> (\<exists>clock rand bound. sv = mk_server clock rand bound)"

text \<open>
  An input of the server is the answers of the operating system and the bound of the loop over the
  handlers.
\<close>

definition server_step :: "nat \<times> SelectInput \<Rightarrow> Server \<Rightarrow> Server res" where
  "server_step inp sv = run_iteration (fst inp) (snd inp) sv"

abbreviation server_reachable :: "Server \<Rightarrow> bool" where
  "server_reachable \<equiv> reach server_start server_step"

end
