(* ===== verification/ServerInv.thy ===== *)
theory ServerInv
  imports BsServer
begin

text \<open>
  The invariant of the server and its preservation by every operation of a session: how the state
  of a session and the number of its players belong together, that clients and sessions refer to
  each other, that the two client arrays hold exactly the clients with and without a session, and
  that a turn under way has a timeout handler that is alive.
\<close>

section \<open>The invariant\<close>

definition players_of :: "GameSession \<Rightarrow> nat set" where
  "players_of gs = {c. Some c \<in> set (gs_players gs)}"

definition state_ok :: "GameSession \<Rightarrow> bool" where
  "state_ok gs \<longleftrightarrow>
     (gs_state gs = NO_VACANT_GAME \<longleftrightarrow> get_players_count gs = 0)
     \<and> (gs_state gs = WAIT_PLAYER \<longleftrightarrow> get_players_count gs = 1)
     \<and> gs_state gs \<notin> {OWN_TURN, ENEMY_TURN, WIN_GAME, LOSE_GAME}"

definition session_ok :: "GameSession \<Rightarrow> bool" where
  "session_ok gs \<longleftrightarrow>
     (\<exists>p q. gs_players gs = [p, q] \<and> (p = q \<longrightarrow> p = None))
     \<and> (\<exists>f g. gs_fields gs = [f, g] \<and> wf_field f \<and> wf_field g)
     \<and> (gs_cur gs = 0 \<or> gs_cur gs = 1) \<and> state_ok gs"

definition links_ok :: "Server \<Rightarrow> bool" where
  "links_ok sv \<longleftrightarrow> (\<forall>c s. (\<exists>cl. sv_clients sv c = Some cl \<and> cd_session cl = Some s)
     \<longleftrightarrow> s < length (sv_sessions sv) \<and> c \<in> players_of (sess sv s))"

definition with_session :: "Server \<Rightarrow> nat set" where
  "with_session sv = {c. \<exists>cl. sv_clients sv c = Some cl \<and> cd_session cl \<noteq> None}"

definition without_session :: "Server \<Rightarrow> nat set" where
  "without_session sv = {c. \<exists>cl. sv_clients sv c = Some cl \<and> cd_session cl = None}"

definition arrays_wf :: "Server \<Rightarrow> bool" where
  "arrays_wf sv \<longleftrightarrow> ca_wf (sv_in_game sv) \<and> ca_wf (sv_queue sv)
     \<and> ca_size (sv_in_game sv) = 10 \<and> ca_size (sv_queue sv) = 10
     \<and> length (sv_sessions sv) \<le> 5 \<and> (\<forall>c. sv_clients sv c \<noteq> None \<longrightarrow> c < sv_next_client sv)"

definition arrays_ok :: "Server \<Rightarrow> bool" where
  "arrays_ok sv \<longleftrightarrow> ca_set (sv_in_game sv) = with_session sv \<and> ca_set (sv_queue sv) = without_session sv"

text \<open>
  The handler of a turn under way. The addresses of \<open>X\<close> may have elapsed already; that is the case
  of the handler whose event is being processed.
\<close>

definition turn_at :: "nat set \<Rightarrow> Server \<Rightarrow> nat \<Rightarrow> GameSession \<Rightarrow> bool" where
  "turn_at X sv s gs \<longleftrightarrow> (gs_state gs = GAME_TURN \<longrightarrow>
     (\<exists>a t. gs_turn_timeout gs = Some a \<and> sv_handlers sv a = Some t \<and> to_kind t = GameTurnTimeout
        \<and> to_session t = s \<and> (a \<notin> X \<longrightarrow> \<not> th_elapsed t)))"

definition handlers_ok :: "nat set \<Rightarrow> nat set \<Rightarrow> Server \<Rightarrow> bool" where
  "handlers_ok X S sv \<longleftrightarrow>
     (\<forall>a t. sv_handlers sv a = Some t \<longrightarrow> to_session t < length (sv_sessions sv) \<and> a < sv_next_handler sv)
     \<and> distinct (sv_timeouts sv) \<and> (\<forall>a \<in> set (sv_timeouts sv). sv_handlers sv a \<noteq> None)
     \<and> (\<forall>s < length (sv_sessions sv). s \<notin> S \<longrightarrow> turn_at X sv s (sess sv s))"

definition sessions_ok :: "Server \<Rightarrow> bool" where
  "sessions_ok sv \<longleftrightarrow> (\<forall>gs \<in> set (sv_sessions sv). session_ok gs)"

text \<open>The invariant without the contents of the client arrays, and all of it.\<close>

definition core_inv :: "nat set \<Rightarrow> nat set \<Rightarrow> Server \<Rightarrow> bool" where
  "core_inv X S sv \<longleftrightarrow> sessions_ok sv \<and> links_ok sv \<and> arrays_wf sv \<and> handlers_ok X S sv"

definition winv :: "nat set \<Rightarrow> nat set \<Rightarrow> Server \<Rightarrow> bool" where
  "winv X S sv \<longleftrightarrow> core_inv X S sv \<and> arrays_ok sv"

definition server_inv :: "Server \<Rightarrow> bool" where
  "server_inv sv = winv {} {} sv"

section \<open>Sessions\<close>

lemma sessions_okD: "sessions_ok sv \<Longrightarrow> s < length (sv_sessions sv) \<Longrightarrow> session_ok (sess sv s)"
  by (simp add: sessions_ok_def)

lemma core_inv_session: "core_inv X S sv \<Longrightarrow> s < length (sv_sessions sv) \<Longrightarrow> session_ok (sess sv s)"
  by (simp add: core_inv_def sessions_okD)

lemma get_players_count_pair [simp]:
  "gs_players gs = [p, q] \<Longrightarrow> get_players_count gs = (if p = None then 0 else 1) + (if q = None then 0 else 1)"
  by (simp add: get_players_count_def)

text \<open>In every state beyond waiting for a player there are two different players.\<close>

lemma session_two_players:
  assumes "session_ok gs" "gs_state gs \<noteq> NO_VACANT_GAME" "gs_state gs \<noteq> WAIT_PLAYER"
  obtains p q where "gs_players gs = [Some p, Some q]" "p \<noteq> q"
proof -
  obtain x y where xy: "gs_players gs = [x, y]" "x = y \<longrightarrow> x = None"
    using assms(1) by (auto simp: session_ok_def)
  then have "x \<noteq> None" "y \<noteq> None"
    using assms by (auto simp: session_ok_def state_ok_def split: if_splits)
  then show thesis using xy that by auto
qed

lemma sess_mod [simp]:
  "s < length (sv_sessions sv) \<Longrightarrow> sess (mod_session s f sv) t = (if t = s then f (sess sv s) else sess sv t)"
  by (simp add: mod_session_def nth_list_update)

lemma mod_session_simps [simp]:
  "sv_clients (mod_session s f sv) = sv_clients sv" "sv_handlers (mod_session s f sv) = sv_handlers sv"
  "sv_timeouts (mod_session s f sv) = sv_timeouts sv" "sv_next_handler (mod_session s f sv) = sv_next_handler sv"
  "sv_queue (mod_session s f sv) = sv_queue sv" "sv_in_game (mod_session s f sv) = sv_in_game sv"
  "sv_next_client (mod_session s f sv) = sv_next_client sv" "sv_clock (mod_session s f sv) = sv_clock sv"
  "length (sv_sessions (mod_session s f sv)) = length (sv_sessions sv)"
  "sv_bound (mod_session s f sv) = sv_bound sv" "sv_msg_num (mod_session s f sv) = sv_msg_num sv"
  by (simp_all add: mod_session_def)

lemma set_mod_session:
  "s < length (sv_sessions sv) \<Longrightarrow> gs \<in> set (sv_sessions (mod_session s f sv)) \<Longrightarrow> gs = f (sess sv s) \<or> gs \<in> set (sv_sessions sv)"
  by (auto simp: mod_session_def dest!: set_update_subset_insert [THEN subsetD])

text \<open>A change of a session that keeps its players.\<close>

lemma core_inv_mod:
  assumes "core_inv X S sv" "s < length (sv_sessions sv)" "session_ok (f (sess sv s))"
    "gs_players (f (sess sv s)) = gs_players (sess sv s)"
    "s \<in> S' \<or> turn_at X sv s (f (sess sv s))" "S \<subseteq> insert s S'"
  shows "core_inv X S' (mod_session s f sv)"
proof -
  have "sessions_ok (mod_session s f sv)"
    using assms by (auto simp: sessions_ok_def core_inv_def dest!: set_mod_session)
  moreover have "links_ok (mod_session s f sv)"
    using assms by (simp add: core_inv_def links_ok_def players_of_def)
  moreover have "turn_at X (mod_session s f sv) t gs = turn_at X sv t gs" for t gs
    by (simp add: turn_at_def)
  then have "handlers_ok X S' (mod_session s f sv)"
    using assms by (auto simp: core_inv_def handlers_ok_def)
  ultimately show ?thesis using assms(1) by (simp add: core_inv_def arrays_wf_def)
qed

lemma arrays_ok_mod [simp]: "arrays_ok (mod_session s f sv) = arrays_ok sv"
  by (simp add: arrays_ok_def with_session_def without_session_def)

lemma inv_mod:
  assumes "winv X S sv" "s < length (sv_sessions sv)" "session_ok (f (sess sv s))"
    "gs_players (f (sess sv s)) = gs_players (sess sv s)"
    "s \<in> S' \<or> turn_at X sv s (f (sess sv s))" "S \<subseteq> insert s S'"
  shows "winv X S' (mod_session s f sv)"
  using assms core_inv_mod [of X S sv s f S'] by (simp add: winv_def)

section \<open>Messages to clients\<close>

text \<open>Two servers that differ in the messages and buffers of the clients only.\<close>

definition same_but_msgs :: "Server \<Rightarrow> Server \<Rightarrow> bool" where
  "same_but_msgs sv sv' \<longleftrightarrow> (\<exists>cs n. sv' = sv\<lparr>sv_clients := cs, sv_msg_num := n\<rparr>
     \<and> (\<forall>c. map_option cd_session (cs c) = map_option cd_session (sv_clients sv c)
          \<and> map_option cd_fd (cs c) = map_option cd_fd (sv_clients sv c)))"

lemma same_refl [simp]: "same_but_msgs sv sv"
proof -
  have "sv = sv\<lparr>sv_clients := sv_clients sv, sv_msg_num := sv_msg_num sv\<rparr>" by simp
  then show ?thesis unfolding same_but_msgs_def by blast
qed

lemma same_simps:
  assumes "same_but_msgs sv sv'"
  shows "sv_sessions sv' = sv_sessions sv" "sv_handlers sv' = sv_handlers sv"
    "sv_timeouts sv' = sv_timeouts sv" "sv_next_handler sv' = sv_next_handler sv"
    "sv_queue sv' = sv_queue sv" "sv_in_game sv' = sv_in_game sv" "sv_next_client sv' = sv_next_client sv"
    "sv_clock sv' = sv_clock sv" "sv_bound sv' = sv_bound sv" "sv_rand sv' = sv_rand sv"
    "sv_rand_pos sv' = sv_rand_pos sv"
    "map_option cd_session (sv_clients sv' c) = map_option cd_session (sv_clients sv c)"
    "sv_clients sv' c = None \<longleftrightarrow> sv_clients sv c = None"
    "map_option cd_fd (sv_clients sv' c) = map_option cd_fd (sv_clients sv c)"
proof -
  obtain cs n where sv': "sv' = sv\<lparr>sv_clients := cs, sv_msg_num := n\<rparr>"
    and cs: "\<And>c. map_option cd_session (cs c) = map_option cd_session (sv_clients sv c)"
      "\<And>c. map_option cd_fd (cs c) = map_option cd_fd (sv_clients sv c)"
    using assms unfolding same_but_msgs_def by blast
  show "sv_sessions sv' = sv_sessions sv" "sv_handlers sv' = sv_handlers sv"
    "sv_timeouts sv' = sv_timeouts sv" "sv_next_handler sv' = sv_next_handler sv"
    "sv_queue sv' = sv_queue sv" "sv_in_game sv' = sv_in_game sv" "sv_next_client sv' = sv_next_client sv"
    "sv_clock sv' = sv_clock sv" "sv_bound sv' = sv_bound sv" "sv_rand sv' = sv_rand sv"
    "sv_rand_pos sv' = sv_rand_pos sv"
    by (simp_all add: sv')
  show "map_option cd_session (sv_clients sv' c) = map_option cd_session (sv_clients sv c)"
    "map_option cd_fd (sv_clients sv' c) = map_option cd_fd (sv_clients sv c)"
    by (simp_all add: sv' cs)
  then show "sv_clients sv' c = None \<longleftrightarrow> sv_clients sv c = None" by (metis option.map_disc_iff)
qed

lemma same_trans: "same_but_msgs sv sv1 \<Longrightarrow> same_but_msgs sv1 sv2 \<Longrightarrow> same_but_msgs sv sv2"
proof -
  assume s1: "same_but_msgs sv sv1" and s2: "same_but_msgs sv1 sv2"
  from s1 obtain cs n where c1: "sv1 = sv\<lparr>sv_clients := cs, sv_msg_num := n\<rparr>"
    unfolding same_but_msgs_def by blast
  from s2 obtain cs' n' where c2: "sv2 = sv1\<lparr>sv_clients := cs', sv_msg_num := n'\<rparr>"
    unfolding same_but_msgs_def by blast
  have "sv2 = sv\<lparr>sv_clients := cs', sv_msg_num := n'\<rparr>" by (simp add: c1 c2)
  moreover have "map_option cd_session (cs' c) = map_option cd_session (sv_clients sv c)"
    "map_option cd_fd (cs' c) = map_option cd_fd (sv_clients sv c)" for c
    using same_simps(12,14) [OF s1, of c] same_simps(12,14) [OF s2, of c] by (simp_all add: c2)
  ultimately show ?thesis unfolding same_but_msgs_def by blast
qed

lemma has_session_iff:
  "(\<exists>cl. sv_clients sv c = Some cl \<and> cd_session cl = x) \<longleftrightarrow> map_option cd_session (sv_clients sv c) = Some x"
  by auto

lemma with_session_iff:
  "c \<in> with_session sv \<longleftrightarrow> (\<exists>s. map_option cd_session (sv_clients sv c) = Some (Some s))"
  by (auto simp: with_session_def)

lemma without_session_iff:
  "c \<in> without_session sv \<longleftrightarrow> map_option cd_session (sv_clients sv c) = Some None"
  by (auto simp: without_session_def)

lemma same_core_inv:
  assumes "same_but_msgs sv sv'"
  shows "core_inv X S sv' = core_inv X S sv"
proof -
  note same = same_simps [OF assms]
  have "links_ok sv' = links_ok sv"
    unfolding links_ok_def has_session_iff by (simp only: same)
  moreover have "arrays_wf sv' = arrays_wf sv"
    unfolding arrays_wf_def by (simp only: same)
  moreover have "handlers_ok X S sv' = handlers_ok X S sv"
    unfolding handlers_ok_def turn_at_def by (simp only: same)
  ultimately show ?thesis
    unfolding core_inv_def sessions_ok_def by (simp only: same)
qed

lemma same_arrays_ok: "same_but_msgs sv sv' \<Longrightarrow> arrays_ok sv' = arrays_ok sv"
proof -
  assume s: "same_but_msgs sv sv'"
  have "with_session sv' = with_session sv" "without_session sv' = without_session sv"
    unfolding set_eq_iff with_session_iff without_session_iff by (simp_all only: same_simps [OF s] simp_thms)
  then show ?thesis by (simp add: arrays_ok_def same_simps [OF s])
qed

lemma same_inv: "same_but_msgs sv sv' \<Longrightarrow> winv X S sv' = winv X S sv"
  by (simp add: winv_def same_core_inv same_arrays_ok)

lemma on_client_same:
  assumes "sv_clients sv c \<noteq> None" "\<And>cl. cd_session (f cl) = cd_session cl" "\<And>cl. cd_fd (f cl) = cd_fd cl"
  shows "ok_with (same_but_msgs sv) (on_client (Some c) f sv)"
proof -
  obtain cl where cl: "sv_clients sv c = Some cl" using assms(1) by auto
  have "sv\<lparr>sv_clients := (sv_clients sv)(c := Some (f cl))\<rparr>
      = sv\<lparr>sv_clients := (sv_clients sv)(c := Some (f cl)), sv_msg_num := sv_msg_num sv\<rparr>" by simp
  then show ?thesis
    using assms(2,3) cl unfolding on_client_def same_but_msgs_def
    by (auto intro!: exI [of _ "(sv_clients sv)(c := Some (f cl))"] exI [of _ "sv_msg_num sv"])
qed

lemma player_alive:
  assumes "core_inv X S sv" "s < length (sv_sessions sv)" "Some c \<in> set (gs_players (sess sv s))"
  shows "sv_clients sv c \<noteq> None"
  using assms by (auto simp: core_inv_def links_ok_def players_of_def)

lemma player_alive_nth:
  assumes "core_inv X S sv" "s < length (sv_sessions sv)" "gs_players (sess sv s) ! i = Some c" "i < 2"
  shows "sv_clients sv c \<noteq> None"
proof -
  have "length (gs_players (sess sv s)) = 2"
    using core_inv_session [OF assms(1,2)] by (auto simp: session_ok_def)
  then show ?thesis using player_alive [OF assms(1,2)] assms(3,4) by (metis nth_mem)
qed

lemma send_to_same:
  assumes "core_inv X S sv" "s < length (sv_sessions sv)" "i = 0 \<or> i = 1"
    "gs_state (sess sv s) \<noteq> NO_VACANT_GAME" "gs_state (sess sv s) \<noteq> WAIT_PLAYER"
  shows "ok_with (same_but_msgs sv) (send_to s i m sv)"
proof -
  obtain p q where pq: "gs_players (sess sv s) = [Some p, Some q]"
    using session_two_players [OF core_inv_session [OF assms(1,2)] assms(4,5)] by blast
  then have "sv_clients sv p \<noteq> None" "sv_clients sv q \<noteq> None"
    using player_alive [OF assms(1,2)] by auto
  then show ?thesis
    using assms(3) pq by (auto simp: send_to_def player_at_def PLAYERS_COUNT_def intro!: on_client_same)
qed

text \<open>A loop that sends to every player that is there.\<close>

lemma for_players_same:
  assumes "core_inv X S sv" "s < length (sv_sessions sv)"
  shows "ok_with (same_but_msgs sv)
    (rfor [0, 1] (\<lambda>i sv. if gs_players (sess sv s) ! i \<noteq> None
        then on_client (gs_players (sess sv s) ! i) (send_msg (m sv)) sv else Inr sv) sv)"
proof (rule ok_with_rfor)
  fix i :: nat and sv1 assume i: "i \<in> set [0, 1]" and s: "same_but_msgs sv sv1"
  show "ok_with (same_but_msgs sv) (if gs_players (sess sv1 s) ! i \<noteq> None
      then on_client (gs_players (sess sv1 s) ! i) (send_msg (m sv1)) sv1 else Inr sv1)"
  proof (cases "gs_players (sess sv1 s) ! i")
    case None
    then show ?thesis using s by simp
  next
    case (Some c)
    then have "sv_clients sv c \<noteq> None"
      using player_alive_nth [OF assms, of i c] i by (auto simp: same_simps [OF s])
    then have "ok_with (same_but_msgs sv1) (on_client (Some c) (send_msg (m sv1)) sv1)"
      by (intro on_client_same) (auto simp: same_simps [OF s])
    then show ?thesis using Some by (auto elim!: ok_with_mono intro: same_trans [OF s])
  qed
qed simp

lemma send_game_state_same:
  "core_inv X S sv \<Longrightarrow> s < length (sv_sessions sv) \<Longrightarrow> ok_with (same_but_msgs sv) (send_game_state_for_all s sv)"
  unfolding send_game_state_for_all_def by (rule for_players_same)

lemma send_for_all_same:
  "core_inv X S sv \<Longrightarrow> s < length (sv_sessions sv) \<Longrightarrow> ok_with (same_but_msgs sv) (send_for_all s msg sv)"
  unfolding send_for_all_def Let_def by (rule for_players_same)

lemma same_bind:
  assumes "ok_with (same_but_msgs sv) r"
    and "\<And>sv'. same_but_msgs sv sv' \<Longrightarrow> res_with E P (f sv')"
  shows "res_with E P (rbind r f)"
  using assms by (cases r) auto

section \<open>Timeout handlers\<close>

text \<open>
  The handlers stay, with the event and session they have, and new ones are put at the end of the
  list.
\<close>

definition hext :: "Server \<Rightarrow> Server \<Rightarrow> bool" where
  "hext sv sv' \<longleftrightarrow>
     (\<forall>a t. sv_handlers sv a = Some t \<longrightarrow>
        (\<exists>t'. sv_handlers sv' a = Some t' \<and> to_kind t' = to_kind t \<and> to_session t' = to_session t))
     \<and> (\<exists>as. sv_timeouts sv' = sv_timeouts sv @ as \<and> distinct as
          \<and> (\<forall>a \<in> set as. sv_next_handler sv \<le> a \<and> a < sv_next_handler sv'))
     \<and> sv_next_handler sv \<le> sv_next_handler sv' \<and> length (sv_sessions sv') = length (sv_sessions sv)"

lemma hext_same_handlers:
  "sv_handlers sv' = sv_handlers sv \<Longrightarrow> sv_timeouts sv' = sv_timeouts sv \<Longrightarrow>
   sv_next_handler sv' = sv_next_handler sv \<Longrightarrow> length (sv_sessions sv') = length (sv_sessions sv) \<Longrightarrow> hext sv sv'"
  by (simp add: hext_def)

lemma hext_refl [simp]: "hext sv sv"
  by (simp add: hext_same_handlers)

lemma hext_trans:
  assumes "hext sv sv1" "hext sv1 sv2"
  shows "hext sv sv2"
proof -
  obtain as where as: "sv_timeouts sv1 = sv_timeouts sv @ as" "distinct as"
    "\<forall>a \<in> set as. sv_next_handler sv \<le> a \<and> a < sv_next_handler sv1"
    using assms(1) by (auto simp: hext_def)
  obtain bs where bs: "sv_timeouts sv2 = sv_timeouts sv1 @ bs" "distinct bs"
    "\<forall>a \<in> set bs. sv_next_handler sv1 \<le> a \<and> a < sv_next_handler sv2"
    using assms(2) by (auto simp: hext_def)
  have n: "sv_next_handler sv \<le> sv_next_handler sv1" "sv_next_handler sv1 \<le> sv_next_handler sv2"
    using assms by (simp_all add: hext_def)
  have "\<exists>cs. sv_timeouts sv2 = sv_timeouts sv @ cs \<and> distinct cs
      \<and> (\<forall>a \<in> set cs. sv_next_handler sv \<le> a \<and> a < sv_next_handler sv2)"
  proof (intro exI conjI)
    show "sv_timeouts sv2 = sv_timeouts sv @ (as @ bs)" using as bs by simp
    show "distinct (as @ bs)" using as bs by fastforce
    show "\<forall>a \<in> set (as @ bs). sv_next_handler sv \<le> a \<and> a < sv_next_handler sv2"
      using as(3) bs(3) n by fastforce
  qed
  moreover have "\<exists>t''. sv_handlers sv2 a = Some t'' \<and> to_kind t'' = to_kind t \<and> to_session t'' = to_session t"
    if "sv_handlers sv a = Some t" for a t
  proof -
    have "\<exists>t'. sv_handlers sv1 a = Some t' \<and> to_kind t' = to_kind t \<and> to_session t' = to_session t"
      using assms(1) that by (simp add: hext_def)
    then obtain t' where t': "sv_handlers sv1 a = Some t'" "to_kind t' = to_kind t" "to_session t' = to_session t"
      by blast
    have "\<exists>t''. sv_handlers sv2 a = Some t'' \<and> to_kind t'' = to_kind t' \<and> to_session t'' = to_session t'"
      using assms(2) t'(1) by (simp add: hext_def)
    with t' show ?thesis by simp
  qed
  ultimately show ?thesis using n assms by (simp add: hext_def)
qed

lemma same_hext: "same_but_msgs sv sv' \<Longrightarrow> hext sv sv'"
  by (rule hext_same_handlers) (simp_all add: same_simps)

lemma mod_hext [simp]: "hext sv (mod_session s f sv)" "hext (mod_session s f sv) sv"
  by (rule hext_same_handlers; simp)+

lemma add_handler_simps [simp]:
  "sv_sessions (snd (add_timeout_handler t sv)) = sv_sessions sv"
  "sv_clients (snd (add_timeout_handler t sv)) = sv_clients sv"
  "fst (add_timeout_handler t sv) = sv_next_handler sv"
  "sv_handlers (snd (add_timeout_handler t sv)) = (sv_handlers sv)(sv_next_handler sv := Some t)"
  by (simp_all add: add_timeout_handler_def)

lemma add_handler_fresh:
  "core_inv X S sv \<Longrightarrow> sv_handlers sv (sv_next_handler sv) = None"
  by (cases "sv_handlers sv (sv_next_handler sv)") (auto simp: core_inv_def handlers_ok_def)

lemma add_handler_hext:
  "core_inv X S sv \<Longrightarrow> hext sv (snd (add_timeout_handler t sv))"
  using add_handler_fresh [of X S sv] by (auto simp: hext_def add_timeout_handler_def)

lemma core_inv_add_handler:
  assumes "core_inv X S sv" "to_session t < length (sv_sessions sv)"
  shows "core_inv X S (snd (add_timeout_handler t sv))"
proof -
  let ?sv = "snd (add_timeout_handler t sv)"
  note fresh = add_handler_fresh [OF assms(1)]
  have ok: "sessions_ok sv" "links_ok sv" "arrays_wf sv" "handlers_ok X S sv"
    using assms(1) by (simp_all add: core_inv_def)
  have "sv_next_handler sv \<notin> set (sv_timeouts sv)"
    using ok(4) fresh by (auto simp: handlers_ok_def)
  moreover have "turn_at X ?sv s gs" if "turn_at X sv s gs" for s gs
    using that fresh by (fastforce simp: turn_at_def)
  ultimately have "handlers_ok X S ?sv"
    using ok(4) assms(2) by (auto simp: handlers_ok_def add_timeout_handler_def less_Suc_eq)
  then show ?thesis
    using ok by (simp add: core_inv_def sessions_ok_def links_ok_def arrays_wf_def add_timeout_handler_def)
qed

lemma arrays_ok_cong:
  "sv_clients sv' = sv_clients sv \<Longrightarrow> sv_in_game sv' = sv_in_game sv \<Longrightarrow> sv_queue sv' = sv_queue sv
    \<Longrightarrow> arrays_ok sv' = arrays_ok sv"
  by (simp add: arrays_ok_def with_session_def without_session_def)

lemma inv_add_handler:
  "winv X S sv \<Longrightarrow> to_session t < length (sv_sessions sv) \<Longrightarrow> winv X S (snd (add_timeout_handler t sv))"
  using core_inv_add_handler [of X S sv t] arrays_ok_cong [of "snd (add_timeout_handler t sv)" sv]
  by (simp add: winv_def add_timeout_handler_def)

text \<open>A handler whose remaining time changes.\<close>

definition set_handler :: "nat \<Rightarrow> Timeout \<Rightarrow> Server \<Rightarrow> Server" where
  "set_handler a t sv = sv\<lparr>sv_handlers := (sv_handlers sv)(a := Some t)\<rparr>"

lemma set_handler_simps [simp]:
  "sv_sessions (set_handler a t sv) = sv_sessions sv" "sv_clients (set_handler a t sv) = sv_clients sv"
  "sv_handlers (set_handler a t sv) = (sv_handlers sv)(a := Some t)"
  "sv_timeouts (set_handler a t sv) = sv_timeouts sv" "sv_next_handler (set_handler a t sv) = sv_next_handler sv"
  "sv_in_game (set_handler a t sv) = sv_in_game sv" "sv_queue (set_handler a t sv) = sv_queue sv"
  "sv_next_client (set_handler a t sv) = sv_next_client sv"
  by (simp_all add: set_handler_def)

lemma set_handler_hext:
  "sv_handlers sv a = Some t0 \<Longrightarrow> to_kind t = to_kind t0 \<Longrightarrow> to_session t = to_session t0 \<Longrightarrow> hext sv (set_handler a t sv)"
  by (auto simp: hext_def)

lemma inv_set_handler:
  assumes "winv X S sv" "sv_handlers sv a = Some t0" "to_kind t = to_kind t0" "to_session t = to_session t0"
    and "a \<in> X' \<or> \<not> th_elapsed t \<or> (\<forall>s < length (sv_sessions sv). s \<notin> S \<longrightarrow>
           gs_state (sess sv s) = GAME_TURN \<longrightarrow> gs_turn_timeout (sess sv s) \<noteq> Some a)"
    and "X \<subseteq> insert a X'"
  shows "winv X' S (set_handler a t sv)"
proof -
  let ?sv = "set_handler a t sv"
  have ok: "sessions_ok sv" "links_ok sv" "arrays_wf sv" "handlers_ok X S sv" "arrays_ok sv"
    using assms(1) by (simp_all add: winv_def core_inv_def)
  have "turn_at X' ?sv s (sess sv s)" if s: "s < length (sv_sessions sv)" "s \<notin> S" for s
    unfolding turn_at_def
  proof
    assume g: "gs_state (sess sv s) = GAME_TURN"
    then obtain b u where b: "gs_turn_timeout (sess sv s) = Some b" "sv_handlers sv b = Some u"
      "to_kind u = GameTurnTimeout" "to_session u = s" "b \<notin> X \<longrightarrow> \<not> th_elapsed u"
      using ok(4) s unfolding handlers_ok_def turn_at_def by blast
    show "\<exists>b u. gs_turn_timeout (sess sv s) = Some b \<and> sv_handlers ?sv b = Some u
        \<and> to_kind u = GameTurnTimeout \<and> to_session u = s \<and> (b \<notin> X' \<longrightarrow> \<not> th_elapsed u)"
    proof (cases "b = a")
      case True
      then have "a \<in> X' \<or> \<not> th_elapsed t" using assms(5) s g b(1) by blast
      then show ?thesis using True b assms(2-4) by auto
    next
      case False
      then have "b \<notin> X' \<longrightarrow> b \<notin> X" using assms(6) by blast
      then show ?thesis using b False by auto
    qed
  qed
  then have "handlers_ok X' S ?sv"
    using ok(4) assms(2,4) by (auto simp: handlers_ok_def)
  moreover have "sessions_ok ?sv" using ok(1) by (simp add: sessions_ok_def)
  moreover have "links_ok ?sv" using ok(2) by (simp add: links_ok_def)
  moreover have "arrays_wf ?sv" using ok(3) by (simp add: arrays_wf_def)
  moreover have "arrays_ok ?sv" using ok(5) arrays_ok_cong [of ?sv sv] by simp
  ultimately show ?thesis by (simp add: winv_def core_inv_def)
qed

lemma inv_rand [simp]: "winv X S (sv\<lparr>sv_rand_pos := n\<rparr>) = winv X S sv"
  by (simp add: winv_def core_inv_def sessions_ok_def links_ok_def arrays_wf_def handlers_ok_def turn_at_def
    arrays_ok_def with_session_def without_session_def)

lemma rand_below_bounds:
  "0 < n \<Longrightarrow> 0 \<le> fst (rand_below n sv) \<and> fst (rand_below n sv) < int n"
  by (auto simp: rand_below_def Let_def)

lemma snd_rand_below: "snd (rand_below n sv) = sv\<lparr>sv_rand_pos := Suc (sv_rand_pos sv)\<rparr>"
  by (simp add: rand_below_def Let_def)

lemma rand_hext [simp]: "hext sv (sv\<lparr>sv_rand_pos := n\<rparr>)"
  by (rule hext_same_handlers) simp_all

section \<open>Operations of a session\<close>

definition keeps :: "nat set \<Rightarrow> nat set \<Rightarrow> Server \<Rightarrow> Server \<Rightarrow> bool" where
  "keeps X S sv sv' \<longleftrightarrow> winv X S sv' \<and> hext sv sv'"

lemma keepsD:
  assumes "keeps X S sv sv'"
  shows "winv X S sv'" "core_inv X S sv'" "length (sv_sessions sv') = length (sv_sessions sv)" "hext sv sv'"
  using assms by (simp_all add: keeps_def hext_def winv_def)

lemma keeps_refl: "winv X S sv \<Longrightarrow> keeps X S sv sv"
  by (simp add: keeps_def)

lemma inv_session: "winv X S sv \<Longrightarrow> s < length (sv_sessions sv) \<Longrightarrow> session_ok (sess sv s)"
  unfolding winv_def using core_inv_session by blast

lemma inv_core: "winv X S sv \<Longrightarrow> core_inv X S sv"
  by (simp add: winv_def)

text \<open>First a change that is already known to be fine, then the rest of the operation.\<close>

lemma keeps_from:
  assumes "hext sv sv1" "res_with E (keeps X S sv1) r"
  shows "res_with E (keeps X S sv) r"
  using assms(2) by (rule res_with_mono) (auto simp: keeps_def intro: hext_trans [OF assms(1)])

lemma keeps_bind:
  assumes "res_with E (keeps X S sv) r"
    and "\<And>sv1. keeps X S sv sv1 \<Longrightarrow> res_with E (keeps X S' sv1) (f sv1)"
  shows "res_with E (keeps X S' sv) (rbind r f)"
proof (cases r)
  case (Inr sv1)
  then have k: "keeps X S sv sv1" using assms(1) by simp
  then show ?thesis using Inr keeps_from [OF keepsD(4) [OF k] assms(2) [OF k]] by simp
qed (use assms(1) in simp)

text \<open>First messages to clients, then the rest.\<close>

lemma keeps_send:
  assumes "ok_with (same_but_msgs sv) r" "winv X S sv"
    and "\<And>sv1. same_but_msgs sv sv1 \<Longrightarrow> winv X S sv1 \<Longrightarrow> res_with E (keeps X S' sv1) (f sv1)"
  shows "res_with E (keeps X S' sv) (rbind r f)"
  using assms(1)
proof (rule same_bind)
  fix sv1 assume s: "same_but_msgs sv sv1"
  then have "winv X S sv1" using assms(2) by (simp add: same_inv)
  from assms(3) [OF s this] show "res_with E (keeps X S' sv) (f sv1)"
    by (rule keeps_from [OF same_hext [OF s]])
qed

lemma keeps_only_send:
  "ok_with (same_but_msgs sv) r \<Longrightarrow> winv X S sv \<Longrightarrow> res_with E (keeps X S sv) r"
  by (erule res_with_ok) (simp add: keeps_def same_inv same_hext)

lemma keeps_add:
  "winv X S sv \<Longrightarrow> to_session t < length (sv_sessions sv) \<Longrightarrow> keeps X S sv (snd (add_timeout_handler t sv))"
  using inv_add_handler add_handler_hext [OF inv_core] by (simp add: keeps_def)

text \<open>The states with two players.\<close>

definition playing :: "GameState \<Rightarrow> bool" where
  "playing st \<longleftrightarrow> st \<in> {WAIT_PREPARATION, PREPARATION, WAIT_START, GAME_TURN, PROCESS_TURN}"

lemma session_ok_playing:
  "session_ok gs \<Longrightarrow> playing (gs_state gs) \<Longrightarrow> playing st \<Longrightarrow> session_ok (gs\<lparr>gs_state := st\<rparr>)"
  by (auto simp: session_ok_def state_ok_def playing_def get_players_count_def)

lemma playing_sends:
  "winv X S sv \<Longrightarrow> s < length (sv_sessions sv) \<Longrightarrow> i = 0 \<or> i = 1 \<Longrightarrow> playing (gs_state (sess sv s))
    \<Longrightarrow> ok_with (same_but_msgs sv) (send_to s i m sv)"
  by (rule send_to_same) (auto simp: playing_def winv_def)

lemma inv_set_state:
  assumes "winv X S sv" "s < length (sv_sessions sv)" "playing (gs_state (sess sv s))" "playing st"
    "st \<noteq> GAME_TURN \<or> s \<in> S'" "S \<subseteq> insert s S'"
  shows "winv X S' (mod_session s (\<lambda>gs. gs\<lparr>gs_state := st\<rparr>) sv)"
  by (rule inv_mod [OF assms(1,2)])
    (use assms in \<open>auto simp: turn_at_def intro: session_ok_playing inv_session\<close>)

lemma start_preparation_keeps:
  assumes "winv X {} sv" "s < length (sv_sessions sv)"
  shows "res_with E (keeps X {} sv) (start_preparation s sv)"
proof (cases "gs_state (sess sv s) = WAIT_PREPARATION")
  case False
  then show ?thesis using assms(1) by (simp add: start_preparation_def keeps_refl)
next
  case True
  let ?sv1 = "mod_session s (set_game_state PREPARATION) sv"
  have "set_game_state PREPARATION = (\<lambda>gs. gs\<lparr>gs_state := PREPARATION\<rparr>)"
    by (simp add: fun_eq_iff set_game_state_def)
  then have i1: "winv X {} ?sv1"
    using assms True inv_set_state [of X "{}" sv s PREPARATION "{}"] by (simp add: playing_def)
  have "res_with E (keeps X {} ?sv1) (rbind (send_for_all s m ?sv1)
      (\<lambda>sv2. Inr (snd (add_timeout_handler (mk_timeout PreparationTimeout PREPARATION_DURATION s) sv2))))" for m
  proof (rule keeps_send [OF _ i1])
    show "ok_with (same_but_msgs ?sv1) (send_for_all s m ?sv1)"
      using i1 assms(2) by (intro send_for_all_same inv_core) simp_all
  next
    fix sv2 assume s2: "same_but_msgs ?sv1 sv2" "winv X {} sv2"
    then show "res_with E (keeps X {} sv2)
        (Inr (snd (add_timeout_handler (mk_timeout PreparationTimeout PREPARATION_DURATION s) sv2)))"
      using assms(2) by (simp add: keeps_add mk_timeout_def same_simps [OF s2(1)])
  qed
  then show ?thesis
    using True unfolding start_preparation_def Let_def
    by (auto intro: keeps_from [OF mod_hext(1)] simp del: sess_mod)
qed

lemma stop_preparation_keeps:
  assumes "winv X {} sv" "s < length (sv_sessions sv)"
  shows "res_with E (keeps X {} sv) (stop_preparation s sv)"
proof (cases "gs_state (sess sv s) = PREPARATION")
  case False
  then show ?thesis using assms(1) by (simp add: stop_preparation_def keeps_refl)
next
  case True
  have "res_with E (keeps X {} sv) (rbind (send_for_all s m sv) (\<lambda>sv1.
      send_game_state_for_all s (snd (add_timeout_handler (mk_timeout CheckStartFieldsTimeout WAIT_DURATION s)
         (mod_session s (\<lambda>gs. gs\<lparr>gs_state := WAIT_START\<rparr>) sv1)))))" for m
  proof (rule keeps_send [OF send_for_all_same [OF inv_core [OF assms(1)] assms(2)] assms(1)])
    fix sv1 assume s1: "same_but_msgs sv sv1" "winv X {} sv1"
    let ?sv2 = "mod_session s (\<lambda>gs. gs\<lparr>gs_state := WAIT_START\<rparr>) sv1"
    let ?t = "mk_timeout CheckStartFieldsTimeout WAIT_DURATION s"
    let ?sv3 = "snd (add_timeout_handler ?t ?sv2)"
    have "winv X {} ?sv2"
      using s1 assms(2) True inv_set_state [of X "{}" sv1 s WAIT_START "{}"]
      by (simp add: playing_def same_simps [OF s1(1)])
    then have k: "keeps X {} ?sv2 ?sv3"
      by (rule keeps_add) (use assms(2) in \<open>simp add: mk_timeout_def same_simps [OF s1(1)]\<close>)
    have "res_with E (keeps X {} ?sv3) (send_game_state_for_all s ?sv3)"
      using keepsD [OF k] assms(2)
      by (intro keeps_only_send send_game_state_same [of X "{}"]) (simp_all add: same_simps [OF s1(1)])
    then show "res_with E (keeps X {} sv1) (send_game_state_for_all s ?sv3)"
      by (rule keeps_from [OF mod_hext(1) keeps_from [OF keepsD(4) [OF k]]])
  qed
  then show ?thesis using True by (simp add: stop_preparation_def)
qed

section \<open>Leaving a session\<close>

definition leave_at :: "nat \<Rightarrow> GameSession \<Rightarrow> GameSession" where
  "leave_at i gs = gs\<lparr>gs_players := (gs_players gs)[i := None],
     gs_state := (if gs_state gs \<noteq> WAIT_PLAYER then WAIT_PLAYER else NO_VACANT_GAME)\<rparr>"

lemma session_ok_leave:
  assumes "session_ok gs" "gs_players gs ! i = Some c" "i < 2"
  shows "session_ok (leave_at i gs)" "players_of (leave_at i gs) = players_of gs - {c}"
    "gs_state (leave_at i gs) \<noteq> GAME_TURN" "get_players_count (leave_at i gs) = get_players_count gs - 1"
proof -
  obtain p q where pq: "gs_players gs = [p, q]" "p = q \<longrightarrow> p = None"
    using assms(1) by (auto simp: session_ok_def)
  have "i = 0 \<or> i = 1" using assms(3) by auto
  then show "session_ok (leave_at i gs)" "players_of (leave_at i gs) = players_of gs - {c}"
    "gs_state (leave_at i gs) \<noteq> GAME_TURN" "get_players_count (leave_at i gs) = get_players_count gs - 1"
    using assms pq
    by (auto simp: session_ok_def state_ok_def leave_at_def players_of_def get_players_count_def
      split: if_splits)
qed

text \<open>Everything about the other clients stays, and the arrays are not touched.\<close>

definition others_stay :: "nat \<Rightarrow> Server \<Rightarrow> Server \<Rightarrow> bool" where
  "others_stay c sv sv' \<longleftrightarrow> sv_queue sv' = sv_queue sv \<and> sv_in_game sv' = sv_in_game sv
     \<and> sv_next_client sv' = sv_next_client sv
     \<and> (\<forall>d. d \<noteq> c \<longrightarrow> sv_clients sv' d = sv_clients sv d)"

lemma core_inv_leave:
  assumes "core_inv X S sv" "sv_clients sv c = Some cl" "cd_session cl = Some s" "i < 2"
    "gs_players (sess sv s) ! i = Some c"
  shows "core_inv X S ((mod_session s (leave_at i) sv)\<lparr>sv_clients := (sv_clients sv)(c := Some (cl\<lparr>cd_session := None\<rparr>))\<rparr>)"
    (is "core_inv X S ?sv")
proof -
  have ok: "sessions_ok sv" "links_ok sv" "arrays_wf sv" "handlers_ok X S sv"
    using assms(1) by (simp_all add: core_inv_def)
  have sl: "s < length (sv_sessions sv)"
    using ok(2) assms(2,3) unfolding links_ok_def by blast
  note leave = session_ok_leave [OF sessions_okD [OF ok(1) sl] assms(5,4)]
  have sess': "sess ?sv t = (if t = s then leave_at i (sess sv s) else sess sv t)" for t
    using sess_mod [OF sl, of "leave_at i" t] by simp
  have "sessions_ok ?sv"
    using ok(1) leave(1) sl by (auto simp: sessions_ok_def dest!: set_mod_session)
  moreover have "links_ok ?sv"
    unfolding links_ok_def
  proof (intro allI)
    fix d t
    have old: "(\<exists>cl. sv_clients sv d = Some cl \<and> cd_session cl = Some t)
        \<longleftrightarrow> t < length (sv_sessions sv) \<and> d \<in> players_of (sess sv t)"
      using ok(2) by (simp add: links_ok_def)
    show "(\<exists>cl. sv_clients ?sv d = Some cl \<and> cd_session cl = Some t)
        \<longleftrightarrow> t < length (sv_sessions ?sv) \<and> d \<in> players_of (sess ?sv t)"
    proof (cases "d = c")
      case True
      have "c \<notin> players_of (sess ?sv t)" if "t < length (sv_sessions sv)"
      proof (cases "t = s")
        case True
        then show ?thesis using leave(2) sl by simp
      next
        case False
        then have "c \<notin> players_of (sess sv t)" using old True assms(2,3) that by auto
        then show ?thesis using False sl by simp
      qed
      then show ?thesis using True by auto
    next
      case False
      then show ?thesis using old leave(2) sl by auto
    qed
  qed
  moreover have "handlers_ok X S ?sv"
    using ok(4) leave(3) sl by (auto simp: handlers_ok_def turn_at_def)
  ultimately show ?thesis using ok(3) assms(2) by (auto simp: core_inv_def arrays_wf_def)
qed

lemma player_position:
  assumes "core_inv X S sv" "sv_clients sv c = Some cl" "cd_session cl = Some s"
  obtains "gs_players (sess sv s) ! 0 = Some c" | "gs_players (sess sv s) ! 0 \<noteq> Some c" "gs_players (sess sv s) ! 1 = Some c"
proof -
  have sl: "s < length (sv_sessions sv)" and c: "c \<in> players_of (sess sv s)"
    using assms unfolding core_inv_def links_ok_def by blast+
  obtain p q where "gs_players (sess sv s) = [p, q]"
    using core_inv_session [OF assms(1) sl] by (auto simp: session_ok_def)
  with c show thesis using that by (auto simp: players_of_def)
qed

lemma disconnect_from_keeps:
  assumes "core_inv X S sv" "sv_clients sv c = Some cl"
  shows "ok_with (\<lambda>sv'. core_inv X S sv' \<and> hext sv sv' \<and> others_stay c sv sv'
     \<and> (\<exists>cl'. sv_clients sv' c = Some cl' \<and> cd_session cl' = None \<and> cd_fd cl' = cd_fd cl)
     \<and> (\<forall>t. cd_session cl \<noteq> Some t \<longrightarrow> sess sv' t = sess sv t)
     \<and> (\<forall>s. cd_session cl = Some s \<longrightarrow> get_players_count (sess sv' s) = get_players_count (sess sv s) - 1))
     (disconnect_from_game_session c sv)"
proof (cases "cd_session cl")
  case None
  then show ?thesis using assms by (simp add: disconnect_from_game_session_def others_stay_def)
next
  case (Some s)
  have sl: "s < length (sv_sessions sv)"
    using assms Some unfolding core_inv_def links_ok_def by blast
  have "\<exists>i<2. gs_players (sess sv s) ! i = Some c
      \<and> disconnect_player s (Some c) sv = Inr (mod_session s (leave_at i) sv)"
  proof (rule player_position [OF assms Some])
    assume "gs_players (sess sv s) ! 0 = Some c"
    then show ?thesis
      by (intro exI [of _ 0]) (simp add: disconnect_player_def leave_at_def [abs_def] Let_def)
  next
    assume "gs_players (sess sv s) ! 0 \<noteq> Some c" "gs_players (sess sv s) ! 1 = Some c"
    then show ?thesis
      by (intro exI [of _ 1]) (simp add: disconnect_player_def leave_at_def [abs_def] Let_def)
  qed
  then obtain i where i: "i < 2" "gs_players (sess sv s) ! i = Some c"
    "disconnect_player s (Some c) sv = Inr (mod_session s (leave_at i) sv)" by blast
  let ?sv = "(mod_session s (leave_at i) sv)\<lparr>sv_clients := (sv_clients sv)(c := Some (cl\<lparr>cd_session := None\<rparr>))\<rparr>"
  have "disconnect_from_game_session c sv = Inr ?sv"
    using assms(2) Some i(3) by (simp add: disconnect_from_game_session_def on_client_def)
  moreover have "core_inv X S ?sv" by (rule core_inv_leave [OF assms Some i(1,2)])
  moreover have "hext sv ?sv" by (rule hext_same_handlers) simp_all
  moreover have "sess ?sv t = (if t = s then leave_at i (sess sv s) else sess sv t)" for t
    using sess_mod [OF sl, of "leave_at i" t] by simp
  ultimately show ?thesis
    using session_ok_leave(4) [OF core_inv_session [OF assms(1) sl] i(2,1)] Some
    by (auto simp: others_stay_def)
qed

definition arrays_but :: "nat \<Rightarrow> Server \<Rightarrow> bool" where
  "arrays_but c sv \<longleftrightarrow> (\<forall>d. d \<noteq> c \<longrightarrow> (d \<in> ca_set (sv_in_game sv) \<longleftrightarrow> d \<in> with_session sv)
     \<and> (d \<in> ca_set (sv_queue sv) \<longleftrightarrow> d \<in> without_session sv))"

lemma arrays_ok_but: "arrays_ok sv \<Longrightarrow> arrays_but c sv"
  by (simp add: arrays_ok_def arrays_but_def)

lemma others_with_session:
  assumes "others_stay c sv sv'" "d \<noteq> c"
  shows "d \<in> with_session sv' \<longleftrightarrow> d \<in> with_session sv" "d \<in> without_session sv' \<longleftrightarrow> d \<in> without_session sv"
  using assms by (simp_all add: others_stay_def with_session_def without_session_def)

lemma delete_client_inv:
  assumes "core_inv X S sv" "arrays_but c sv" "sv_clients sv c = Some cl" "cd_session cl = None"
  shows "winv X S (sv\<lparr>sv_queue := ca_remove (sv_queue sv) (Some c),
     sv_in_game := ca_remove (sv_in_game sv) (Some c), sv_clients := (sv_clients sv)(c := None)\<rparr>)"
    (is "winv X S ?sv")
proof -
  have ok: "sessions_ok sv" "links_ok sv" "arrays_wf sv" "handlers_ok X S sv"
    using assms(1) by (simp_all add: core_inv_def)
  have r: "ca_wf (ca_remove (sv_queue sv) (Some c))" "ca_wf (ca_remove (sv_in_game sv) (Some c))"
    "ca_set (ca_remove (sv_queue sv) (Some c)) = ca_set (sv_queue sv) - {c}"
    "ca_set (ca_remove (sv_in_game sv) (Some c)) = ca_set (sv_in_game sv) - {c}"
    "ca_size (ca_remove (sv_queue sv) (Some c)) = 10" "ca_size (ca_remove (sv_in_game sv) (Some c)) = 10"
    using ok(3) ca_remove_spec by (simp_all add: arrays_wf_def)
  have "links_ok ?sv"
    unfolding links_ok_def
  proof (intro allI)
    fix d t
    have "(\<exists>cl. sv_clients sv d = Some cl \<and> cd_session cl = Some t)
        \<longleftrightarrow> t < length (sv_sessions sv) \<and> d \<in> players_of (sess sv t)"
      using ok(2) by (simp add: links_ok_def)
    then show "(\<exists>cl. sv_clients ?sv d = Some cl \<and> cd_session cl = Some t)
        \<longleftrightarrow> t < length (sv_sessions ?sv) \<and> d \<in> players_of (sess ?sv t)"
      using assms(3,4) by auto
  qed
  moreover have "arrays_wf ?sv" using ok(3) r by (simp add: arrays_wf_def)
  moreover have "handlers_ok X S ?sv" using ok(4) by (simp add: handlers_ok_def turn_at_def)
  moreover have "sessions_ok ?sv" using ok(1) by (simp add: sessions_ok_def)
  moreover have "arrays_ok ?sv"
    using assms(2) r(3,4) by (auto simp: arrays_ok_def arrays_but_def with_session_def without_session_def)
  ultimately show ?thesis by (simp add: winv_def core_inv_def)
qed

lemma disconnect_client_keeps:
  assumes "core_inv X S sv" "arrays_but c sv" "sv_clients sv c = Some cl"
  shows "ok_with (\<lambda>sv'. keeps X S sv sv' \<and> sv_clients sv' c = None
     \<and> (\<forall>d. d \<noteq> c \<longrightarrow> sv_clients sv' d = sv_clients sv d)
     \<and> ca_set (sv_in_game sv') = ca_set (sv_in_game sv) - {c} \<and> ca_set (sv_queue sv') = ca_set (sv_queue sv) - {c}
     \<and> sv_in_game sv' = ca_remove (sv_in_game sv) (Some c) \<and> sv_queue sv' = ca_remove (sv_queue sv) (Some c)
     \<and> (\<forall>t. cd_session cl \<noteq> Some t \<longrightarrow> sess sv' t = sess sv t)
     \<and> (\<forall>s. cd_session cl = Some s \<longrightarrow> get_players_count (sess sv' s) = get_players_count (sess sv s) - 1))
     (disconnect_client (Some c) sv)"
proof -
  from disconnect_from_keeps [OF assms(1,3)] obtain sv1 cl' where d: "disconnect_from_game_session c sv = Inr sv1"
    "core_inv X S sv1" "hext sv sv1" "others_stay c sv sv1" "sv_clients sv1 c = Some cl'" "cd_session cl' = None"
    "\<forall>t. cd_session cl \<noteq> Some t \<longrightarrow> sess sv1 t = sess sv t"
    "\<forall>s. cd_session cl = Some s \<longrightarrow> get_players_count (sess sv1 s) = get_players_count (sess sv s) - 1"
    by (auto dest!: ok_withD)
  have "arrays_but c sv1"
    using assms(2) others_with_session [OF d(4)] d(4) by (simp add: arrays_but_def others_stay_def)
  note i = delete_client_inv [OF d(2) this d(5,6)]
  have r: "ca_set (ca_remove (sv_queue sv1) (Some c)) = ca_set (sv_queue sv) - {c}"
    "ca_set (ca_remove (sv_in_game sv1) (Some c)) = ca_set (sv_in_game sv) - {c}"
    using ca_remove_spec(2) d(2,4) by (auto simp: core_inv_def arrays_wf_def others_stay_def)
  let ?sv = "sv1\<lparr>sv_queue := ca_remove (sv_queue sv1) (Some c),
     sv_in_game := ca_remove (sv_in_game sv1) (Some c), sv_clients := (sv_clients sv1)(c := None)\<rparr>"
  have "hext sv ?sv" by (rule hext_trans [OF d(3)], rule hext_same_handlers) simp_all
  then show ?thesis
    using d i r by (simp add: disconnect_client_def keeps_def others_stay_def)
qed

lemma disconnect_slot_keeps:
  assumes "winv X S sv" "s < length (sv_sessions sv)" "i < 2"
  shows "ok_with (keeps X S sv) (disconnect_client (gs_players (sess sv s) ! i) sv)"
proof (cases "gs_players (sess sv s) ! i")
  case None
  then show ?thesis using assms(1) by (simp add: disconnect_client_def keeps_refl)
next
  case (Some c)
  have "sv_clients sv c \<noteq> None" by (rule player_alive_nth [OF inv_core [OF assms(1)] assms(2) Some assms(3)])
  then obtain cl where cl: "sv_clients sv c = Some cl" by blast
  have a: "arrays_but c sv" using assms(1) by (simp add: winv_def arrays_ok_but)
  show ?thesis
    unfolding Some using disconnect_client_keeps [OF inv_core [OF assms(1)] a cl] by (rule ok_with_mono) simp
qed

section \<open>The events of a game\<close>

lemma send_start_fields_keeps:
  assumes "winv X S sv" "s < length (sv_sessions sv)"
  shows "ok_with (same_but_msgs sv) (send_start_fields s sv)"
proof (cases "gs_state (sess sv s) = WAIT_START")
  case False
  then show ?thesis by (simp add: send_start_fields_def)
next
  case True
  have step: "ok_with (same_but_msgs sv) (rbind (field_at (sess sv1 s) i) (\<lambda>own_field.
      rbind (field_at (sess sv1 s) (get_enemy_idx i)) (\<lambda>f.
      rbind (send_to s i (m1 own_field) sv1) (\<lambda>sv2. send_to s i (m2 f) sv2))))"
    if i: "i = 0 \<or> i = 1" and sv1: "same_but_msgs sv sv1" for i sv1 m1 m2
  proof -
    have send: "ok_with (same_but_msgs sv) (send_to s i m sv2)" if "same_but_msgs sv sv2" for sv2 m
    proof -
      have "winv X S sv2" using that assms(1) by (simp add: same_inv)
      then have "ok_with (same_but_msgs sv2) (send_to s i m sv2)"
        using assms(2) i True by (intro playing_sends) (simp_all add: same_simps [OF that] playing_def)
      then show ?thesis by (rule ok_with_mono) (rule same_trans [OF that])
    qed
    obtain f g where "field_at (sess sv1 s) i = Inr f" "field_at (sess sv1 s) (get_enemy_idx i) = Inr g"
      using i by (auto simp: field_at_def get_enemy_idx_def FIRST_PLAYER_def SECOND_PLAYER_def PLAYERS_COUNT_def)
    then show ?thesis using send [OF sv1] send by (auto intro: ok_with_rbind)
  qed
  show ?thesis
    using True unfolding send_start_fields_def
    by (auto intro!: ok_with_rfor step simp del: rfor.simps)
qed

lemma keeps_only_state:
  assumes "winv X {} sv" "s < length (sv_sessions sv)" "get_players_count (sess sv s) = 1"
  shows "winv X {} (mod_session s (\<lambda>gs. gs\<lparr>gs_state := WAIT_PLAYER\<rparr>) sv)"
proof -
  have ok: "session_ok (sess sv s)" by (rule inv_session [OF assms(1,2)])
  then have "session_ok ((sess sv s)\<lparr>gs_state := WAIT_PLAYER\<rparr>)"
    using assms(3) by (simp add: session_ok_def state_ok_def get_players_count_def)
  then show ?thesis
    by (intro inv_mod [OF assms(1,2)]) (simp_all add: turn_at_def)
qed

lemma check_start_fields_keeps:
  assumes "winv X {} sv" "s < length (sv_sessions sv)"
  shows "res_with E (keeps X {} sv) (check_start_fields s sv)"
  unfolding check_start_fields_def
proof (rule keeps_bind)
  show "res_with E (keeps X {} sv) (rfor [0, 1] (\<lambda>i sv.
      if gs_players (sess sv s) ! i \<noteq> None \<and> \<not> is_valid_start_field (gs_fields (sess sv s) ! i)
      then disconnect_client (gs_players (sess sv s) ! i) sv else Inr sv) sv)"
  proof (rule res_with_rfor)
    fix i :: nat and sv1 assume i: "i \<in> set [0, 1]" and k: "keeps X {} sv sv1"
    have "res_with E (keeps X {} sv1) (disconnect_client (gs_players (sess sv1 s) ! i) sv1)"
      using disconnect_slot_keeps [OF keepsD(1) [OF k], of s i] i assms(2) keepsD(3) [OF k]
      by (auto intro: res_with_ok)
    then show "res_with E (keeps X {} sv) (if gs_players (sess sv1 s) ! i \<noteq> None
        \<and> \<not> is_valid_start_field (gs_fields (sess sv1 s) ! i)
      then disconnect_client (gs_players (sess sv1 s) ! i) sv1 else Inr sv1)"
      using k keeps_from [OF keepsD(4) [OF k]] by auto
  qed (rule keeps_refl [OF assms(1)])
next
  fix sv1 assume k: "keeps X {} sv sv1"
  have sl: "s < length (sv_sessions sv1)" using assms(2) keepsD(3) [OF k] by simp
  show "res_with E (keeps X {} sv1) (let players_count = get_players_count (sess sv1 s) in
           if players_count = PLAYERS_COUNT then
             rbind (send_start_fields s sv1) (\<lambda>sv2.
               Inr (snd (add_timeout_handler (mk_timeout GameStartTimeout WAIT_DURATION s) sv2)))
           else if players_count = 1 then
             send_game_state_for_all s (mod_session s (\<lambda>gs. gs\<lparr>gs_state := WAIT_PLAYER\<rparr>) sv1)
           else Inr sv1)"
  proof -
    consider (two) "get_players_count (sess sv1 s) = PLAYERS_COUNT" | (one) "get_players_count (sess sv1 s) = 1"
      | (none) "get_players_count (sess sv1 s) \<noteq> PLAYERS_COUNT" "get_players_count (sess sv1 s) \<noteq> 1" by blast
    then show ?thesis
    proof cases
      case two
      have "res_with E (keeps X {} sv1) (rbind (send_start_fields s sv1) (\<lambda>sv2.
          Inr (snd (add_timeout_handler (mk_timeout GameStartTimeout WAIT_DURATION s) sv2))))"
      proof (rule keeps_send [OF send_start_fields_keeps [OF keepsD(1) [OF k] sl] keepsD(1) [OF k]])
        fix sv2 assume s2: "same_but_msgs sv1 sv2" "winv X {} sv2"
        then show "res_with E (keeps X {} sv2)
            (Inr (snd (add_timeout_handler (mk_timeout GameStartTimeout WAIT_DURATION s) sv2)))"
          using sl by (simp add: keeps_add mk_timeout_def same_simps [OF s2(1)])
      qed
      then show ?thesis using two by (simp add: Let_def)
    next
      case one
      let ?sv2 = "mod_session s (\<lambda>gs. gs\<lparr>gs_state := WAIT_PLAYER\<rparr>) sv1"
      have i2: "winv X {} ?sv2" by (rule keeps_only_state [OF keepsD(1) [OF k] sl one])
      have "res_with E (keeps X {} ?sv2) (send_game_state_for_all s ?sv2)"
        using i2 sl by (intro keeps_only_send send_game_state_same [of X "{}"] inv_core) simp_all
      then have "res_with E (keeps X {} sv1) (send_game_state_for_all s ?sv2)"
        by (rule keeps_from [OF mod_hext(1)])
      then show ?thesis using one by (simp add: Let_def PLAYERS_COUNT_def)
    next
      case none
      then show ?thesis using keeps_refl [OF keepsD(1) [OF k]] by (simp add: Let_def)
    qed
  qed
qed

lemma end_game_keeps:
  assumes "winv X {} sv" "s < length (sv_sessions sv)"
  shows "res_with E (keeps X {} sv) (end_game s sv)"
  unfolding end_game_def
proof (rule res_with_rfor)
  fix i :: nat and sv1 assume i: "i \<in> set [0, 1]" and k: "keeps X {} sv sv1"
  have "res_with E (keeps X {} sv1) (disconnect_client (gs_players (sess sv1 s) ! i) sv1)"
    using disconnect_slot_keeps [OF keepsD(1) [OF k], of s i] i assms(2) keepsD(3) [OF k]
    by (auto intro: res_with_ok)
  then show "res_with E (keeps X {} sv) (disconnect_client (gs_players (sess sv1 s) ! i) sv1)"
    by (rule keeps_from [OF keepsD(4) [OF k]])
qed (rule keeps_refl [OF assms(1)])

lemma get_enemy_idx_range: "i = 0 \<or> i = 1 \<Longrightarrow> get_enemy_idx i = 0 \<or> get_enemy_idx i = 1"
  by (auto simp: get_enemy_idx_def FIRST_PLAYER_def SECOND_PLAYER_def)

lemma inv_cur: "winv X S sv \<Longrightarrow> s < length (sv_sessions sv) \<Longrightarrow> gs_cur (sess sv s) = 0 \<or> gs_cur (sess sv s) = 1"
  using inv_session by (auto simp: session_ok_def)

text \<open>The two messages to the current player and to the enemy.\<close>

lemma send_both_keeps:
  assumes "winv X S sv" "s < length (sv_sessions sv)" "playing (gs_state (sess sv s))" "cur = 0 \<or> cur = 1"
    and "\<And>sv1. same_but_msgs sv sv1 \<Longrightarrow> winv X S sv1 \<Longrightarrow> res_with E (keeps X S' sv1) (f sv1)"
  shows "res_with E (keeps X S' sv) (rbind (send_to s cur m1 sv) (\<lambda>sv1. rbind (send_to s (get_enemy_idx cur) m2 sv1) f))"
proof (rule keeps_send [OF playing_sends [OF assms(1,2,4,3)] assms(1)])
  fix sv1 assume s1: "same_but_msgs sv sv1" "winv X S sv1"
  have "ok_with (same_but_msgs sv1) (send_to s (get_enemy_idx cur) m2 sv1)"
    using assms(2,3) get_enemy_idx_range [OF assms(4)]
    by (intro playing_sends [OF s1(2)]) (simp_all add: same_simps [OF s1(1)])
  then show "res_with E (keeps X S' sv1) (rbind (send_to s (get_enemy_idx cur) m2 sv1) f)"
    using s1(2) by (rule keeps_send) (rule assms(5) [OF same_trans [OF s1(1)]])
qed

lemma start_new_turn_keeps:
  assumes "winv X {} sv" "s < length (sv_sessions sv)"
  shows "res_with E (keeps X {} sv) (start_new_turn s sv)"
proof (cases "gs_state (sess sv s) = WAIT_START \<or> gs_state (sess sv s) = PROCESS_TURN")
  case False
  then show ?thesis using assms(1) by (simp add: start_new_turn_def keeps_refl)
next
  case True
  let ?sv1 = "mod_session s (\<lambda>gs. gs\<lparr>gs_state := GAME_TURN\<rparr>) sv"
  let ?cur = "gs_cur (sess sv s)"
  let ?rest = "\<lambda>sv3. let (a, sv4) = add_timeout_handler (mk_timeout GameTurnTimeout TURN_DURATION s) sv3 in
            Inr (mod_session s (\<lambda>gs. gs\<lparr>gs_turn_timeout := Some a\<rparr>) sv4)"
  have i1: "winv X {s} ?sv1"
    using assms True by (intro inv_set_state [OF assms]) (auto simp: playing_def)
  have "res_with E (keeps X {} ?sv1) (rbind (send_to s ?cur m1 ?sv1) (\<lambda>sv2.
     rbind (send_to s (get_enemy_idx ?cur) m2 sv2) ?rest))" for m1 m2
  proof (rule send_both_keeps [OF i1])
    fix sv3 assume s3: "same_but_msgs ?sv1 sv3" "winv X {s} sv3"
    let ?t = "mk_timeout GameTurnTimeout TURN_DURATION s"
    let ?sv4 = "snd (add_timeout_handler ?t sv3)" and ?a = "sv_next_handler sv3"
    let ?sv5 = "mod_session s (\<lambda>gs. gs\<lparr>gs_turn_timeout := Some ?a\<rparr>) ?sv4"
    have sl: "s < length (sv_sessions sv3)" using assms(2) by (simp add: same_simps [OF s3(1)])
    have k: "keeps X {s} sv3 ?sv4" by (rule keeps_add [OF s3(2)]) (simp add: mk_timeout_def sl)
    have "session_ok (sess sv3 s)" by (rule inv_session [OF s3(2) sl])
    then have ok: "session_ok ((sess sv3 s)\<lparr>gs_turn_timeout := Some ?a\<rparr>)"
      by (simp add: session_ok_def state_ok_def get_players_count_def)
    have "winv X {} ?sv5"
      using ok sl by (intro inv_mod [OF keepsD(1) [OF k]])
        (auto simp: turn_at_def mk_timeout_def th_elapsed_def TURN_DURATION_def)
    then have "keeps X {} sv3 ?sv5"
      using hext_trans [OF keepsD(4) [OF k] mod_hext(1)] by (simp add: keeps_def)
    moreover have eq: "?rest sv3 = Inr ?sv5" by (simp add: add_timeout_handler_def)
    ultimately show "res_with E (keeps X {} sv3) (?rest sv3)" unfolding eq by simp
  qed (use assms inv_cur [OF assms] in \<open>auto simp: playing_def\<close>)
  then have main: "res_with E (keeps X {} sv) (rbind (send_to s ?cur m1 ?sv1) (\<lambda>sv2.
     rbind (send_to s (get_enemy_idx ?cur) m2 sv2) ?rest))" for m1 m2
    by (rule keeps_from [OF mod_hext(1)])
  have "start_new_turn s sv = rbind (send_to s ?cur (new_msg (StartTurnMsg (sv_clock sv + TURN_DURATION) True)) ?sv1)
     (\<lambda>sv2. rbind (send_to s (get_enemy_idx ?cur) (new_msg (StartTurnMsg (sv_clock sv + TURN_DURATION) False)) sv2) ?rest)"
    using True assms(2) by (auto simp: start_new_turn_def Let_def)
  then show ?thesis by (simp only: main)
qed

lemma inv_set_cur:
  assumes "winv X {} sv" "s < length (sv_sessions sv)" "gs_state (sess sv s) \<noteq> GAME_TURN" "r = 0 \<or> r = 1"
  shows "winv X {} (mod_session s (\<lambda>gs. gs\<lparr>gs_cur := r\<rparr>) sv)"
  using inv_session [OF assms(1,2)] assms(3,4)
  by (intro inv_mod [OF assms(1,2)])
    (auto simp: turn_at_def session_ok_def state_ok_def get_players_count_def)

lemma start_game_keeps:
  assumes "winv X {} sv" "s < length (sv_sessions sv)"
  shows "res_with E (keeps X {} sv) (start_game s sv)"
proof (cases "gs_state (sess sv s) = WAIT_START")
  case False
  then show ?thesis using assms(1) by (simp add: start_game_def keeps_refl)
next
  case True
  let ?r = "fst (rand_below 2 sv)"
  let ?sv1 = "snd (rand_below 2 sv)"
  let ?sv2 = "mod_session s (\<lambda>gs. gs\<lparr>gs_cur := ?r\<rparr>) ?sv1"
  have "?r = 0 \<or> ?r = 1" using rand_below_bounds [of 2 sv] by auto
  then have i2: "winv X {} ?sv2"
    using assms True by (intro inv_set_cur) (simp_all add: snd_rand_below)
  have "hext sv ?sv1" by (simp add: snd_rand_below)
  then have h: "hext sv ?sv2" by (rule hext_trans [OF _ mod_hext(1)])
  have eq: "start_game s sv = start_new_turn s ?sv2"
    using True by (simp add: start_game_def split_def Let_def)
  show ?thesis unfolding eq
    using h start_new_turn_keeps [OF i2] assms(2) by (intro keeps_from [OF h]) (simp add: snd_rand_below)
qed

lemma stop_handler_eq:
  "sv_handlers sv a = Some t \<Longrightarrow> stop_handler a sv = Inr (set_handler a (th_stop t) sv)"
  by (simp add: stop_handler_def set_handler_def)

lemma th_stop_simps [simp]: "to_kind (th_stop t) = to_kind t" "to_session (th_stop t) = to_session t"
  by (simp_all add: th_stop_def)

lemma session_ok_no_timeout: "session_ok gs \<Longrightarrow> session_ok (gs\<lparr>gs_turn_timeout := x\<rparr>)"
  by (simp add: session_ok_def state_ok_def get_players_count_def)

lemma end_turn_keeps:
  assumes "winv X {} sv" "s < length (sv_sessions sv)"
  shows "res_with E (\<lambda>sv'. keeps X {} sv sv' \<and> gs_state (sess sv' s) \<noteq> GAME_TURN) (end_turn s sv)"
proof (cases "gs_state (sess sv s) = GAME_TURN")
  case False
  then show ?thesis using assms(1) by (simp add: end_turn_def keeps_refl)
next
  case True
  obtain a t where t: "gs_turn_timeout (sess sv s) = Some a" "sv_handlers sv a = Some t"
    "to_kind t = GameTurnTimeout" "to_session t = s"
    using assms True unfolding winv_def core_inv_def handlers_ok_def turn_at_def by blast
  let ?sv1 = "mod_session s (\<lambda>gs. gs\<lparr>gs_state := PROCESS_TURN\<rparr>) sv"
  let ?cur = "gs_cur (sess sv s)"
  let ?t = "mk_timeout ChangeTurnTimeout WAIT_DURATION s"
  let ?rest = "\<lambda>sv3. let sv4 = snd (add_timeout_handler ?t sv3) in
            case gs_turn_timeout (sess sv4 s) of
              None \<Rightarrow> Inr sv4
            | Some a \<Rightarrow>
                rbind (stop_handler a sv4) (\<lambda>sv5.
                  Inr (mod_session s (\<lambda>gs. gs\<lparr>gs_turn_timeout := None\<rparr>) sv5))"
  let ?Q = "\<lambda>sv0 sv'. keeps X {} sv0 sv' \<and> gs_state (sess sv' s) \<noteq> GAME_TURN"
  have i1: "winv X {} ?sv1"
    using assms True by (intro inv_set_state [OF assms]) (auto simp: playing_def)
  have rest: "res_with E (?Q sv3) (?rest sv3)" if s3: "same_but_msgs ?sv1 sv3" "winv X {} sv3" for sv3
  proof -
    let ?sv4 = "snd (add_timeout_handler ?t sv3)"
    have sl: "s < length (sv_sessions sv3)" using assms(2) by (simp add: same_simps [OF s3(1)])
    have gs: "sess sv3 s = (sess sv s)\<lparr>gs_state := PROCESS_TURN\<rparr>"
      using assms(2) by (simp add: same_simps(1) [OF s3(1)])
    have k: "keeps X {} sv3 ?sv4" by (rule keeps_add [OF s3(2)]) (simp add: mk_timeout_def sl)
    have h3: "sv_handlers sv3 a = Some t" using t(2) by (simp add: same_simps [OF s3(1)])
    then have "a \<noteq> sv_next_handler sv3"
      using s3(2) by (auto simp: winv_def core_inv_def handlers_ok_def)
    then have h4: "sv_handlers ?sv4 a = Some t" using h3 by simp
    have other: "gs_turn_timeout (sess ?sv4 s') \<noteq> Some a"
      if "s' < length (sv_sessions ?sv4)" "gs_state (sess ?sv4 s') = GAME_TURN" for s'
    proof
      assume "gs_turn_timeout (sess ?sv4 s') = Some a"
      then have "to_session t = s'"
        using keepsD(1) [OF k] that h4 unfolding winv_def core_inv_def handlers_ok_def turn_at_def by force
      then show False using that(2) t(4) gs by simp
    qed
    have i5: "winv X {} (set_handler a (th_stop t) ?sv4)"
      by (rule inv_set_handler [OF keepsD(1) [OF k] h4]) (use other in auto)
    have h5: "hext ?sv4 (set_handler a (th_stop t) ?sv4)" by (rule set_handler_hext [OF h4]) simp_all
    let ?sv6 = "mod_session s (\<lambda>gs. gs\<lparr>gs_turn_timeout := None\<rparr>) (set_handler a (th_stop t) ?sv4)"
    have "winv X {} ?sv6"
      using sl inv_session [OF s3(2) sl] gs
      by (intro inv_mod [OF i5]) (simp_all add: turn_at_def session_ok_no_timeout)
    moreover have "hext sv3 ?sv6"
      by (rule hext_trans [OF keepsD(4) [OF k] hext_trans [OF h5 mod_hext(1)]])
    moreover have eq: "?rest sv3 = Inr ?sv6"
      using t(1) gs h4 by (simp add: Let_def stop_handler_eq)
    ultimately show ?thesis
      unfolding eq using sl gs by (simp add: keeps_def)
  qed
  have eq: "end_turn s sv = rbind (send_to s ?cur (new_msg (StopTurnMsg True)) ?sv1)
     (\<lambda>sv2. rbind (send_to s (get_enemy_idx ?cur) (new_msg (StopTurnMsg False)) sv2) ?rest)"
    using True assms(2) by (simp add: end_turn_def Let_def)
  obtain sv2 where s2: "send_to s ?cur (new_msg (StopTurnMsg True)) ?sv1 = Inr sv2" "same_but_msgs ?sv1 sv2"
    using playing_sends [OF i1, of s ?cur] assms(2) inv_cur [OF assms]
    by (auto simp: playing_def dest!: ok_withD)
  have i2: "winv X {} sv2" using i1 s2(2) by (simp add: same_inv)
  have "ok_with (same_but_msgs sv2) (send_to s (get_enemy_idx ?cur) (new_msg (StopTurnMsg False)) sv2)"
    using assms(2) get_enemy_idx_range [OF inv_cur [OF assms]]
    by (intro playing_sends [OF i2]) (simp_all add: same_simps [OF s2(2)] playing_def)
  then obtain sv3 where s3: "send_to s (get_enemy_idx ?cur) (new_msg (StopTurnMsg False)) sv2 = Inr sv3"
    "same_but_msgs sv2 sv3" by (auto dest!: ok_withD)
  have s13: "same_but_msgs ?sv1 sv3" by (rule same_trans [OF s2(2) s3(2)])
  have "res_with E (?Q sv3) (?rest sv3)" using s13 i1 by (intro rest) (simp_all add: same_inv)
  then have "res_with E (?Q sv) (?rest sv3)"
    by (rule res_with_mono) (auto simp: keeps_def intro: hext_trans [OF hext_trans [OF mod_hext(1) same_hext [OF s13]]])
  then show ?thesis by (simp only: eq s2(1) s3(1) rbind.simps)
qed

lemma shot_loop_result:
  "wf_field f \<Longrightarrow> res_with {Diverges} (\<lambda>(res, f', sv'). wf_field f' \<and> (\<exists>k. sv' = sv\<lparr>sv_rand_pos := k\<rparr>)) (shot_loop n f shot sv)"
proof (induction n arbitrary: f shot sv)
  case (Suc n)
  let ?f = "snd (register_shot f shot)"
  let ?sv1 = "snd (rand_below 10 sv)"
  let ?p = "Point (fst (rand_below 10 sv)) (fst (rand_below 10 ?sv1))"
  have wf: "wf_field ?f" using Suc.prems by (rule wf_register_shot)
  have eq: "shot_loop (Suc n) f shot sv = (if fst (register_shot f shot) = CELL_EMPTY
      then shot_loop n ?f ?p (snd (rand_below 10 ?sv1)) else Inr (fst (register_shot f shot), ?f, snd (rand_below 10 ?sv1)))"
    by (simp add: split_def Let_def)
  show ?case
  proof (cases "fst (register_shot f shot) = CELL_EMPTY")
    case True
    have "res_with {Diverges} (\<lambda>(res, f', sv'). wf_field f' \<and> (\<exists>k. sv' = sv\<lparr>sv_rand_pos := k\<rparr>))
        (shot_loop n ?f ?p (snd (rand_below 10 ?sv1)))"
      by (rule res_with_mono [OF Suc.IH [OF wf]]) (auto simp: snd_rand_below)
    then show ?thesis using eq True by simp
  next
    case False
    then show ?thesis using eq wf by (auto simp: snd_rand_below)
  qed
qed simp

lemma inv_clear_shot:
  assumes "winv X {} sv" "s < length (sv_sessions sv)" "gs_state (sess sv s) \<noteq> GAME_TURN" "wf_field f" "i < 2"
  shows "winv X {} (mod_session s (\<lambda>gs. clear_last_shot (gs\<lparr>gs_fields := (gs_fields gs)[i := f]\<rparr>)) sv)"
proof (rule inv_mod [OF assms(1,2)])
  have "session_ok (sess sv s)" by (rule inv_session [OF assms(1,2)])
  moreover have "i = 0 \<or> i = 1" using assms(5) by auto
  ultimately show "session_ok (clear_last_shot ((sess sv s)\<lparr>gs_fields := (gs_fields (sess sv s))[i := f]\<rparr>))"
    using assms(4) by (auto simp: clear_last_shot_def session_ok_def state_ok_def get_players_count_def)
qed (use assms(3) in \<open>simp_all add: clear_last_shot_def turn_at_def\<close>)

lemma register_last_shot_keeps:
  assumes "winv X {} sv" "s < length (sv_sessions sv)" "gs_state (sess sv s) = PROCESS_TURN"
  shows "res_with {Diverges} (\<lambda>(res, sv'). keeps X {} sv sv' \<and> gs_state (sess sv' s) = PROCESS_TURN)
    (register_last_shot s sv)"
proof -
  define p where "p = (if \<not> has_last_shot (sess sv s)
      then (let (x, sva) = rand_below 10 sv; (y, svb) = rand_below 10 sva in (Point x y, svb))
      else (gs_last_shot (sess sv s), sv))"
  obtain shot sv1 where ps: "p = (shot, sv1)" by force
  obtain k where sv1: "sv1 = sv\<lparr>sv_rand_pos := k\<rparr>"
  proof (cases "has_last_shot (sess sv s)")
    case True
    then have "sv1 = sv\<lparr>sv_rand_pos := sv_rand_pos sv\<rparr>" using ps p_def by simp
    then show thesis by (rule that)
  next
    case False
    then have "sv1 = snd (rand_below 10 (snd (rand_below 10 sv)))"
      using ps p_def by (simp add: split_def Let_def)
    then show thesis using that by (simp add: snd_rand_below)
  qed
  let ?e = "get_enemy_idx (gs_cur (sess sv s))"
  have e: "?e = 0 \<or> ?e = 1" by (rule get_enemy_idx_range [OF inv_cur [OF assms(1,2)]])
  then obtain f where f: "field_at (sess sv1 s) ?e = Inr f" "wf_field f"
    using inv_session [OF assms(1,2)] by (auto simp: field_at_def PLAYERS_COUNT_def sv1 session_ok_def)
  have i1: "winv X {} sv1" using assms(1) by (simp add: sv1)
  have eq: "register_last_shot s sv = rbind (shot_loop (sv_bound sv1) f shot sv1) (\<lambda>(res, f', sv2).
      Inr (res, mod_session s (\<lambda>gs. clear_last_shot (gs\<lparr>gs_fields := (gs_fields gs)[nat ?e := f']\<rparr>)) sv2))"
    using f(1) by (simp add: register_last_shot_def Let_def p_def [symmetric] ps)
  show ?thesis
    unfolding eq
  proof (rule res_with_rbind [OF shot_loop_result [OF f(2)]])
    fix r :: "CellState \<times> GameField \<times> Server"
    assume r: "case r of (res, f', sv') \<Rightarrow> wf_field f' \<and> (\<exists>k. sv' = sv1\<lparr>sv_rand_pos := k\<rparr>)"
    obtain res f' sv2 where rr: "r = (res, f', sv2)" by (cases r)
    then obtain j where sv2: "sv2 = sv1\<lparr>sv_rand_pos := j\<rparr>" and wf: "wf_field f'" using r by auto
    let ?sv3 = "mod_session s (\<lambda>gs. clear_last_shot (gs\<lparr>gs_fields := (gs_fields gs)[nat ?e := f']\<rparr>)) sv2"
    have "winv X {} ?sv3"
      using i1 assms(2,3) wf e by (intro inv_clear_shot) (auto simp: sv2 sv1)
    moreover have "hext sv sv2" by (simp add: sv2 sv1)
    then have "hext sv ?sv3" by (rule hext_trans [OF _ mod_hext(1)])
    ultimately show "res_with {Diverges} (\<lambda>(res, sv'). keeps X {} sv sv' \<and> gs_state (sess sv' s) = PROCESS_TURN)
        ((\<lambda>(res, f', sv2). Inr (res, mod_session s (\<lambda>gs. clear_last_shot (gs\<lparr>gs_fields := (gs_fields gs)[nat ?e := f']\<rparr>)) sv2)) r)"
      using assms(2,3) by (simp add: rr keeps_def sv2 sv1 clear_last_shot_def)
  qed
qed

lemma field_of_enemy:
  assumes "winv X {} sv" "s < length (sv_sessions sv)"
  obtains f where "field_at (sess sv s) (get_enemy_idx (gs_cur (sess sv s))) = Inr f"
  using get_enemy_idx_range [OF inv_cur [OF assms]] that
  by (auto simp: field_at_def PLAYERS_COUNT_def)

lemma send_both_only:
  assumes "winv X S sv" "s < length (sv_sessions sv)" "playing (gs_state (sess sv s))" "cur = 0 \<or> cur = 1"
  shows "ok_with (same_but_msgs sv) (rbind (send_to s cur m1 sv) (send_to s (get_enemy_idx cur) m2))"
proof (rule ok_with_rbind [OF playing_sends [OF assms(1,2,4,3)]])
  fix sv1 assume s1: "same_but_msgs sv sv1"
  have "ok_with (same_but_msgs sv1) (send_to s (get_enemy_idx cur) m2 sv1)"
    using assms get_enemy_idx_range [OF assms(4)]
    by (intro playing_sends [of X S]) (simp_all add: same_simps [OF s1] same_inv [OF s1])
  then show "ok_with (same_but_msgs sv) (send_to s (get_enemy_idx cur) m2 sv1)"
    by (rule ok_with_mono) (rule same_trans [OF s1])
qed

lemma send_fields_same:
  assumes "winv X {} sv" "s < length (sv_sessions sv)" "playing (gs_state (sess sv s))"
  shows "ok_with (same_but_msgs sv) (send_fields s sv)"
proof -
  obtain f where "field_at (sess sv s) (get_enemy_idx (gs_cur (sess sv s))) = Inr f"
    by (rule field_of_enemy [OF assms(1,2)])
  then show ?thesis
    using send_both_only [OF assms inv_cur [OF assms(1,2)]] by (simp add: send_fields_def Let_def)
qed

lemma send_game_result_same:
  assumes "winv X {} sv" "s < length (sv_sessions sv)" "playing (gs_state (sess sv s))"
  shows "ok_with (same_but_msgs sv) (send_game_result s sv)"
  using send_both_only [OF assms inv_cur [OF assms(1,2)]] by (simp add: send_game_result_def Let_def)

text \<open>What a change of the turn does after the shot.\<close>

definition rest_of_turn :: "nat \<Rightarrow> CellState \<Rightarrow> Server \<Rightarrow> Server res" where
  "rest_of_turn s shot_res sv1 =
     rbind (send_fields s sv1) (\<lambda>sv2.
     rbind (is_game_over (sess sv2 s)) (\<lambda>over.
       if over then
         rbind (send_game_result s sv2) (\<lambda>sv3.
           Inr (snd (add_timeout_handler (mk_timeout EndGameTimeout WAIT_DURATION s) sv3)))
       else
         start_new_turn s
           (if shot_res \<noteq> CELL_DAMAGED then mod_session s change_cur_turn_player_idx sv2 else sv2)))"

lemma change_turn_player_rest:
  "gs_state (sess sv s) = PROCESS_TURN \<Longrightarrow>
    change_turn_player s sv = rbind (register_last_shot s sv) (\<lambda>(r, sv1). rest_of_turn s r sv1)"
  by (simp add: change_turn_player_def rest_of_turn_def)

lemma next_player_keeps:
  assumes "winv X {} sv" "s < length (sv_sessions sv)" "gs_state (sess sv s) = PROCESS_TURN"
  shows "res_with E (keeps X {} sv) (start_new_turn s
    (if shot_res \<noteq> CELL_DAMAGED then mod_session s change_cur_turn_player_idx sv else sv))"
proof (cases "shot_res = CELL_DAMAGED")
  case True
  then show ?thesis using start_new_turn_keeps [OF assms(1,2)] by simp
next
  case False
  let ?r = "get_enemy_idx (gs_cur (sess sv s))"
  let ?sv = "mod_session s change_cur_turn_player_idx sv"
  have "?sv = mod_session s (\<lambda>gs. gs\<lparr>gs_cur := ?r\<rparr>) sv"
    by (simp add: mod_session_def change_cur_turn_player_idx_def)
  then have "winv X {} ?sv"
    using inv_set_cur [OF assms(1,2), of ?r] assms(3) get_enemy_idx_range [OF inv_cur [OF assms(1,2)]] by simp
  then have "res_with E (keeps X {} ?sv) (start_new_turn s ?sv)"
    using assms(2) by (intro start_new_turn_keeps) simp_all
  then show ?thesis using False keeps_from [OF mod_hext(1)] by simp
qed

lemma end_of_game_keeps:
  assumes "winv X {} sv" "s < length (sv_sessions sv)" "gs_state (sess sv s) = PROCESS_TURN"
  shows "res_with E (keeps X {} sv) (rbind (send_game_result s sv) (\<lambda>sv3.
      Inr (snd (add_timeout_handler (mk_timeout EndGameTimeout WAIT_DURATION s) sv3))))"
proof (rule keeps_send [OF send_game_result_same [OF assms(1,2)] assms(1)])
  show "playing (gs_state (sess sv s))" by (simp add: assms(3) playing_def)
next
  fix sv3 assume s3: "same_but_msgs sv sv3" "winv X {} sv3"
  then show "res_with E (keeps X {} sv3)
      (Inr (snd (add_timeout_handler (mk_timeout EndGameTimeout WAIT_DURATION s) sv3)))"
    using assms(2) by (simp add: keeps_add mk_timeout_def same_simps [OF s3(1)])
qed

lemma rest_of_turn_keeps:
  assumes "winv X {} sv" "s < length (sv_sessions sv)" "gs_state (sess sv s) = PROCESS_TURN"
  shows "res_with E (keeps X {} sv) (rest_of_turn s r sv)"
  unfolding rest_of_turn_def
proof (rule keeps_send [OF _ assms(1)])
  show "ok_with (same_but_msgs sv) (send_fields s sv)"
    using assms(3) by (intro send_fields_same [OF assms(1,2)]) (simp add: playing_def)
next
  fix sv2 assume s2: "same_but_msgs sv sv2" "winv X {} sv2"
  have sl2: "s < length (sv_sessions sv2)" and st2: "gs_state (sess sv2 s) = PROCESS_TURN"
    using assms(2,3) by (simp_all add: same_simps [OF s2(1)])
  obtain f where "field_at (sess sv2 s) (get_enemy_idx (gs_cur (sess sv2 s))) = Inr f"
    by (rule field_of_enemy [OF s2(2) sl2])
  then show "res_with E (keeps X {} sv2) (rbind (is_game_over (sess sv2 s)) (\<lambda>over.
      if over then
        rbind (send_game_result s sv2) (\<lambda>sv3.
          Inr (snd (add_timeout_handler (mk_timeout EndGameTimeout WAIT_DURATION s) sv3)))
      else
        start_new_turn s
          (if r \<noteq> CELL_DAMAGED then mod_session s change_cur_turn_player_idx sv2 else sv2)))"
    using end_of_game_keeps [OF s2(2) sl2 st2] next_player_keeps [OF s2(2) sl2 st2] by (simp add: is_game_over_def)
qed

lemma change_turn_player_keeps:
  assumes "winv X {} sv" "s < length (sv_sessions sv)"
  shows "res_with {Diverges} (keeps X {} sv) (change_turn_player s sv)"
proof (cases "gs_state (sess sv s) = PROCESS_TURN")
  case False
  then show ?thesis using assms(1) by (simp add: change_turn_player_def keeps_refl)
next
  case True
  show ?thesis
    unfolding change_turn_player_rest [OF True]
  proof (rule res_with_rbind [OF register_last_shot_keeps [OF assms True]], clarsimp)
    fix r sv1 assume k1: "keeps X {} sv sv1" "gs_state (sess sv1 s) = PROCESS_TURN"
    have "s < length (sv_sessions sv1)" using assms(2) keepsD(3) [OF k1(1)] by simp
    then show "res_with {Diverges} (keeps X {} sv) (rest_of_turn s r sv1)"
      by (rule keeps_from [OF keepsD(4) [OF k1(1)] rest_of_turn_keeps [OF keepsD(1) [OF k1(1)] _ k1(2)]])
  qed
qed

section \<open>The loop over the timeout handlers\<close>

text \<open>
  After the event of a handler of a turn the session of the handler is not in a turn; no other
  event concerns the handler.
\<close>

lemma timeout_event_keeps:
  assumes "winv X {} sv" "to_session t < length (sv_sessions sv)"
  shows "res_with {Diverges} (\<lambda>sv'. keeps X {} sv sv' \<and>
     (to_kind t = GameTurnTimeout \<longrightarrow> gs_state (sess sv' (to_session t)) \<noteq> GAME_TURN)) (timeout_event t sv)"
proof (cases "to_kind t")
  case PreparationTimeout
  then show ?thesis using stop_preparation_keeps [OF assms] by (simp add: timeout_event_def)
next
  case CheckStartFieldsTimeout
  then show ?thesis using check_start_fields_keeps [OF assms] by (simp add: timeout_event_def)
next
  case GameStartTimeout
  then show ?thesis using start_game_keeps [OF assms] by (simp add: timeout_event_def)
next
  case GameTurnTimeout
  then show ?thesis using end_turn_keeps [OF assms] by (simp add: timeout_event_def)
next
  case ChangeTurnTimeout
  then show ?thesis using change_turn_player_keeps [OF assms] by (simp add: timeout_event_def)
next
  case EndGameTimeout
  then show ?thesis using end_game_keeps [OF assms] by (simp add: timeout_event_def)
qed

lemma th_process_frame [simp]:
  "to_kind (snd (th_process p u t)) = to_kind t" "to_session (snd (th_process p u t)) = to_session t"
  by (simp_all add: th_process_def Let_def)

lemma th_process_fired:
  "th_process p u t = (False, t') \<Longrightarrow> th_elapsed t' \<Longrightarrow> th_elapsed t"
  by (auto simp: th_process_def Let_def split: if_splits)

lemma winv_weaken: "winv X S sv \<Longrightarrow> X \<subseteq> Y \<Longrightarrow> winv Y S sv"
  unfolding winv_def core_inv_def handlers_ok_def turn_at_def by blast

lemma winv_strengthen:
  assumes "winv {a} {} sv" "sv_handlers sv a = Some t"
    "to_kind t = GameTurnTimeout \<longrightarrow> gs_state (sess sv (to_session t)) \<noteq> GAME_TURN"
  shows "winv {} {} sv"
proof -
  have ok: "sessions_ok sv" "links_ok sv" "arrays_wf sv" "handlers_ok {a} {} sv" "arrays_ok sv"
    using assms(1) by (simp_all add: winv_def core_inv_def)
  have "turn_at {} sv s (sess sv s)" if s: "s < length (sv_sessions sv)" for s
    unfolding turn_at_def
  proof
    assume g: "gs_state (sess sv s) = GAME_TURN"
    then obtain b u where b: "gs_turn_timeout (sess sv s) = Some b" "sv_handlers sv b = Some u"
      "to_kind u = GameTurnTimeout" "to_session u = s" "b \<notin> {a} \<longrightarrow> \<not> th_elapsed u"
      using ok(4) s unfolding handlers_ok_def turn_at_def by blast
    have "b \<noteq> a" using assms(2,3) b(2-4) g by (metis option.inject)
    then have "\<not> th_elapsed u" using b(5) by simp
    with b(1-4) show "\<exists>b u. gs_turn_timeout (sess sv s) = Some b \<and> sv_handlers sv b = Some u
        \<and> to_kind u = GameTurnTimeout \<and> to_session u = s \<and> (b \<notin> {} \<longrightarrow> \<not> th_elapsed u)"
      by (intro exI [of _ b] exI [of _ u]) simp
  qed
  then have "handlers_ok {} {} sv" using ok(4) by (simp add: handlers_ok_def)
  then show ?thesis using ok by (simp add: winv_def core_inv_def)
qed

lemma winv_timeouts:
  assumes "winv X S sv" "distinct as" "\<forall>a \<in> set as. sv_handlers sv a \<noteq> None"
  shows "winv X S (sv\<lparr>sv_timeouts := as\<rparr>)"
  using assms by (simp add: winv_def core_inv_def sessions_ok_def links_ok_def arrays_wf_def handlers_ok_def
    turn_at_def arrays_ok_def with_session_def without_session_def)

lemma winv_delete_handler:
  assumes "winv {} {} sv" "sv_handlers sv a = Some t" "th_elapsed t" "a \<notin> set (sv_timeouts sv)"
  shows "winv {} {} (sv\<lparr>sv_handlers := (sv_handlers sv)(a := None)\<rparr>)" (is "winv {} {} ?sv")
proof -
  have ok: "sessions_ok sv" "links_ok sv" "arrays_wf sv" "handlers_ok {} {} sv" "arrays_ok sv"
    using assms(1) by (simp_all add: winv_def core_inv_def)
  have "turn_at {} ?sv s (sess sv s)" if s: "s < length (sv_sessions sv)" for s
    unfolding turn_at_def
  proof
    assume g: "gs_state (sess sv s) = GAME_TURN"
    then obtain b u where b: "gs_turn_timeout (sess sv s) = Some b" "sv_handlers sv b = Some u"
      "to_kind u = GameTurnTimeout" "to_session u = s" "\<not> th_elapsed u"
      using ok(4) s unfolding handlers_ok_def turn_at_def by blast
    then have "b \<noteq> a" using assms(2,3) by auto
    with b show "\<exists>b u. gs_turn_timeout (sess sv s) = Some b \<and> sv_handlers ?sv b = Some u
        \<and> to_kind u = GameTurnTimeout \<and> to_session u = s \<and> (b \<notin> {} \<longrightarrow> \<not> th_elapsed u)"
      by (intro exI [of _ b] exI [of _ u]) simp
  qed
  then have "handlers_ok {} {} ?sv" using ok(4) assms(4) by (auto simp: handlers_ok_def)
  moreover have "sessions_ok ?sv" using ok(1) by (simp add: sessions_ok_def)
  moreover have "links_ok ?sv" using ok(2) by (simp add: links_ok_def)
  moreover have "arrays_wf ?sv" using ok(3) by (simp add: arrays_wf_def)
  moreover have "arrays_ok ?sv" using ok(5) arrays_ok_cong [of ?sv sv] by simp
  ultimately show ?thesis by (simp add: winv_def core_inv_def)
qed

lemma hext_alive: "hext sv sv' \<Longrightarrow> sv_handlers sv a = Some t \<Longrightarrow>
  \<exists>t'. sv_handlers sv' a = Some t' \<and> to_kind t' = to_kind t \<and> to_session t' = to_session t"
  by (simp add: hext_def)

lemma hext_distinct:
  assumes "hext sv sv'" "winv X S sv" "distinct (tmp @ sv_timeouts sv)" "\<forall>a \<in> set tmp. sv_handlers sv a \<noteq> None"
  shows "distinct (tmp @ sv_timeouts sv')" "\<forall>a \<in> set tmp. sv_handlers sv' a \<noteq> None"
proof -
  obtain as where as: "sv_timeouts sv' = sv_timeouts sv @ as" "distinct as"
    "\<forall>a \<in> set as. sv_next_handler sv \<le> a"
    using assms(1) by (auto simp: hext_def)
  have old: "a < sv_next_handler sv" if "sv_handlers sv a \<noteq> None" for a
    using assms(2) that by (auto simp: winv_def core_inv_def handlers_ok_def)
  have alive: "\<forall>a \<in> set (sv_timeouts sv). sv_handlers sv a \<noteq> None"
    using assms(2) by (auto simp: winv_def core_inv_def handlers_ok_def)
  have "set (tmp @ sv_timeouts sv) \<inter> set as = {}"
    using old alive assms(4) as(3) by (metis UnE disjoint_iff not_le set_append)
  then show "distinct (tmp @ sv_timeouts sv')" using as assms(3) by auto
  show "\<forall>a \<in> set tmp. sv_handlers sv' a \<noteq> None"
  proof
    fix a assume "a \<in> set tmp"
    then obtain t where "sv_handlers sv a = Some t" using assms(4) by blast
    from hext_alive [OF assms(1) this] show "sv_handlers sv' a \<noteq> None" by auto
  qed
qed

text \<open>
  One handler: after its time has advanced and its event, if it fired, the invariant holds again.
\<close>

lemma handler_step:
  assumes "winv {} {} sv" "sv_timeouts sv = a # as" "sv_handlers sv a = Some t"
    "th_process (fst passed) (snd passed) t = (fired, t1)"
    "sv1 = sv\<lparr>sv_timeouts := as, sv_handlers := (sv_handlers sv)(a := Some t1)\<rparr>"
  shows "res_with {Diverges} (\<lambda>sv2. winv {} {} sv2 \<and> hext sv1 sv2) (if fired then timeout_event t1 sv1 else Inr sv1)"
    and "winv {a} {} sv1"
proof -
  have t1: "to_kind t1 = to_kind t" "to_session t1 = to_session t"
    using th_process_frame [of "fst passed" "snd passed" t] assms(4) by simp_all
  have d: "distinct as" "\<forall>b \<in> set as. sv_handlers sv b \<noteq> None"
    using assms(1,2) by (auto simp: winv_def core_inv_def handlers_ok_def)
  have sv1: "sv1 = set_handler a t1 (sv\<lparr>sv_timeouts := as\<rparr>)"
    by (simp add: assms(5) set_handler_def)
  have i: "winv {} {} (sv\<lparr>sv_timeouts := as\<rparr>)" by (rule winv_timeouts [OF assms(1) d])
  have h: "sv_handlers (sv\<lparr>sv_timeouts := as\<rparr>) a = Some t" using assms(3) by simp
  show i1: "winv {a} {} sv1"
    unfolding sv1 by (rule inv_set_handler [OF i h t1]) auto
  have sl: "to_session t1 < length (sv_sessions sv1)"
    using assms(1,3) t1 by (auto simp: winv_def core_inv_def handlers_ok_def sv1)
  show "res_with {Diverges} (\<lambda>sv2. winv {} {} sv2 \<and> hext sv1 sv2) (if fired then timeout_event t1 sv1 else Inr sv1)"
  proof (cases fired)
    case True
    have "res_with {Diverges} (\<lambda>sv2. winv {} {} sv2 \<and> hext sv1 sv2) (timeout_event t1 sv1)"
    proof (rule res_with_mono [OF timeout_event_keeps [OF i1 sl] order_refl])
      fix sv2 assume k: "keeps {a} {} sv1 sv2 \<and> (to_kind t1 = GameTurnTimeout \<longrightarrow>
        gs_state (sess sv2 (to_session t1)) \<noteq> GAME_TURN)"
      then obtain t2 where "sv_handlers sv2 a = Some t2" "to_kind t2 = to_kind t1" "to_session t2 = to_session t1"
        using hext_alive [of sv1 sv2 a t1] by (auto simp: keeps_def sv1)
      then show "winv {} {} sv2 \<and> hext sv1 sv2"
        using winv_strengthen [of a sv2 t2] k by (simp add: keeps_def)
    qed
    then show ?thesis using True by simp
  next
    case False
    have "winv {} {} sv1"
    proof (cases "th_elapsed t1")
      case True
      then have e: "th_elapsed t" using th_process_fired assms(4) False by simp
      have "\<forall>s < length (sv_sessions sv). s \<notin> {} \<longrightarrow> gs_state (sess sv s) = GAME_TURN \<longrightarrow>
          gs_turn_timeout (sess sv s) \<noteq> Some a"
        using assms(1,3) e unfolding winv_def core_inv_def handlers_ok_def turn_at_def
        by (metis empty_iff option.inject)
      then show ?thesis
        unfolding sv1 by (intro inv_set_handler [OF i h t1]) auto
    next
      case False
      then show ?thesis
        unfolding sv1 by (intro inv_set_handler [OF i h t1]) auto
    qed
    then show ?thesis using False by simp
  qed
qed

lemma timeouts_loop_inv:
  assumes "winv {} {} sv" "distinct (tmp @ sv_timeouts sv)" "\<forall>a \<in> set tmp. sv_handlers sv a \<noteq> None"
  shows "res_with {Diverges, OutOfFuel} (\<lambda>(tmp', sv'). winv {} {} sv' \<and> sv_timeouts sv' = [] \<and> distinct tmp'
     \<and> (\<forall>a \<in> set tmp'. sv_handlers sv' a \<noteq> None)) (timeouts_loop n passed tmp sv)"
  using assms
proof (induction n arbitrary: tmp sv)
  case (Suc n)
  show ?case
  proof (cases "sv_timeouts sv")
    case Nil
    then show ?thesis using Suc.prems by simp
  next
    case (Cons a as)
    obtain t where t: "sv_handlers sv a = Some t"
      using Suc.prems(1) Cons by (auto simp: winv_def core_inv_def handlers_ok_def)
    obtain fired t1 where p: "th_process (fst passed) (snd passed) t = (fired, t1)" by force
    define sv1 where "sv1 = sv\<lparr>sv_timeouts := as, sv_handlers := (sv_handlers sv)(a := Some t1)\<rparr>"
    note st = handler_step [OF Suc.prems(1) Cons t p sv1_def]
    have d1: "distinct ((tmp @ [a]) @ sv_timeouts sv1)" "\<forall>b \<in> set (tmp @ [a]). sv_handlers sv1 b \<noteq> None"
      using Suc.prems(2,3) Cons by (auto simp: sv1_def)
    have eq: "timeouts_loop (Suc n) passed tmp sv = rbind (if fired then timeout_event t1 sv1 else Inr sv1) (\<lambda>sv2.
        case sv_handlers sv2 a of
          None \<Rightarrow> Inl UseAfterFree
        | Some t2 \<Rightarrow>
            (if \<not> th_elapsed t2 then timeouts_loop n passed (tmp @ [a]) sv2
             else timeouts_loop n passed tmp (sv2\<lparr>sv_handlers := (sv_handlers sv2)(a := None)\<rparr>)))"
      using Cons t p by (simp add: sv1_def)
    show ?thesis
      unfolding eq
    proof (rule res_with_rbind)
      show "res_with {Diverges, OutOfFuel} (\<lambda>sv2. winv {} {} sv2 \<and> hext sv1 sv2)
          (if fired then timeout_event t1 sv1 else Inr sv1)"
        by (rule res_with_mono [OF st(1)]) auto
    next
      fix sv2 assume s2: "winv {} {} sv2 \<and> hext sv1 sv2"
      note d2 = hext_distinct [OF conjunct2 [OF s2] st(2) d1]
      obtain t2 where t2: "sv_handlers sv2 a = Some t2" using d2(2) by auto
      show "res_with {Diverges, OutOfFuel} (\<lambda>(tmp', sv'). winv {} {} sv' \<and> sv_timeouts sv' = [] \<and> distinct tmp'
         \<and> (\<forall>a \<in> set tmp'. sv_handlers sv' a \<noteq> None)) (case sv_handlers sv2 a of
          None \<Rightarrow> Inl UseAfterFree
        | Some t2 \<Rightarrow>
            (if \<not> th_elapsed t2 then timeouts_loop n passed (tmp @ [a]) sv2
             else timeouts_loop n passed tmp (sv2\<lparr>sv_handlers := (sv_handlers sv2)(a := None)\<rparr>)))"
      proof (cases "th_elapsed t2")
        case False
        then show ?thesis using Suc.IH [OF conjunct1 [OF s2] d2] t2 by simp
      next
        case True
        let ?sv3 = "sv2\<lparr>sv_handlers := (sv_handlers sv2)(a := None)\<rparr>"
        have "a \<notin> set (sv_timeouts sv2)" using d2(1) by auto
        then have "winv {} {} ?sv3" using winv_delete_handler [OF conjunct1 [OF s2] t2 True] by simp
        moreover have "distinct (tmp @ sv_timeouts ?sv3)" using d2(1) by auto
        moreover have "\<forall>b \<in> set tmp. sv_handlers ?sv3 b \<noteq> None" using d2 by auto
        ultimately show ?thesis using Suc.IH [of ?sv3 tmp] t2 True by simp
      qed
    qed
  qed
qed simp

lemma process_timeouts_inv:
  assumes "server_inv sv"
  shows "res_with {Diverges, OutOfFuel} server_inv (process_timeouts n passed sv)"
proof (cases "sv_timeouts sv = []")
  case True
  then show ?thesis using assms by (simp add: process_timeouts_def)
next
  case False
  have "distinct ([] @ sv_timeouts sv)"
    using assms by (simp add: server_inv_def winv_def core_inv_def handlers_ok_def)
  from timeouts_loop_inv [OF assms [unfolded server_inv_def] this, of n passed]
  have l: "res_with {Diverges, OutOfFuel} (\<lambda>(tmp', sv'). winv {} {} sv' \<and> sv_timeouts sv' = [] \<and> distinct tmp'
     \<and> (\<forall>a \<in> set tmp'. sv_handlers sv' a \<noteq> None)) (timeouts_loop n passed [] sv)" by simp
  have eq: "process_timeouts n passed sv = rbind (timeouts_loop n passed [] sv) (\<lambda>(tmp, sv1). Inr (sv1\<lparr>sv_timeouts := tmp\<rparr>))"
    using False by (simp add: process_timeouts_def)
  show ?thesis
    unfolding eq by (rule res_with_rbind [OF l]) (auto simp: server_inv_def intro!: winv_timeouts)
qed

end
