(* ===== verification/ServerMail.thy ===== *)
theory ServerMail
  imports ServerInv
begin

text \<open>
  What the clients have sent stays what it was through every operation of a session: the buffer and
  the messages to process of a client change only when the client itself is read or served, or it is
  deleted.
\<close>

section \<open>The mail of the clients\<close>

definition mail :: "Server \<Rightarrow> nat \<Rightarrow> (Message list \<times> MsgBuffer) option" where
  "mail sv = (\<lambda>c. map_option (\<lambda>cl. (cd_to_process cl, cd_buf cl)) (sv_clients sv c))"

definition calm :: "Server \<Rightarrow> Server \<Rightarrow> bool" where
  "calm sv sv' \<longleftrightarrow> mail sv' \<subseteq>\<^sub>m mail sv"

definition calm_res :: "Server \<Rightarrow> Server res \<Rightarrow> bool" where
  "calm_res sv r \<longleftrightarrow> res_with UNIV (calm sv) r"

named_theorems calm \<open>operations that leave the mail alone\<close>

lemma mail_simps [simp]:
  "mail (mod_session s f sv) = mail sv" "mail (snd (add_timeout_handler t sv)) = mail sv"
  "mail (sv\<lparr>sv_handlers := h\<rparr>) = mail sv" "mail (sv\<lparr>sv_sessions := ss\<rparr>) = mail sv"
  "mail (sv\<lparr>sv_timeouts := ts\<rparr>) = mail sv" "mail (sv\<lparr>sv_rand_pos := k\<rparr>) = mail sv"
  "mail (sv\<lparr>sv_queue := q\<rparr>) = mail sv" "mail (sv\<lparr>sv_in_game := q\<rparr>) = mail sv"
  "mail (sv\<lparr>sv_clock := now\<rparr>) = mail sv"
  by (simp_all add: mail_def add_timeout_handler_def)

lemma calm_refl [simp, calm]: "calm sv sv"
  by (simp add: calm_def)

lemma calm_mail [simp]: "mail sv' = mail sv \<Longrightarrow> calm sv sv'"
  by (simp add: calm_def)

lemma calm_trans: "calm sv sv1 \<Longrightarrow> calm sv1 sv2 \<Longrightarrow> calm sv sv2"
  unfolding calm_def by (rule map_le_trans)

lemma calm_Inl [calm]: "calm_res sv (Inl e)"
  by (simp add: calm_res_def)

lemma calm_Inr: "calm_res sv (Inr sv') \<longleftrightarrow> calm sv sv'"
  by (simp add: calm_res_def)

lemma calm_Inr_mail [calm]: "mail sv' = mail sv \<Longrightarrow> calm_res sv (Inr sv')"
  by (simp add: calm_Inr calm_def)

lemma calm_bind [calm]:
  "calm_res sv r \<Longrightarrow> (\<And>sv1. r = Inr sv1 \<Longrightarrow> calm_res sv1 (f sv1)) \<Longrightarrow> calm_res sv (rbind r f)"
  by (cases r) (auto simp: calm_res_def elim!: res_with_mono intro: calm_trans)

lemma calm_start: "mail sv1 = mail sv \<Longrightarrow> calm_res sv1 r \<Longrightarrow> calm_res sv r"
proof -
  assume "mail sv1 = mail sv"
  then have "calm sv1 = calm sv" by (intro ext) (simp add: calm_def)
  then show "calm_res sv1 r \<Longrightarrow> calm_res sv r" by (simp add: calm_res_def)
qed

lemma calm_value [calm]:
  "(\<And>x. r = Inr x \<Longrightarrow> calm_res sv (f x)) \<Longrightarrow> calm_res sv (rbind r f)"
  by (cases r) (auto simp: calm_res_def)

lemma calm_rfor:
  assumes "\<And>i sv. calm_res sv (f i sv)"
  shows "calm_res sv (rfor is f sv)"
proof (induction "is" arbitrary: sv)
  case (Cons i "is")
  then show ?case using assms by (simp add: calm_bind)
qed (simp add: calm_Inr)

lemma calm_if: "(b \<Longrightarrow> calm_res sv r) \<Longrightarrow> (\<not> b \<Longrightarrow> calm_res sv r') \<Longrightarrow> calm_res sv (if b then r else r')"
  by simp

section \<open>Operations\<close>

lemma calm_on_client:
  assumes "\<And>cl. cd_to_process (f cl) = cd_to_process cl" "\<And>cl. cd_buf (f cl) = cd_buf cl"
  shows "calm_res sv (on_client p f sv)"
proof (cases "\<exists>c cl. p = Some c \<and> sv_clients sv c = Some cl")
  case True
  then obtain c cl where "p = Some c" "sv_clients sv c = Some cl" by auto
  then show ?thesis using assms by (auto simp: on_client_def calm_Inr calm_def mail_def map_le_def)
next
  case False
  then show ?thesis by (auto simp: on_client_def calm_res_def split: option.splits)
qed

lemma calm_send: "calm_res sv (on_client p (send_msg m) sv)"
  by (rule calm_on_client) simp_all

lemma calm_send_to: "calm_res sv (send_to s i m sv)"
  unfolding send_to_def by (rule calm_value) (rule calm_send)

lemma calm_send_state: "calm_res sv (send_game_state_for_all s sv)"
  unfolding send_game_state_for_all_def by (rule calm_rfor) (simp add: calm_send calm_Inr)

lemma calm_send_for_all: "calm_res sv (send_for_all s m sv)"
  unfolding send_for_all_def Let_def by (rule calm_rfor) (simp add: calm_send calm_Inr)

lemma calm_disconnect_player: "calm_res sv (disconnect_player s p sv)"
  by (simp add: disconnect_player_def Let_def calm_Inr calm_Inr_mail calm_send_state)

lemma calm_disconnect_from: "calm_res sv (disconnect_from_game_session c sv)"
  unfolding disconnect_from_game_session_def
  by (auto simp: calm_Inl calm_Inr split: option.split intro!: calm_bind calm_disconnect_player calm_on_client)

lemma calm_delete: "calm sv (sv\<lparr>sv_queue := q, sv_in_game := g, sv_clients := (sv_clients sv)(c := None)\<rparr>)"
  by (auto simp: calm_def mail_def map_le_def)

lemma calm_disconnect: "calm_res sv (disconnect_client p sv)"
  unfolding disconnect_client_def
  by (auto simp: calm_Inr calm_delete split: option.split intro!: calm_bind calm_disconnect_from)

lemma calm_start_preparation: "calm_res sv (start_preparation s sv)"
  unfolding start_preparation_def Let_def
  by (auto simp: calm_Inr intro!: calm_start [of "mod_session s (set_game_state PREPARATION) sv"]
    calm_bind calm_send_for_all calm_Inr_mail)

lemma calm_stop_preparation: "calm_res sv (stop_preparation s sv)"
proof -
  have "calm_res sv1 (send_game_state_for_all s (snd (add_timeout_handler t (mod_session s f sv1))))" for sv1 t f
    by (rule calm_start [OF _ calm_send_state]) simp
  then show ?thesis
    unfolding stop_preparation_def by (auto simp: calm_Inr intro!: calm_bind calm_send_for_all)
qed

lemma calm_start_fields: "calm_res sv (send_start_fields s sv)"
proof -
  have "calm_res sv (rbind (field_at gs i) (\<lambda>f. rbind (field_at gs j) (\<lambda>g.
      rbind (send_to s i (m f) sv) (send_to s i (m' g)))))" for sv gs i j m m'
    by (intro calm_value calm_bind calm_send_to)
  then show ?thesis
    unfolding send_start_fields_def by (intro calm_if calm_Inr_mail calm_rfor refl)
qed

lemma calm_check_start_fields: "calm_res sv (check_start_fields s sv)"
proof -
  have "calm_res sv1 (send_game_state_for_all s (mod_session s f sv1))" for sv1 f
    by (rule calm_start [OF _ calm_send_state]) simp
  then show ?thesis
    unfolding check_start_fields_def Let_def
    by (auto simp: calm_Inr calm_disconnect intro!: calm_bind calm_rfor calm_start_fields calm_Inr_mail)
qed

lemma calm_start_new_turn: "calm_res sv (start_new_turn s sv)"
proof -
  have "calm_res (mod_session s f sv) (rbind (send_to s i m1 (mod_session s f sv)) (\<lambda>sv2. rbind (send_to s j m2 sv2)
      (\<lambda>sv3. let (a, sv4) = add_timeout_handler t sv3 in Inr (mod_session s (g a) sv4))))" for f i j m1 m2 t g
  proof (intro calm_bind calm_send_to)
    fix sv3 :: Server
    have "mail (snd (add_timeout_handler t sv3)) = mail sv3" by simp
    then show "calm_res sv3 (let (a, sv4) = add_timeout_handler t sv3 in Inr (mod_session s (g a) sv4))"
      by (cases "add_timeout_handler t sv3") (simp add: calm_Inr)
  qed
  note k = calm_start [OF mail_simps(1) this]
  show ?thesis
    unfolding start_new_turn_def Let_def [of "mod_session s f x" for f x] Let_def [of "sv_clock x + y" for x y]
      Let_def [of "gs_cur x" for x]
    by (intro calm_if calm_Inr_mail k refl)
qed

lemma calm_start_game: "calm_res sv (start_game s sv)"
  unfolding start_game_def rand_below_def Let_def
  by (auto simp: calm_Inr intro!: calm_start [OF _ calm_start_new_turn])

lemma calm_stop_handler: "calm_res sv (stop_handler a sv)"
  by (auto simp: stop_handler_def calm_Inl intro!: calm_Inr_mail split: option.split)

lemma calm_end_turn: "calm_res sv (end_turn s sv)"
proof -
  have "calm_res sv1 (let sv4 = snd (add_timeout_handler t sv1) in case gs_turn_timeout (sess sv4 s) of
      None \<Rightarrow> Inr sv4 | Some a \<Rightarrow> rbind (stop_handler a sv4) (\<lambda>sv5. Inr (mod_session s f sv5)))" for sv1 t f
    unfolding Let_def
    by (rule calm_start [of "snd (add_timeout_handler t sv1)"])
      (auto simp: calm_Inr split: option.split intro!: calm_bind calm_stop_handler calm_Inr_mail)
  then have "calm_res (mod_session s g sv) (rbind (send_to s i m1 (mod_session s g sv)) (\<lambda>sv2. rbind (send_to s j m2 sv2)
      (\<lambda>sv1. let sv4 = snd (add_timeout_handler t sv1) in case gs_turn_timeout (sess sv4 s) of
      None \<Rightarrow> Inr sv4 | Some a \<Rightarrow> rbind (stop_handler a sv4) (\<lambda>sv5. Inr (mod_session s f sv5)))))" for g i j m1 m2 t f
    by (intro calm_bind calm_send_to)
  note k = calm_start [OF mail_simps(1) this]
  show ?thesis
    unfolding end_turn_def Let_def [of "mod_session s f x" for f x] Let_def [of "gs_cur x" for x]
    by (intro calm_if calm_Inr_mail k refl)
qed

lemma shot_loop_rand:
  "shot_loop n f shot sv = Inr (r, f', sv') \<Longrightarrow> \<exists>k. sv' = sv\<lparr>sv_rand_pos := k\<rparr>"
proof (induction n arbitrary: f shot sv)
  case (Suc n)
  let ?sv2 = "snd (rand_below 10 (snd (rand_below 10 sv)))"
  have e: "?sv2 = sv\<lparr>sv_rand_pos := Suc (Suc (sv_rand_pos sv))\<rparr>" by (simp add: snd_rand_below)
  from Suc.prems have "sv' = ?sv2 \<or> (\<exists>f1 p. shot_loop n f1 p ?sv2 = Inr (r, f', sv'))"
    by (auto simp: Let_def split: prod.splits if_splits)
  then show ?case using Suc.IH [of _ _ ?sv2] by (auto simp: e)
qed simp

lemma register_last_shot_mail:
  assumes "register_last_shot s sv = Inr (r, sv')"
  shows "mail sv' = mail sv"
  using assms unfolding register_last_shot_def rand_below_def Let_def
  by (auto simp: rbind_Inr_iff split: if_splits dest!: shot_loop_rand)

lemma calm_send_fields: "calm_res sv (send_fields s sv)"
  unfolding send_fields_def Let_def
  by (intro calm_value calm_bind calm_send_to)

lemma calm_game_result: "calm_res sv (send_game_result s sv)"
  unfolding send_game_result_def Let_def by (intro calm_bind calm_send_to)

lemma calm_change_turn: "calm_res sv (change_turn_player s sv)"
proof (cases "gs_state (sess sv s) = PROCESS_TURN")
  case True
  have k: "calm_res sv1 (rbind (send_fields s sv1) (\<lambda>sv2. rbind (is_game_over (sess sv2 s)) (\<lambda>over.
      if over then rbind (send_game_result s sv2) (\<lambda>sv3. Inr (snd (add_timeout_handler t sv3)))
      else start_new_turn s (if b then mod_session s f sv2 else sv2))))" for sv1 t b f
  proof (intro calm_bind calm_send_fields calm_value)
    fix sv2 :: Server and over
    have "calm_res sv2 (rbind (send_game_result s sv2) (\<lambda>sv3. Inr (snd (add_timeout_handler t sv3))))"
      by (intro calm_bind calm_game_result calm_Inr_mail) simp
    moreover have "calm_res sv2 (start_new_turn s (if b then mod_session s f sv2 else sv2))"
      by (rule calm_start [OF _ calm_start_new_turn]) simp
    ultimately show "calm_res sv2 (if over then rbind (send_game_result s sv2) (\<lambda>sv3. Inr (snd (add_timeout_handler t sv3)))
      else start_new_turn s (if b then mod_session s f sv2 else sv2))" by simp
  qed
  show ?thesis
  proof (cases "register_last_shot s sv")
    case (Inl e)
    then show ?thesis using True by (simp add: change_turn_player_def calm_Inl)
  next
    case (Inr p)
    obtain r sv1 where p: "p = (r, sv1)" by force
    have "mail sv1 = mail sv" using register_last_shot_mail Inr p by simp
    then show ?thesis
      using True Inr p calm_start [OF _ k [of sv1]] by (simp add: change_turn_player_def)
  qed
qed (simp add: change_turn_player_def calm_Inr)

lemma calm_end_game: "calm_res sv (end_game s sv)"
  unfolding end_game_def by (rule calm_rfor) (rule calm_disconnect)

lemma calm_event: "calm_res sv (timeout_event t sv)"
  by (simp add: timeout_event_def calm_stop_preparation calm_check_start_fields calm_start_game
    calm_end_turn calm_change_turn calm_end_game split: timeout_kind.split)

text \<open>One iteration of the loop over the handlers.\<close>

lemma timeouts_loop_step:
  assumes "sv_timeouts sv = a # as" "sv_handlers sv a = Some t" "th_process (fst passed) (snd passed) t = (fired, t1)"
    "sv1 = sv\<lparr>sv_timeouts := as, sv_handlers := (sv_handlers sv)(a := Some t1)\<rparr>"
  shows "timeouts_loop (Suc n) passed tmp sv = rbind (if fired then timeout_event t1 sv1 else Inr sv1) (\<lambda>sv2.
        case sv_handlers sv2 a of
          None \<Rightarrow> Inl UseAfterFree
        | Some t2 \<Rightarrow>
            (if \<not> th_elapsed t2 then timeouts_loop n passed (tmp @ [a]) sv2
             else timeouts_loop n passed tmp (sv2\<lparr>sv_handlers := (sv_handlers sv2)(a := None)\<rparr>)))"
  using assms by simp

lemma calm_timeouts_loop:
  "timeouts_loop n passed tmp sv = Inr (tmp', sv') \<Longrightarrow> calm sv sv'"
proof (induction n arbitrary: tmp sv)
  case (Suc n)
  show ?case
  proof (cases "sv_timeouts sv")
    case Nil
    then show ?thesis using Suc.prems by simp
  next
    case (Cons a as)
    then obtain t where t: "sv_handlers sv a = Some t" using Suc.prems by (auto split: option.splits)
    obtain fired t1 where p: "th_process (fst passed) (snd passed) t = (fired, t1)" by force
    define sv1 where "sv1 = sv\<lparr>sv_timeouts := as, sv_handlers := (sv_handlers sv)(a := Some t1)\<rparr>"
    have "calm_res sv1 (if fired then timeout_event t1 sv1 else Inr sv1)"
      by (simp add: calm_event calm_Inr)
    moreover obtain sv2 where sv2: "(if fired then timeout_event t1 sv1 else Inr sv1) = Inr sv2"
      "\<exists>tmp2 sv3. mail sv3 = mail sv2 \<and> timeouts_loop n passed tmp2 sv3 = Inr (tmp', sv')"
    proof -
      obtain sv2 where r: "(if fired then timeout_event t1 sv1 else Inr sv1) = Inr sv2"
        "(case sv_handlers sv2 a of None \<Rightarrow> Inl UseAfterFree
          | Some t2 \<Rightarrow> (if \<not> th_elapsed t2 then timeouts_loop n passed (tmp @ [a]) sv2
             else timeouts_loop n passed tmp (sv2\<lparr>sv_handlers := (sv_handlers sv2)(a := None)\<rparr>))) = Inr (tmp', sv')"
        using Suc.prems unfolding timeouts_loop_step [OF Cons t p sv1_def] rbind_Inr_iff by blast
      obtain t2 where "sv_handlers sv2 a = Some t2" using r(2) by (auto split: option.splits)
      then have "timeouts_loop n passed (tmp @ [a]) sv2 = Inr (tmp', sv')
          \<or> timeouts_loop n passed tmp (sv2\<lparr>sv_handlers := (sv_handlers sv2)(a := None)\<rparr>) = Inr (tmp', sv')"
        using r(2) by (simp split: if_splits)
      moreover have "mail (sv2\<lparr>sv_handlers := (sv_handlers sv2)(a := None)\<rparr>) = mail sv2" by simp
      ultimately show thesis using that [OF r(1)] by blast
    qed
    ultimately have "calm sv1 sv2" by (simp add: calm_res_def)
    moreover have "mail sv1 = mail sv" by (simp add: sv1_def)
    moreover obtain tmp2 sv3 where "mail sv3 = mail sv2" "timeouts_loop n passed tmp2 sv3 = Inr (tmp', sv')"
      using sv2(2) by auto
    ultimately show ?thesis using Suc.IH [of tmp2 sv3] by (auto simp: calm_def intro: map_le_trans)
  qed
qed simp

lemma calm_process_timeouts: "calm_res sv (process_timeouts n passed sv)"
proof -
  have "calm sv (sv'\<lparr>sv_timeouts := tmp\<rparr>)" if "timeouts_loop n passed [] sv = Inr (tmp, sv')" for tmp sv'
    using calm_timeouts_loop [OF that] by (simp add: calm_def)
  then show ?thesis
    by (cases "timeouts_loop n passed [] sv") (auto simp: process_timeouts_def calm_Inr calm_Inl)
qed

section \<open>Messages that are well formed\<close>

text \<open>Every message a client has sent and that still waits can be read.\<close>

definition mail_ok :: "Server \<Rightarrow> bool" where
  "mail_ok sv \<longleftrightarrow> (\<forall>c ms mb. mail sv c = Some (ms, mb) \<longrightarrow> (\<forall>m \<in> set ms \<union> set (mb_queue mb). wf_msg m))"

lemma calm_mail_ok: "mail_ok sv \<Longrightarrow> calm sv sv' \<Longrightarrow> mail_ok sv'"
  unfolding mail_ok_def calm_def map_le_def dom_def by (metis (mono_tags, lifting) mem_Collect_eq option.distinct(1))

lemma mail_ok_cong: "mail sv' = mail sv \<Longrightarrow> mail_ok sv' = mail_ok sv"
  by (simp add: mail_ok_def)

lemma calm_res_mail: "calm_res sv r \<Longrightarrow> mail_ok sv \<Longrightarrow> r = Inr sv' \<Longrightarrow> mail_ok sv'"
  using calm_mail_ok by (auto simp: calm_Inr)

end
