(* ===== verification/ServerSafe.thy ===== *)
theory ServerSafe
  imports ServerMail
begin

text \<open>
  The main loop keeps the invariant: joining a game, the handling of the messages of a client, and
  the actions on the descriptors. Faults of the message buffer and of the delivery control remain
  possible, a null pointer is never used.
\<close>

section \<open>What the messages of a client leave alone\<close>

text \<open>
  The view of a server: the session, the descriptor and the mail of every client, and the two arrays.
  The operations that only send keep it.
\<close>

definition view :: "Server \<Rightarrow> (nat \<Rightarrow> (nat option \<times> int) option) \<times> (nat \<Rightarrow> (Message list \<times> MsgBuffer) option)
    \<times> ClientArray \<times> ClientArray" where
  "view sv = (\<lambda>c. map_option (\<lambda>cl. (cd_session cl, cd_fd cl)) (sv_clients sv c), mail sv, sv_queue sv, sv_in_game sv)"

lemma view_simps [simp]:
  "view (mod_session s f sv) = view sv" "view (snd (add_timeout_handler t sv)) = view sv"
  "view (sv\<lparr>sv_handlers := h\<rparr>) = view sv" "view (sv\<lparr>sv_sessions := ss\<rparr>) = view sv"
  by (simp_all add: view_def mail_def add_timeout_handler_def)

lemma on_client_view:
  assumes "on_client p f sv = Inr sv'"
    and "\<And>cl. cd_session (f cl) = cd_session cl" "\<And>cl. cd_to_process (f cl) = cd_to_process cl"
    "\<And>cl. cd_buf (f cl) = cd_buf cl" "\<And>cl. cd_fd (f cl) = cd_fd cl"
  shows "view sv' = view sv"
proof -
  obtain c cl where "sv_clients sv c = Some cl" "sv' = sv\<lparr>sv_clients := (sv_clients sv)(c := Some (f cl))\<rparr>"
    using assms(1) by (auto simp: on_client_def split: option.splits)
  then show ?thesis using assms(2-5) by (auto simp: view_def mail_def)
qed

lemma send_view: "on_client p (send_msg m) sv = Inr sv' \<Longrightarrow> view sv' = view sv"
  by (erule on_client_view) simp_all

lemma send_to_view: "send_to s i m sv = Inr sv' \<Longrightarrow> view sv' = view sv"
  unfolding send_to_def rbind_Inr_iff using send_view by blast

lemma rfor_view:
  assumes "\<And>i sv sv'. f i sv = Inr sv' \<Longrightarrow> view sv' = view sv"
  shows "rfor is f sv = Inr sv' \<Longrightarrow> view sv' = view sv"
proof (induction "is" arbitrary: sv)
  case (Cons i "is")
  then obtain sv1 where "f i sv = Inr sv1" "rfor is f sv1 = Inr sv'" by (auto simp: rbind_Inr_iff)
  then show ?case using Cons.IH assms by metis
qed simp

lemma send_for_all_view: "send_for_all s m sv = Inr sv' \<Longrightarrow> view sv' = view sv"
  unfolding send_for_all_def Let_def
  by (erule rfor_view [rotated]) (simp split: if_splits add: send_view)

lemma start_preparation_view: "start_preparation s sv = Inr sv' \<Longrightarrow> view sv' = view sv"
  by (auto simp: start_preparation_def Let_def rbind_Inr_iff split: if_splits dest!: send_for_all_view)

lemma stop_handler_view: "stop_handler a sv = Inr sv' \<Longrightarrow> view sv' = view sv"
  by (auto simp: stop_handler_def split: option.splits)

lemma end_turn_view: "end_turn s sv = Inr sv' \<Longrightarrow> view sv' = view sv"
  by (auto simp: end_turn_def Let_def rbind_Inr_iff split: if_splits option.splits
    dest!: send_to_view stop_handler_view)

text \<open>
  An array in which at most the client \<open>c\<close> has lost its place.
\<close>

definition thins :: "nat \<Rightarrow> ClientArray \<Rightarrow> ClientArray \<Rightarrow> bool" where
  "thins c ca ca' \<longleftrightarrow> ca_size ca' = ca_size ca \<and> length (ca_clients ca') = length (ca_clients ca)
     \<and> (\<forall>i < length (ca_clients ca). ca_clients ca' ! i = ca_clients ca ! i
          \<or> ca_clients ca ! i = Some c \<and> ca_clients ca' ! i = None)"

lemma thins_refl [simp]: "thins c ca ca"
  by (simp add: thins_def)

lemma thins_trans: "thins c ca ca1 \<Longrightarrow> thins c ca1 ca2 \<Longrightarrow> thins c ca ca2"
  unfolding thins_def by (metis option.distinct(1))

lemma position_walk_at: "position_walk xs i c = Some j \<Longrightarrow> i \<le> j \<and> j < i + length xs \<and> xs ! (j - i) = Some c"
  by (induction xs i c rule: position_walk.induct) (fastforce split: if_splits simp: nth_Cons')+

lemma thins_remove [simp]: "thins c ca (ca_remove ca (Some c))"
  using position_walk_at [of "ca_clients ca" 0 c]
  by (auto simp: thins_def ca_remove_def nth_list_update split: option.splits)

text \<open>The invariant holds, the client is still there, and only it has left the queue.\<close>

definition served :: "nat \<Rightarrow> Server \<Rightarrow> Server \<Rightarrow> bool" where
  "served c sv sv' \<longleftrightarrow> server_inv sv' \<and> mail sv' = mail sv
     \<and> (\<exists>cl cl'. sv_clients sv c = Some cl \<and> sv_clients sv' c = Some cl'
          \<and> (cd_session cl \<noteq> None \<longrightarrow> cd_session cl' = cd_session cl \<and> sv_in_game sv' = sv_in_game sv))
     \<and> thins c (sv_queue sv) (sv_queue sv')"

lemma served_trans: "served c sv sv1 \<Longrightarrow> served c sv1 sv2 \<Longrightarrow> served c sv sv2"
  unfolding served_def using thins_trans by fastforce

lemma served_view:
  assumes "server_inv sv'" "view sv' = view sv" "sv_clients sv c \<noteq> None"
  shows "served c sv sv'"
proof -
  have "map_option (\<lambda>cl. (cd_session cl, cd_fd cl)) (sv_clients sv' c)
      = map_option (\<lambda>cl. (cd_session cl, cd_fd cl)) (sv_clients sv c)" "mail sv' = mail sv"
    "sv_queue sv' = sv_queue sv" "sv_in_game sv' = sv_in_game sv"
    using assms(2) by (auto simp: view_def dest: fun_cong [of _ _ c])
  then show ?thesis using assms(1,3) by (auto simp: served_def map_option_eq_Some)
qed

section \<open>Joining a game\<close>

text \<open>The client \<open>c\<close> has the session \<open>x\<close>.\<close>

definition has_session :: "Server \<Rightarrow> nat \<Rightarrow> nat option \<Rightarrow> bool" where
  "has_session sv c x \<longleftrightarrow> (\<exists>cl. sv_clients sv c = Some cl \<and> cd_session cl = x)"

lemma has_session_alive: "has_session sv c x \<Longrightarrow> sv_clients sv c \<noteq> None"
  by (auto simp: has_session_def)

lemma session_of_eq: "has_session sv c x \<Longrightarrow> session_of c sv = Inr x"
  by (auto simp: has_session_def session_of_def)

lemma has_session_valid:
  "core_inv X S sv \<Longrightarrow> has_session sv c (Some s) \<Longrightarrow> s < length (sv_sessions sv)"
  by (auto simp: core_inv_def links_ok_def has_session_def)

lemma set_player_ok:
  assumes "session_ok gs" "set_player (Some c) gs = (True, gs')"
  shows "session_ok gs'" "players_of gs' = insert c (players_of gs)" "gs_state gs' \<noteq> GAME_TURN"
    "gs_state gs' = WAIT_PLAYER \<or> gs_state gs' = WAIT_PREPARATION"
proof -
  obtain p q where pq: "gs_players gs = [p, q]" "p = q \<longrightarrow> p = None"
    using assms(1) by (auto simp: session_ok_def)
  have n: "\<not> (\<not> is_vacant gs \<or> has_player gs (Some c))"
    using assms(2) by (auto simp: set_player_def split: if_splits)
  then show "session_ok gs'" "players_of gs' = insert c (players_of gs)" "gs_state gs' \<noteq> GAME_TURN"
    "gs_state gs' = WAIT_PLAYER \<or> gs_state gs' = WAIT_PREPARATION"
    using assms pq
    by (auto simp: set_player_def Let_def is_vacant_def has_player_def session_ok_def state_ok_def
      players_of_def get_players_count_def split: if_splits)
qed

lemma core_inv_join:
  assumes "core_inv X S sv" "sv_clients sv c = Some cl" "cd_session cl = None" "s < length (sv_sessions sv)"
    "set_player (Some c) (sess sv s) = (True, gs)"
  shows "core_inv X S ((mod_session s (\<lambda>_. gs) sv)\<lparr>sv_clients := (sv_clients sv)(c := Some (cl\<lparr>cd_session := Some s\<rparr>))\<rparr>)"
    (is "core_inv X S ?sv")
proof -
  have ok: "sessions_ok sv" "links_ok sv" "arrays_wf sv" "handlers_ok X S sv"
    using assms(1) by (simp_all add: core_inv_def)
  note sp = set_player_ok [OF sessions_okD [OF ok(1) assms(4)] assms(5)]
  have "sessions_ok ?sv"
    using ok(1) sp(1) assms(4) by (auto simp: sessions_ok_def dest!: set_mod_session)
  moreover have "links_ok ?sv"
    unfolding links_ok_def
  proof (intro allI)
    fix d t
    have old: "(\<exists>cl. sv_clients sv d = Some cl \<and> cd_session cl = Some t)
        \<longleftrightarrow> t < length (sv_sessions sv) \<and> d \<in> players_of (sess sv t)"
      using ok(2) by (simp add: links_ok_def)
    show "(\<exists>cl. sv_clients ?sv d = Some cl \<and> cd_session cl = Some t)
        \<longleftrightarrow> t < length (sv_sessions ?sv) \<and> d \<in> players_of (sess ?sv t)"
    proof (cases "d = c")
      case True
      then have "c \<notin> players_of (sess sv t)" if "t < length (sv_sessions sv)"
        using old that assms(2,3) by auto
      then show ?thesis using True sp(2) assms(4) by auto
    next
      case False
      then show ?thesis using old sp(2) assms(4) by auto
    qed
  qed
  moreover have "handlers_ok X S ?sv"
    using ok(4) sp(3) assms(4) by (auto simp: handlers_ok_def turn_at_def)
  ultimately show ?thesis using ok(3) assms(2) by (auto simp: core_inv_def arrays_wf_def)
qed

text \<open>The state between joining a session and changing the array.\<close>

definition joined :: "nat \<Rightarrow> Server \<Rightarrow> bool" where
  "joined c sv \<longleftrightarrow> core_inv {} {} sv \<and> arrays_but c sv \<and> (\<exists>s. has_session sv c (Some s))
     \<and> c \<notin> ca_set (sv_in_game sv)"

lemma set_game_session_result:
  assumes "core_inv {} {} sv" "arrays_but c sv" "c \<notin> ca_set (sv_in_game sv)" "has_session sv c None"
    "s < length (sv_sessions sv)"
  shows "ok_with (\<lambda>(ok, sv'). if ok then joined c sv' \<and> has_session sv' c (Some s)
      \<and> length (sv_sessions sv') = length (sv_sessions sv) else sv' = sv)
    (set_game_session c (Some s) sv)"
proof -
  obtain cl where cl: "sv_clients sv c = Some cl" "cd_session cl = None"
    using assms(4) by (auto simp: has_session_def)
  obtain ok gs where sp: "set_player (Some c) (sess sv s) = (ok, gs)" by force
  show ?thesis
  proof (cases ok)
    case False
    then show ?thesis using cl sp by (simp add: set_game_session_def)
  next
    case True
    let ?sv = "(mod_session s (\<lambda>_. gs) sv)\<lparr>sv_clients := (sv_clients sv)(c := Some (cl\<lparr>cd_session := Some s\<rparr>))\<rparr>"
    have "core_inv {} {} ?sv" using core_inv_join [OF assms(1) cl assms(5)] sp True by simp
    moreover have "arrays_but c ?sv"
      using assms(2) by (simp add: arrays_but_def with_session_def without_session_def)
    moreover have "set_game_session c (Some s) sv = Inr (True, ?sv)"
      using cl sp True by (simp add: set_game_session_def on_client_def)
    ultimately show ?thesis
      using assms(3) by (simp add: joined_def has_session_def)
  qed
qed

lemma join_walk_result:
  assumes "core_inv {} {} sv" "arrays_but c sv" "c \<notin> ca_set (sv_in_game sv)" "has_session sv c None"
    "\<forall>s \<in> set ss. s < length (sv_sessions sv)"
  shows "ok_with (\<lambda>(ok, sv'). if ok then joined c sv' else sv' = sv) (join_walk c ss sv)"
  using assms
proof (induction ss)
  case (Cons s ss)
  from set_game_session_result [OF Cons.prems(1-4), of s] Cons.prems(5) obtain ok sv' where
    r: "set_game_session c (Some s) sv = Inr (ok, sv')" "if ok then joined c sv' else sv' = sv"
    by (auto dest!: ok_withD split: if_splits)
  show ?case
  proof (cases ok)
    case True
    then show ?thesis using r by simp
  next
    case False
    then have "ok_with (\<lambda>(ok, sv'). if ok then joined c sv' else sv' = sv) (join_walk c ss sv')"
      using Cons r by simp
    then show ?thesis using r False by simp
  qed
qed simp

lemma finite_with_session:
  assumes "core_inv X S sv"
  shows "finite (with_session sv) \<and> card (with_session sv) \<le> 2 * length (sv_sessions sv)"
proof -
  have p: "finite (players_of (sess sv s)) \<and> card (players_of (sess sv s)) \<le> 2" if sl: "s < length (sv_sessions sv)" for s
  proof -
    obtain p q where "gs_players (sess sv s) = [p, q]"
      using core_inv_session [OF assms sl] unfolding session_ok_def by blast
    then have "players_of (sess sv s) = set_option p \<union> set_option q"
      by (cases p; cases q) (auto simp: players_of_def)
    moreover have "card (set_option p \<union> set_option q) \<le> card (set_option p) + card (set_option q)"
      by (rule card_Un_le)
    moreover have "card (set_option p) \<le> 1" "card (set_option q) \<le> 1" by (cases p; cases q; simp)+
    ultimately show ?thesis by simp
  qed
  have sub: "with_session sv \<subseteq> (\<Union>s \<in> {..<length (sv_sessions sv)}. players_of (sess sv s))"
  proof
    fix c assume "c \<in> with_session sv"
    then obtain s where "has_session sv c (Some s)" by (auto simp: with_session_def has_session_def)
    then show "c \<in> (\<Union>s \<in> {..<length (sv_sessions sv)}. players_of (sess sv s))"
      using assms by (auto simp: core_inv_def links_ok_def has_session_def)
  qed
  have fin: "finite (\<Union>s \<in> {..<length (sv_sessions sv)}. players_of (sess sv s))" using p by auto
  have "card (with_session sv) \<le> card (\<Union>s \<in> {..<length (sv_sessions sv)}. players_of (sess sv s))"
    by (rule card_mono [OF fin sub])
  also have "\<dots> \<le> (\<Sum>s \<in> {..<length (sv_sessions sv)}. card (players_of (sess sv s)))"
    by (rule card_UN_le) simp
  also have "\<dots> \<le> (\<Sum>s \<in> {..<length (sv_sessions sv)}. 2)" using p by (intro sum_mono) auto
  finally show ?thesis using finite_subset [OF sub fin] by simp
qed

text \<open>There is always room for a client that has joined a session.\<close>

lemma joined_room:
  assumes "joined c sv"
  shows "\<not> is_full (sv_in_game sv)"
proof -
  have ci: "core_inv {} {} sv" using assms by (simp add: joined_def)
  have c: "c \<in> with_session sv" "c \<notin> ca_set (sv_in_game sv)"
    using assms by (auto simp: joined_def has_session_def with_session_def)
  have "ca_set (sv_in_game sv) = with_session sv - {c}"
    using assms c(2) by (auto simp: joined_def arrays_but_def)
  then have "card (ca_set (sv_in_game sv)) < card (with_session sv)"
    using c(1) finite_with_session [OF ci] by (metis card_Diff1_less)
  moreover have "length (sv_sessions sv) \<le> 5" "ca_wf (sv_in_game sv)" "ca_size (sv_in_game sv) = 10"
    using ci by (auto simp: core_inv_def arrays_wf_def)
  ultimately show ?thesis using finite_with_session [OF ci] full_card by fastforce
qed

lemma change_to_game:
  assumes "joined c sv"
  shows "ok_with (\<lambda>(ok, sv'). ok \<and> server_inv sv' \<and> sv_clients sv' = sv_clients sv) (change_client_queue c True sv)"
proof -
  have ci: "core_inv {} {} sv" and ab: "arrays_but c sv" and c: "c \<in> with_session sv" "c \<notin> ca_set (sv_in_game sv)"
    using assms by (auto simp: joined_def has_session_def with_session_def)
  then have wf: "ca_wf (sv_in_game sv)" "ca_wf (sv_queue sv)"
    "ca_size (sv_in_game sv) = 10" "ca_size (sv_queue sv) = 10"
    by (auto simp: core_inv_def arrays_wf_def)
  note add = ca_add_spec [OF wf(1) c(2)] and rem = ca_remove_spec [OF wf(2), of c]
  obtain ca where ca: "ca_add (sv_in_game sv) (Some c) = (True, ca)"
    using add(2) joined_room [OF assms] by (cases "ca_add (sv_in_game sv) (Some c)") auto
  let ?sv = "sv\<lparr>sv_in_game := ca, sv_queue := ca_remove (sv_queue sv) (Some c)\<rparr>"
  have "core_inv {} {} ?sv"
    using ci add rem ca wf by (simp add: core_inv_def sessions_ok_def links_ok_def arrays_wf_def handlers_ok_def turn_at_def)
  moreover have "arrays_ok ?sv"
  proof -
    have sets: "ca_set (sv_in_game ?sv) = insert c (ca_set (sv_in_game sv))"
      "ca_set (sv_queue ?sv) = ca_set (sv_queue sv) - {c}"
      using add(3) rem(2) ca joined_room [OF assms] by simp_all
    have ws: "with_session ?sv = with_session sv" "without_session ?sv = without_session sv"
      by (simp_all add: with_session_def without_session_def)
    have "c \<notin> without_session sv" using c(1) by (auto simp: with_session_def without_session_def)
    then show ?thesis
      unfolding arrays_ok_def sets ws using ab c(1) by (auto simp: arrays_but_def)
  qed
  ultimately show ?thesis
    using ca by (simp add: change_client_queue_def server_inv_def winv_def)
qed

lemma core_inv_new_session:
  assumes "core_inv {} {} sv" "length (sv_sessions sv) < 5"
  shows "core_inv {} {} (sv\<lparr>sv_sessions := sv_sessions sv @ [mk_session]\<rparr>)" (is "core_inv {} {} ?sv")
proof -
  have ok: "sessions_ok sv" "links_ok sv" "arrays_wf sv" "handlers_ok {} {} sv"
    using assms(1) by (simp_all add: core_inv_def)
  have "session_ok mk_session"
    by (simp add: mk_session_def session_ok_def state_ok_def get_players_count_def FIRST_PLAYER_def)
  then have "sessions_ok ?sv" using ok(1) by (auto simp: sessions_ok_def)
  moreover have "players_of mk_session = {}" by (simp add: players_of_def mk_session_def)
  then have "links_ok ?sv" using ok(2) by (auto simp: links_ok_def nth_append less_Suc_eq)
  moreover have "handlers_ok {} {} ?sv"
    using ok(4) by (auto simp: handlers_ok_def turn_at_def nth_append less_Suc_eq mk_session_def)
  moreover have "arrays_wf ?sv" using ok(3) assms(2) by (simp add: arrays_wf_def)
  ultimately show ?thesis by (simp add: core_inv_def)
qed

lemma connect_player_result:
  assumes "server_inv sv" "has_session sv c None"
  shows "ok_with (\<lambda>(ok, sv'). server_inv sv' \<and> (if ok then \<exists>s. has_session sv' c (Some s) else sv' = sv))
    (connect_player_to_game c sv)"
proof -
  have ci: "core_inv {} {} sv" and ab: "arrays_but c sv" and nc: "c \<notin> ca_set (sv_in_game sv)"
    using assms by (auto simp: server_inv_def winv_def arrays_ok_but arrays_ok_def with_session_def has_session_def)
  from join_walk_result [OF ci ab nc assms(2), of "[0..<length (sv_sessions sv)]"] obtain ok sv1 where
    j: "join_walk c [0..<length (sv_sessions sv)] sv = Inr (ok, sv1)" "if ok then joined c sv1 else sv1 = sv"
    by (auto dest!: ok_withD split: if_splits)
  have finish: "ok_with (\<lambda>(ok, sv'). server_inv sv' \<and> (if ok then \<exists>s. has_session sv' c (Some s) else sv' = sv))
      (change_client_queue c True sv2)" if "joined c sv2" for sv2
    using change_to_game [OF that] that by (auto elim!: ok_with_mono simp: joined_def has_session_def)
  show ?thesis
  proof (cases ok)
    case True
    then show ?thesis using j finish by (simp add: connect_player_to_game_def)
  next
    case False
    then have sv1: "sv1 = sv" using j(2) by simp
    show ?thesis
    proof (cases "length (sv_sessions sv) = 5")
      case True
      then show ?thesis using j(1) False sv1 assms by (simp add: connect_player_to_game_def GAME_COUNT_def)
    next
      case ne: False
      then have lt: "length (sv_sessions sv) < 5"
        using ci by (auto simp: core_inv_def arrays_wf_def)
      let ?s = "length (sv_sessions sv)"
      let ?sv2 = "sv\<lparr>sv_sessions := sv_sessions sv @ [mk_session]\<rparr>"
      have "set_player (Some c) mk_session = (True, mk_session\<lparr>gs_players := [Some c, None], gs_state := WAIT_PLAYER\<rparr>)"
        by (simp add: set_player_def mk_session_def is_vacant_def has_player_def)
      then have "\<exists>sv3. set_game_session c (Some ?s) ?sv2 = Inr (True, sv3)"
        using assms(2) by (auto simp: set_game_session_def has_session_def on_client_def)
      moreover have "ok_with (\<lambda>(ok, sv'). if ok then joined c sv' \<and> has_session sv' c (Some ?s)
          \<and> length (sv_sessions sv') = length (sv_sessions ?sv2) else sv' = ?sv2) (set_game_session c (Some ?s) ?sv2)"
        using ab nc assms(2) core_inv_new_session [OF ci lt]
        by (intro set_game_session_result)
          (auto simp: arrays_but_def with_session_def without_session_def has_session_def)
      ultimately obtain sv3 where "set_game_session c (Some ?s) ?sv2 = Inr (True, sv3)" "joined c sv3" by auto
      then show ?thesis
        using j(1) False sv1 ne finish by (simp add: connect_player_to_game_def GAME_COUNT_def)
    qed
  qed
qed

text \<open>Joining leaves the mail alone, and takes only the client from the queue.\<close>

lemma set_game_session_frame:
  assumes "set_game_session c x sv = Inr (ok, sv')"
  shows "sv_queue sv' = sv_queue sv \<and> mail sv' = mail sv"
proof -
  obtain cl where cl: "sv_clients sv c = Some cl"
    using assms by (auto simp: set_game_session_def split: option.splits)
  consider "sv' = sv" | s gs where "sv' = (mod_session s (\<lambda>_. gs) sv)\<lparr>sv_clients := (sv_clients sv)(c := Some (cl\<lparr>cd_session := Some s\<rparr>))\<rparr>"
    using assms cl unfolding set_game_session_def on_client_def Let_def
    by (cases x) (auto split: if_splits prod.splits)
  then show ?thesis using cl by cases (auto simp: mail_def)
qed

lemma join_walk_frame:
  "join_walk c ss sv = Inr (ok, sv') \<Longrightarrow> sv_queue sv' = sv_queue sv \<and> mail sv' = mail sv"
  by (induction ss arbitrary: sv)
    (auto simp: rbind_Inr_iff split: if_splits dest!: set_game_session_frame)

lemma change_to_game_frame:
  "change_client_queue c True sv = Inr (ok, sv') \<Longrightarrow> thins c (sv_queue sv) (sv_queue sv') \<and> mail sv' = mail sv"
  by (auto simp: change_client_queue_def mail_def split: prod.splits if_splits)

lemma connect_player_frame:
  assumes "connect_player_to_game c sv = Inr (ok, sv')"
  shows "thins c (sv_queue sv) (sv_queue sv')" "mail sv' = mail sv"
proof -
  have f: "sv_queue (sv\<lparr>sv_sessions := ss\<rparr>) = sv_queue sv" "mail (sv\<lparr>sv_sessions := ss\<rparr>) = mail sv" for sv ss
    by (simp_all add: mail_def)
  show "thins c (sv_queue sv) (sv_queue sv')" "mail sv' = mail sv"
    using assms
    by (auto simp: connect_player_to_game_def rbind_Inr_iff Let_def f split: if_splits
      dest!: join_walk_frame set_game_session_frame change_to_game_frame)
qed

lemma connect_player_served:
  assumes "server_inv sv" "has_session sv c None"
  shows "ok_with (\<lambda>(ok, sv'). served c sv sv' \<and> (ok \<longrightarrow> (\<exists>s. has_session sv' c (Some s))))
    (connect_player_to_game c sv)"
proof -
  from connect_player_result [OF assms] obtain ok sv' where
    r: "connect_player_to_game c sv = Inr (ok, sv')" "server_inv sv'"
      "if ok then \<exists>s. has_session sv' c (Some s) else sv' = sv"
    by (auto dest!: ok_withD)
  have m: "mail sv' = mail sv" by (rule connect_player_frame(2) [OF r(1)])
  obtain cl cl' where "sv_clients sv c = Some cl" "cd_session cl = None" "sv_clients sv' c = Some cl'"
    using assms(2) fun_cong [OF m, of c] by (auto simp: has_session_def mail_def map_option_eq_Some)
  then have "served c sv sv'"
    using r(2) m connect_player_frame(1) [OF r(1)] by (simp add: served_def)
  then show ?thesis using r by (simp split: if_splits)
qed

end
