(* ===== verification/ClientFaults.thy ===== *)
theory ClientFaults
  imports ClientData
begin

text \<open>
  The faults of the operations on the messages of one client: the message buffer and the delivery
  control may read freed or foreign memory, but they never use a null pointer and never loop. Both
  the server and the client process rest on these lemmas.
\<close>

section \<open>Soft faults\<close>

definition soft :: "'a res \<Rightarrow> bool" where
  "soft r \<longleftrightarrow> r \<noteq> Inl NullDeref \<and> r \<noteq> Inl Diverges \<and> r \<noteq> Inl OutOfFuel"

lemma soft_simps [simp]:
  "soft (Inr x)" "soft (Inl UseAfterFree)" "soft (Inl OutOfBounds)" "soft (Inl Uninitialised)"
  "\<not> soft (Inl NullDeref)" "\<not> soft (Inl Diverges)" "\<not> soft (Inl OutOfFuel)"
  by (simp_all add: soft_def)

lemma soft_rbind: "soft r \<Longrightarrow> (\<And>x. r = Inr x \<Longrightarrow> soft (f x)) \<Longrightarrow> soft (rbind r f)"
  by (cases r) (auto simp: soft_def)

lemma soft_find_id: "soft (find_id_walk h its i mid)"
  by (induction its arbitrary: i) (auto split: option.splits)

lemma soft_remove: "soft (remove_msg i h dc)"
  by (simp add: remove_msg_def Let_def split: option.splits)

lemma soft_receipt: "soft (process_receipt_msg mid cl)"
  by (auto simp: process_receipt_msg_def process_check_def dc_remove_id_def dc_find_id_def
    intro!: soft_rbind soft_find_id soft_remove split: option.splits)

lemma soft_exhausted: "soft (rm_exhausted_walk n i h dc)"
  by (induction n arbitrary: i) (auto intro!: soft_rbind soft_remove)

lemma soft_write_loop: "soft (write_loop now wr k q n cl)"
proof (induction q arbitrary: k n cl)
  case (Cons a q)
  then show ?case by (auto simp: Let_def split: option.split prod.split intro!: soft_rbind)
qed simp

lemma soft_write: "soft (write_msg now wr n cl)"
  by (auto simp: write_msg_def resend_def rm_all_exhausted_def Let_def
    intro!: soft_rbind soft_write_loop soft_exhausted)

text \<open>The faults that the message buffer cannot have.\<close>

definition hard :: "fault \<Rightarrow> bool" where
  "hard e \<longleftrightarrow> e = NullDeref \<or> e = OutOfFuel"

lemma hard_simps [simp]:
  "hard NullDeref" "hard OutOfFuel" "\<not> hard UseAfterFree" "\<not> hard OutOfBounds" "\<not> hard Uninitialised" "\<not> hard Diverges"
  by (simp_all add: hard_def)

lemma hardD [dest]: "hard e \<Longrightarrow> e \<noteq> UseAfterFree \<and> e \<noteq> OutOfBounds \<and> e \<noteq> Uninitialised \<and> e \<noteq> Diverges"
  by (auto simp: hard_def)

lemma read_bytes_not_hard [simp]: "hard e \<Longrightarrow> read_bytes arr off n \<noteq> Inl e"
  by (auto simp: read_bytes_def Let_def)

lemma to_start_walk_not_hard: "hard e \<Longrightarrow> to_start_walk n b \<noteq> Inl e"
  by (induction n arbitrary: b) (auto simp: Let_def)

lemma move_not_hard: "hard e \<Longrightarrow> move_msg_to_start mb \<noteq> Inl e"
  by (simp add: move_msg_to_start_def rbind_Inl_iff to_start_walk_not_hard del: to_start_walk.simps)

lemma new_reading_loop_not_hard: "hard e \<Longrightarrow> new_reading_loop n mb \<noteq> Inl e"
  by (induction n arbitrary: mb) (auto simp: Let_def rbind_Inl_iff move_not_hard)

lemma new_reading_array:
  "new_reading mb = Inr (w, mb') \<Longrightarrow> w \<noteq> 0 \<Longrightarrow> mb_to_extract mb' \<noteq> None"
  by (auto simp: new_reading_def rbind_Inr_iff simp del: new_reading_loop.simps split: if_splits)

lemma finishing_reading_not_hard: "hard e \<Longrightarrow> finishing_reading arr mb \<noteq> Inl e"
  by (auto simp: finishing_reading_def type_of_array_def object_get_size_def Let_def rbind_Inl_iff move_not_hard)

lemma finishing_reading_array:
  "finishing_reading arr mb = Inr (w, mb') \<Longrightarrow> mb_to_extract mb = Some arr \<Longrightarrow> w \<noteq> 0 \<Longrightarrow> mb_to_extract mb' \<noteq> None"
  by (auto simp: finishing_reading_def Let_def rbind_Inr_iff split: if_splits)

lemma take_over_not_hard: "mb_to_extract mb \<noteq> None \<Longrightarrow> hard e \<Longrightarrow> take_over w mb \<noteq> Inl e"
  by (auto simp: take_over_def split: if_splits)

lemma create_from_array_not_hard: "hard e \<Longrightarrow> create_from_array mb \<noteq> Inl e"
  by (auto simp: create_from_array_def rbind_Inl_iff split: option.splits)

lemma gain_loop_not_hard: "hard e \<Longrightarrow> gain_loop n mb \<noteq> Inl e"
proof (induction n arbitrary: mb)
  case (Suc n)
  let ?r = "case mb_to_extract mb of None \<Rightarrow> new_reading mb | Some arr \<Rightarrow> finishing_reading arr mb"
  have r: "?r \<noteq> Inl e"
    using Suc.prems by (auto simp: new_reading_def rbind_Inl_iff new_reading_loop_not_hard finishing_reading_not_hard
      simp del: new_reading_loop.simps split: option.splits)
  have "mb_to_extract mb1 \<noteq> None" if "?r = Inr (w, mb1)" "w \<noteq> 0" for w mb1
    using that new_reading_array [of mb] finishing_reading_array [of _ mb] by (auto split: option.splits)
  then show ?case
    using r Suc.IH Suc.prems by (auto simp: rbind_Inl_iff take_over_not_hard create_from_array_not_hard split: option.splits)
qed auto

lemma soft_read_msg: "soft (read_msg fd rd mb)"
proof -
  have "hard e \<Longrightarrow> gain_msg mb \<noteq> Inl e" for e mb
    by (auto simp: gain_msg_def Let_def rbind_Inl_iff gain_loop_not_hard move_not_hard simp del: gain_loop.simps)
  then have "soft (gain_msg mb)" for mb
    using gain_msg_result [of mb] hard_simps(1,2) unfolding soft_def by blast
  then show ?thesis
    by (auto simp: read_msg_def Let_def intro!: soft_rbind split: option.splits list.splits)
qed

lemma soft_read: "soft (client_read rd cl)"
  by (auto simp: client_read_def Let_def intro!: soft_rbind soft_read_msg)

definition soft_faults :: "fault set" where
  "soft_faults = {UseAfterFree, OutOfBounds, Uninitialised}"

lemma soft_cases: "soft (Inl e) \<longleftrightarrow> e \<in> soft_faults"
  by (cases e) (simp_all add: soft_faults_def)

section \<open>Reading and writing\<close>

lemma write_loop_buf:
  "write_loop now wr k q n cl = Inr (out, n', cl') \<Longrightarrow> cd_to_process cl' = cd_to_process cl \<and> cd_buf cl' = cd_buf cl"
proof (induction now wr k q n cl arbitrary: out n' cl' rule: write_loop.induct)
  case (2 now wr k a q msg_num cl)
  from "2.prems" obtain m where m: "cd_heap cl a = Some m" by (auto split: option.splits)
  show ?case
    using "2.prems" m
    by (auto simp: Let_def rbind_Inr_iff split: prod.splits if_splits dest!: "2.IH" [rotated -1])
qed auto

lemma read_queue:
  assumes "read_msg fd rd mb = Inr (e, mb')"
  shows "\<exists>ms. mb_queue mb' = mb_queue mb @ ms \<and> (\<forall>m \<in> set ms. wf_msg m)"
proof -
  consider "mb' = mb" | bs e' where "gain_msg (mb\<lparr>mb_buf := mb_buf mb @ bs\<rparr>) = Inr (e', mb')"
    using assms by (auto simp: read_msg_def Let_def rbind_Inr_iff split: if_splits option.splits list.splits)
  then show ?thesis
    by cases (use gain_msg_result in \<open>fastforce simp: gained_def\<close>)+
qed

end
