(* ===== verification/ServerLoop.thy ===== *)
theory ServerLoop
  imports ServerSafe ClientFaults
begin

text \<open>
  The main loop keeps the invariant: the handling of the messages of a client, reading, writing, and
  the actions on the descriptors. Faults of the message buffer and of the delivery control remain
  possible, a null pointer is never used, and the loops over the clients end.
\<close>

section \<open>The messages of a client\<close>

lemma server_inv_winv: "server_inv sv \<longleftrightarrow> winv {} {} sv"
  by (simp add: server_inv_def)

lemma on_client_inv:
  assumes "server_inv sv" "sv_clients sv c \<noteq> None"
    "\<And>cl. cd_session (f cl) = cd_session cl" "\<And>cl. cd_fd (f cl) = cd_fd cl"
  shows "ok_with server_inv (on_client (Some c) f sv)"
  using on_client_same [of sv c f, OF assms(2-4)] assms(1)
  by (auto elim!: ok_with_mono simp: server_inv_winv same_inv)

text \<open>A message to the client.\<close>

lemma reply_served:
  assumes "server_inv sv" "sv_clients sv c \<noteq> None"
  shows "ok_with (served c sv) (on_client (Some c) (send_msg m) sv)"
proof -
  obtain sv' where "on_client (Some c) (send_msg m) sv = Inr sv'" "server_inv sv'"
    using ok_withD [OF on_client_inv [OF assms, of "send_msg m"]] by auto
  then show ?thesis using served_view [OF _ send_view assms(2)] by simp
qed

lemma served_alive: "served c sv sv' \<Longrightarrow> sv_clients sv' c \<noteq> None"
  by (auto simp: served_def)

lemma served_inv: "served c sv sv' \<Longrightarrow> server_inv sv'"
  by (simp add: served_def)

lemma served_refl: "server_inv sv \<Longrightarrow> sv_clients sv c \<noteq> None \<Longrightarrow> served c sv sv"
  by (auto simp: served_def)

lemma served_bind:
  assumes "res_with E (served c sv) r"
    "\<And>sv1. server_inv sv1 \<Longrightarrow> sv_clients sv1 c \<noteq> None \<Longrightarrow> res_with E (served c sv1) (f sv1)"
  shows "res_with E (served c sv) (rbind r f)"
proof (rule res_with_rbind [OF assms(1)])
  fix sv1 assume s: "served c sv sv1"
  from assms(2) [OF served_inv [OF s] served_alive [OF s]]
  show "res_with E (served c sv) (f sv1)"
    by (rule res_with_mono) (auto intro: served_trans [OF s])
qed

lemma keeps_served:
  assumes "res_with E (keeps {} {} sv) r" "\<And>sv'. r = Inr sv' \<Longrightarrow> view sv' = view sv" "sv_clients sv c \<noteq> None"
  shows "res_with E (served c sv) r"
  using assms by (cases r) (auto simp: keeps_def server_inv_winv intro!: served_view)

lemma reply_res: "server_inv sv \<Longrightarrow> sv_clients sv c \<noteq> None \<Longrightarrow>
    res_with E (served c sv) (on_client (Some c) (send_msg m) sv)"
  using reply_served by (blast intro: res_with_ok)

lemma session_valid:
  "server_inv sv \<Longrightarrow> has_session sv c (Some s) \<Longrightarrow> s < length (sv_sessions sv)"
  by (auto simp: server_inv_winv winv_def intro: has_session_valid)

lemma client_session:
  assumes "sv_clients sv c \<noteq> None"
  obtains x where "session_of c sv = Inr x" "has_session sv c x"
  using assms by (auto simp: session_of_def has_session_def)

lemma start_preparation_served:
  assumes "server_inv sv" "has_session sv c (Some s)"
  shows "res_with E (served c sv) (start_preparation s sv)"
  using start_preparation_keeps [of "{}" sv s E] assms session_valid [OF assms]
  by (intro keeps_served) (auto simp: server_inv_winv start_preparation_view dest: has_session_alive)

lemma game_session_req_served:
  assumes "server_inv sv" "sv_clients sv c \<noteq> None"
  shows "res_with E (served c sv) (process_game_session_req_msg c sv)"
proof -
  define next1 where "next1 = (\<lambda>(result, sv2).
          if result = WAIT_PREPARATION then
            rbind (session_of c sv2) (\<lambda>gs'.
              case gs' of None \<Rightarrow> Inl NullDeref | Some s \<Rightarrow> start_preparation s sv2)
          else send c (GameStateMsg (GameState_code result)) sv2)"
  have n: "res_with E (served c sv) (next1 (result, sv2))"
    if sd: "served c sv sv2" and w: "result = WAIT_PREPARATION \<longrightarrow> (\<exists>s. has_session sv2 c (Some s))" for result sv2
  proof -
    have i: "server_inv sv2" "sv_clients sv2 c \<noteq> None" using served_inv served_alive sd by blast+
    have "res_with E (served c sv2) (next1 (result, sv2))"
    proof (cases "result = WAIT_PREPARATION")
      case True
      then obtain s where s: "has_session sv2 c (Some s)" using w by auto
      show ?thesis using True session_of_eq [OF s] start_preparation_served [OF i(1) s] by (simp add: next1_def)
    next
      case False
      then show ?thesis using reply_res [OF i] by (simp add: next1_def send_def)
    qed
    then show ?thesis by (rule res_with_mono) (auto intro: served_trans [OF sd])
  qed
  obtain x where x: "session_of c sv = Inr x" "has_session sv c x" by (rule client_session [OF assms(2)])
  show ?thesis
  proof (cases x)
    case (Some s)
    have "res_with E (served c sv) (next1 (gs_state (sess sv s), sv))"
      using n [OF served_refl [OF assms]] x Some by blast
    then show ?thesis using x Some by (simp add: process_game_session_req_msg_def next1_def)
  next
    case None
    obtain ok sv1 where r: "connect_player_to_game c sv = Inr (ok, sv1)" "served c sv sv1"
      "ok \<longrightarrow> (\<exists>s. has_session sv1 c (Some s))"
      using ok_withD [OF connect_player_served [OF assms(1) x(2) [unfolded None]]] by auto
    show ?thesis
    proof (cases ok)
      case True
      then obtain s where s: "has_session sv1 c (Some s)" using r(3) by auto
      have "res_with E (served c sv) (next1 (gs_state (sess sv1 s), sv1))" using n [OF r(2)] s by blast
      then show ?thesis
        using x None r(1) True session_of_eq [OF s] by (simp add: process_game_session_req_msg_def next1_def)
    next
      case False
      have "res_with E (served c sv) (next1 (NO_VACANT_GAME, sv1))" using n [OF r(2)] by simp
      then show ?thesis
        using x None r(1) False by (simp add: process_game_session_req_msg_def next1_def)
    qed
  qed
qed


lemma mod_session_inv:
  assumes "server_inv sv" "s < length (sv_sessions sv)" "session_ok gs" "gs_players gs = gs_players (sess sv s)"
    "gs_state gs = gs_state (sess sv s)" "gs_turn_timeout gs = gs_turn_timeout (sess sv s)"
  shows "server_inv (mod_session s (\<lambda>_. gs) sv)"
proof -
  have "turn_at {} sv s (sess sv s)"
    using assms(1,2) by (simp add: server_inv_winv winv_def core_inv_def handlers_ok_def)
  then have "turn_at {} sv s gs" using assms(5,6) by (simp add: turn_at_def)
  then show ?thesis
    using assms inv_mod [of "{}" "{}" sv s "\<lambda>_. gs" "{}"] by (simp add: server_inv_winv)
qed

lemma set_field_result:
  assumes "session_ok gs" "wf_field f" "set_field p f gs = (True, gs')"
  shows "session_ok gs'" "gs_players gs' = gs_players gs" "gs_state gs' = gs_state gs"
    "gs_turn_timeout gs' = gs_turn_timeout gs"
proof -
  obtain i where i: "gs' = gs\<lparr>gs_fields := (gs_fields gs)[i := f]\<rparr>"
    using assms(3) by (auto simp: set_field_def Let_def split: if_splits)
  obtain g h where "gs_fields gs = [g, h]" "wf_field g" "wf_field h"
    using assms(1) by (auto simp: session_ok_def)
  then have "\<exists>g h. gs_fields gs' = [g, h] \<and> wf_field g \<and> wf_field h"
    using assms(2) i by (cases i; cases "i - 1") (auto split: nat.splits)
  then show "session_ok gs'"
    using assms(1) i by (auto simp: session_ok_def state_ok_def get_players_count_def)
  show "gs_players gs' = gs_players gs" "gs_state gs' = gs_state gs" "gs_turn_timeout gs' = gs_turn_timeout gs"
    by (simp_all add: i)
qed

lemma served_mod:
  assumes "server_inv (mod_session s f sv)" "sv_clients sv c \<noteq> None"
    "res_with E (served c (mod_session s f sv)) r"
  shows "res_with E (served c sv) r"
  using assms(3)
  by (rule res_with_mono) (auto intro: served_trans [OF served_view [OF assms(1) view_simps(1) assms(2)]])

lemma game_field_served:
  assumes "server_inv sv" "sv_clients sv c \<noteq> None" "wf_field f"
  shows "res_with E (served c sv) (process_game_field_msg c mid f sv)"
proof -
  obtain x where x: "session_of c sv = Inr x" "has_session sv c x" by (rule client_session [OF assms(2)])
  note err = reply_res [OF assms(1,2), of E]
  show ?thesis
  proof (cases x)
    case None
    then show ?thesis using x err by (simp add: process_game_field_msg_def send_error_def)
  next
    case (Some s)
    have sl: "s < length (sv_sessions sv)" using session_valid [OF assms(1)] x(2) Some by simp
    obtain ok gs where sf: "set_field (Some c) f (sess sv s) = (ok, gs)" by force
    show ?thesis
    proof (cases "is_valid_start_field f \<and> ok")
      case True
      have so: "session_ok (sess sv s)" using assms(1) sl by (simp add: server_inv_winv inv_session)
      have g: "set_field (Some c) f (sess sv s) = (True, gs)" using sf True by simp
      note st = set_field_result [OF so assms(3) g]
      have inv1: "server_inv (mod_session s (\<lambda>_. gs) sv)" by (rule mod_session_inv [OF assms(1) sl st])
      have "res_with E (served c (mod_session s (\<lambda>_. gs) sv))
          (on_client (Some c) (send_receipt mid) (mod_session s (\<lambda>_. gs) sv))"
        using reply_res [OF inv1, of c E] assms(2) by (simp add: send_receipt_def [abs_def])
      then have "res_with E (served c sv) (on_client (Some c) (send_receipt mid) (mod_session s (\<lambda>_. gs) sv))"
        by (rule served_mod [OF inv1 assms(2)])
      then show ?thesis using x Some g True by (simp add: process_game_field_msg_def)
    next
      case False
      then show ?thesis using x Some sf err by (auto simp: process_game_field_msg_def send_error_def)
    qed
  qed
qed

lemma game_move_served:
  assumes "server_inv sv" "sv_clients sv c \<noteq> None"
  shows "res_with E (served c sv) (process_game_move_msg c p sv)"
proof -
  obtain x where x: "session_of c sv = Inr x" "has_session sv c x" by (rule client_session [OF assms(2)])
  show ?thesis
  proof (cases x)
    case None
    then show ?thesis
      using x reply_res [OF assms, of E] by (simp add: process_game_move_msg_def send_error_def)
  next
    case (Some s)
    have sl: "s < length (sv_sessions sv)" using session_valid [OF assms(1)] x(2) Some by simp
    have so: "session_ok (sess sv s)" using assms(1) sl by (simp add: server_inv_winv inv_session)
    obtain ok gs where sf: "set_last_shot p (Some c) (sess sv s) = (ok, gs)" by force
    have keep: "res_with E (served c sv) (Inr sv)" using served_refl [OF assms] by simp
    show ?thesis
    proof (cases ok)
      case True
      then have gs: "gs = (sess sv s)\<lparr>gs_last_shot := p\<rparr>"
        using sf by (auto simp: set_last_shot_def Let_def split: if_splits)
      have "session_ok gs" using so by (simp add: gs session_ok_def state_ok_def get_players_count_def)
      then have inv1: "server_inv (mod_session s (\<lambda>_. gs) sv)"
        using mod_session_inv [OF assms(1) sl] by (simp add: gs)
      then have w: "winv {} {} (mod_session s (\<lambda>_. gs) sv)" by (simp add: server_inv_winv)
      have k: "res_with E (keeps {} {} (mod_session s (\<lambda>_. gs) sv)) (end_turn s (mod_session s (\<lambda>_. gs) sv))"
        by (rule res_with_mono [OF end_turn_keeps [OF w] order_refl]) (use sl in simp_all)
      have "res_with E (served c (mod_session s (\<lambda>_. gs) sv)) (end_turn s (mod_session s (\<lambda>_. gs) sv))"
        by (rule keeps_served [OF k end_turn_view]) (use assms(2) in simp_all)
      then have "res_with E (served c sv) (end_turn s (mod_session s (\<lambda>_. gs) sv))"
        by (rule served_mod [OF inv1 assms(2)])
      then show ?thesis using x Some sf True keep by (simp add: process_game_move_msg_def Let_def)
    next
      case False
      then show ?thesis using x Some sf keep by (simp add: process_game_move_msg_def Let_def)
    qed
  qed
qed

lemma receipt_served:
  assumes "server_inv sv" "sv_clients sv c \<noteq> None"
  shows "res_with {UseAfterFree, OutOfBounds, Uninitialised} (served c sv) (process_receipt c mid sv)"
proof -
  obtain cl where cl: "sv_clients sv c = Some cl" using assms(2) by auto
  show ?thesis
  proof (cases "process_receipt_msg mid cl")
    case (Inl e)
    then have "e \<noteq> NullDeref" "e \<noteq> Diverges" "e \<noteq> OutOfFuel" using soft_receipt [of mid cl] by (auto simp: soft_def)
    then show ?thesis using Inl cl by (cases e) (simp_all add: process_receipt_def)
  next
    case (Inr cl')
    note f = process_receipt_frame [OF Inr]
    have b: "cd_buf cl' = cd_buf cl"
      using Inr by (auto simp: process_receipt_msg_def rbind_Inr_iff split: prod.splits)
    let ?sv = "sv\<lparr>sv_clients := (sv_clients sv)(c := Some cl')\<rparr>"
    have "on_client (Some c) (\<lambda>_. cl') sv = Inr ?sv" using cl by (simp add: on_client_def)
    then have "same_but_msgs sv ?sv"
      using cl f unfolding same_but_msgs_def
      by (intro exI [of _ "(sv_clients sv)(c := Some cl')"] exI [of _ "sv_msg_num sv"]) auto
    then have "server_inv ?sv" using assms(1) by (simp add: server_inv_winv same_inv)
    moreover have "view ?sv = view sv" using cl f b by (auto simp: view_def mail_def)
    ultimately have "served c sv ?sv" using assms(2) by (rule served_view)
    then show ?thesis using Inr cl by (simp add: process_receipt_def)
  qed
qed

end
