(* ===== verification/ServerRun.thy ===== *)
theory ServerRun
  imports ServerLoop
begin

text \<open>
  One iteration of the main loop: what was read from the clients is served, the walks over the two
  arrays meet every client and end, and the invariant holds again.
\<close>

section \<open>Serving a client\<close>

definition server_ok :: "Server \<Rightarrow> bool" where
  "server_ok sv \<longleftrightarrow> server_inv sv \<and> mail_ok sv"

definition attended :: "nat \<Rightarrow> Server \<Rightarrow> Server \<Rightarrow> bool" where
  "attended c sv sv' \<longleftrightarrow> server_ok sv'
     \<and> (\<exists>cl cl'. sv_clients sv c = Some cl \<and> sv_clients sv' c = Some cl'
          \<and> (cd_session cl \<noteq> None \<longrightarrow> cd_session cl' = cd_session cl \<and> sv_in_game sv' = sv_in_game sv))
     \<and> thins c (sv_queue sv) (sv_queue sv')"

lemma attended_trans:
  assumes "attended c sv sv1" "attended c sv1 sv2"
  shows "attended c sv sv2"
proof -
  from assms(1) obtain cl cl1 where c1: "sv_clients sv c = Some cl" "sv_clients sv1 c = Some cl1"
    "cd_session cl \<noteq> None \<longrightarrow> cd_session cl1 = cd_session cl \<and> sv_in_game sv1 = sv_in_game sv"
    unfolding attended_def by blast
  from assms(2) obtain cl1' cl2 where c2: "sv_clients sv1 c = Some cl1'" "sv_clients sv2 c = Some cl2"
    "cd_session cl1' \<noteq> None \<longrightarrow> cd_session cl2 = cd_session cl1' \<and> sv_in_game sv2 = sv_in_game sv1"
    unfolding attended_def by blast
  have "cl1' = cl1" using c1(2) c2(1) by simp
  then have "cd_session cl \<noteq> None \<longrightarrow> cd_session cl2 = cd_session cl \<and> sv_in_game sv2 = sv_in_game sv"
  proof (intro impI)
    assume "cd_session cl \<noteq> None"
    moreover from this have "cd_session cl1 = cd_session cl" "sv_in_game sv1 = sv_in_game sv" using c1(3) by blast+
    ultimately show "cd_session cl2 = cd_session cl \<and> sv_in_game sv2 = sv_in_game sv"
      using c2(3) \<open>cl1' = cl1\<close> by simp
  qed
  moreover have "server_ok sv2" "thins c (sv_queue sv) (sv_queue sv2)"
    using assms thins_trans [of c "sv_queue sv" "sv_queue sv1" "sv_queue sv2"] unfolding attended_def by blast+
  ultimately show ?thesis
    unfolding attended_def using c1(1) c2(2) by blast
qed

lemma served_attended: "server_ok sv \<Longrightarrow> served c sv sv' \<Longrightarrow> attended c sv sv'"
  unfolding attended_def served_def server_ok_def using mail_ok_cong [of sv' sv] by blast

lemma attended_refl: "server_ok sv \<Longrightarrow> sv_clients sv c \<noteq> None \<Longrightarrow> attended c sv sv"
  by (auto simp: attended_def)

lemma attended_ok: "attended c sv sv' \<Longrightarrow> server_ok sv' \<and> sv_clients sv' c \<noteq> None"
  by (auto simp: attended_def)

text \<open>A change of the client's own data.\<close>

definition put_client :: "nat \<Rightarrow> ClientData \<Rightarrow> Server \<Rightarrow> Server" where
  "put_client c cl sv = sv\<lparr>sv_clients := (sv_clients sv)(c := Some cl)\<rparr>"

definition client_mail_ok :: "ClientData \<Rightarrow> bool" where
  "client_mail_ok cl \<longleftrightarrow> (\<forall>m \<in> set (cd_to_process cl) \<union> set (mb_queue (cd_buf cl)). wf_msg m)"

lemma mail_ok_client: "mail_ok sv \<Longrightarrow> sv_clients sv c = Some cl \<Longrightarrow> client_mail_ok cl"
  by (auto simp: mail_ok_def mail_def client_mail_ok_def)

lemma put_client_attended:
  assumes "server_ok sv" "sv_clients sv c = Some cl" "cd_session cl' = cd_session cl" "cd_fd cl' = cd_fd cl"
    "client_mail_ok cl'"
  shows "attended c sv (put_client c cl' sv)"
proof -
  have "same_but_msgs sv (put_client c cl' sv)"
    using assms(2-4) unfolding same_but_msgs_def put_client_def
    by (intro exI [of _ "(sv_clients sv)(c := Some cl')"] exI [of _ "sv_msg_num sv"]) auto
  then have "server_inv (put_client c cl' sv)"
    using assms(1) by (simp add: server_ok_def server_inv_winv same_inv)
  moreover have "mail_ok (put_client c cl' sv)"
    using assms(1,5) by (auto simp: server_ok_def mail_ok_def mail_def put_client_def client_mail_ok_def)
  ultimately show ?thesis
    using assms(2,3) by (simp add: attended_def server_ok_def put_client_def)
qed

lemma attended_bind:
  assumes "res_with E (attended c sv) r"
    "\<And>sv1. attended c sv sv1 \<Longrightarrow> r = Inr sv1 \<Longrightarrow> res_with E (attended c sv1) (f sv1)"
  shows "res_with E (attended c sv) (rbind r f)"
proof (cases r)
  case (Inr sv1)
  then have s: "attended c sv sv1" using assms(1) by simp
  have "res_with E (attended c sv) (f sv1)"
    by (rule res_with_mono [OF assms(2) [OF s Inr]]) (auto intro: attended_trans [OF s])
  then show ?thesis using Inr by simp
qed (use assms(1) in simp)

lemma process_one_served:
  assumes "server_inv sv" "sv_clients sv c \<noteq> None" "wf_msg m"
  shows "res_with soft_faults (served c sv) (process_one c m sv)"
proof -
  have p: "res_with soft_faults (served c sv) (process_receipt c mid sv)" for mid
    using receipt_served [OF assms(1,2)] by (simp add: soft_faults_def)
  have wf: "msg_body m = GameFieldMsg f own \<Longrightarrow> wf_field f" for f own
    using assms(3) by (simp add: wf_msg_def)
  have "res_with soft_faults (served c sv) (case msg_body m of
              GameSessionReqMsg \<Rightarrow> process_game_session_req_msg c sv
            | GameFieldMsg field _ \<Rightarrow> process_game_field_msg c (msg_id m) field sv
            | GameMoveMsg point \<Rightarrow> process_game_move_msg c point sv
            | ReceiptMsg mid \<Rightarrow> process_receipt c mid sv
            | _ \<Rightarrow> Inr sv)"
    using p wf served_refl [OF assms(1,2)] game_session_req_served [OF assms(1,2)]
      game_field_served [OF assms(1,2)] game_move_served [OF assms(1,2)]
    by (cases "msg_body m") auto
  then show ?thesis
    unfolding process_one_def
  proof (rule served_bind)
    fix sv1 assume "server_inv sv1" "sv_clients sv1 c \<noteq> None"
    then show "res_with soft_faults (served c sv1)
        (if msg_type m \<noteq> RECEIPT_MSG then on_client (Some c) (send_receipt (msg_id m)) sv1 else Inr sv1)"
      using reply_res [of sv1 c soft_faults] by (simp add: send_receipt_def [abs_def] served_refl)
  qed
qed

lemma process_loop_attended:
  assumes "server_ok sv" "sv_clients sv c = Some cl" "length (cd_to_process cl) < n"
  shows "res_with soft_faults (attended c sv) (process_loop n c sv)"
  using assms
proof (induction n arbitrary: sv cl)
  case (Suc n)
  show ?case
  proof (cases "cd_to_process cl")
    case Nil
    then show ?thesis using Suc.prems by (auto simp: attended_refl)
  next
    case (Cons m ms)
    define cl1 where "cl1 = cl\<lparr>cd_to_process := ms\<rparr>"
    define sv1 where "sv1 = put_client c cl1 sv"
    have cm: "client_mail_ok cl" using Suc.prems(1,2) mail_ok_client by (auto simp: server_ok_def)
    then have a1: "attended c sv sv1"
      unfolding sv1_def using Suc.prems(1,2) Cons
      by (intro put_client_attended) (auto simp: cl1_def client_mail_ok_def)
    have c1: "sv_clients sv1 c = Some cl1" by (simp add: sv1_def put_client_def)
    have ok1: "server_ok sv1" using attended_ok [OF a1] by simp
    have "wf_msg m" using cm Cons by (simp add: client_mail_ok_def)
    then have p: "res_with soft_faults (served c sv1) (process_one c m sv1)"
      using process_one_served ok1 c1 by (simp add: server_ok_def)
    have "res_with soft_faults (attended c sv1) (rbind (process_one c m sv1) (process_loop n c))"
    proof (cases "process_one c m sv1")
      case (Inl e)
      then show ?thesis using p by simp
    next
      case (Inr sv2)
      then have s: "served c sv1 sv2" using p by simp
      then have a: "attended c sv1 sv2" by (rule served_attended [OF ok1])
      have "mail sv2 c = mail sv1 c" using s by (simp add: served_def)
      then obtain cl2 where c2: "sv_clients sv2 c = Some cl2" "cd_to_process cl2 = ms"
        using c1 by (auto simp: mail_def cl1_def map_option_eq_Some)
      have "res_with soft_faults (attended c sv2) (process_loop n c sv2)"
        by (rule Suc.IH [OF _ c2(1)]) (use attended_ok [OF a] c2 Suc.prems(3) Cons in simp_all)
      then have "res_with soft_faults (attended c sv1) (process_loop n c sv2)"
        by (rule res_with_mono) (auto intro: attended_trans [OF a])
      then show ?thesis using Inr by simp
    qed
    then have "res_with soft_faults (attended c sv) (rbind (process_one c m sv1) (process_loop n c))"
      by (rule res_with_mono) (auto intro: attended_trans [OF a1])
    moreover have "on_client (Some c) (\<lambda>cl. cl\<lparr>cd_to_process := ms\<rparr>) sv = Inr sv1"
      using Suc.prems(2) by (simp add: on_client_def sv1_def put_client_def cl1_def)
    ultimately show ?thesis using Suc.prems(2) Cons by simp
  qed
qed simp

lemma process_msg_attended:
  assumes "server_ok sv" "sv_clients sv c \<noteq> None"
  shows "res_with soft_faults (attended c sv) (process_msg c sv)"
proof -
  obtain cl where cl: "sv_clients sv c = Some cl" using assms(2) by auto
  show ?thesis
    using process_loop_attended [OF assms(1) cl, of "Suc (length (cd_to_process cl))"] cl
    by (simp add: process_msg_def del: process_loop.simps)
qed

section \<open>Reading and writing\<close>

lemma client_write_attended:
  assumes "server_ok sv" "sv_clients sv c = Some cl"
  shows "res_with soft_faults (attended c sv) (client_write_msg wr c sv)"
proof (cases "write_msg (sv_clock sv) (wr (cd_fd cl)) (sv_msg_num sv) cl")
  case (Inl e)
  then have "e \<in> soft_faults" using soft_write soft_cases by metis
  then show ?thesis using Inl assms(2) by (simp add: client_write_msg_def)
next
  case (Inr r)
  obtain out n cl' where r: "r = (out, n, cl')" by (cases r)
  have b: "cd_to_process cl' = cd_to_process cl \<and> cd_buf cl' = cd_buf cl"
    using Inr r by (auto simp: write_msg_def rbind_Inr_iff split: if_splits prod.splits dest!: write_loop_buf)
  have f: "cd_session cl' = cd_session cl" "cd_fd cl' = cd_fd cl" using write_msg_frame Inr r by auto
  have "client_mail_ok cl" using assms mail_ok_client by (auto simp: server_ok_def)
  then have a: "attended c sv (put_client c cl' sv)"
    using b f assms by (intro put_client_attended) (auto simp: client_mail_ok_def)
  have "attended c sv ((put_client c cl' sv)\<lparr>sv_msg_num := n\<rparr>)"
  proof -
    have "same_but_msgs (put_client c cl' sv) ((put_client c cl' sv)\<lparr>sv_msg_num := n\<rparr>)"
      unfolding same_but_msgs_def
      by (intro exI [of _ "sv_clients (put_client c cl' sv)"] exI [of _ n]) simp
    then have "server_inv ((put_client c cl' sv)\<lparr>sv_msg_num := n\<rparr>)"
      using attended_ok [OF a] by (simp add: server_ok_def server_inv_winv same_inv)
    then show ?thesis using a by (simp add: attended_def server_ok_def mail_ok_def mail_def)
  qed
  then show ?thesis using Inr r assms(2) by (simp add: client_write_msg_def put_client_def)
qed

lemma client_read_mail:
  assumes "client_read rd cl = Inr (e, cl')" "client_mail_ok cl"
  shows "client_mail_ok cl'"
proof (cases "cd_fd cl = -1")
  case True
  then show ?thesis using assms by (simp add: client_read_def)
next
  case False
  then obtain e1 mb where r: "read_msg (cd_fd cl) rd (cd_buf cl) = Inr (e1, mb)"
    "cl' = extract_loop (length (mb_queue mb)) (cl\<lparr>cd_buf := mb\<rparr>) \<or> cl' = cl\<lparr>cd_buf := mb\<rparr>"
    using assms(1) by (auto simp: client_read_def rbind_Inr_iff Let_def split: if_splits prod.splits)
  obtain ms where "mb_queue mb = mb_queue (cd_buf cl) @ ms" "\<forall>m \<in> set ms. wf_msg m"
    using read_queue [OF r(1)] by auto
  then show ?thesis
    using r(2) assms(2) extract_loop_all [of "cl\<lparr>cd_buf := mb\<rparr>"] by (auto simp: client_mail_ok_def)
qed


section \<open>The actions on a descriptor\<close>

text \<open>After the actions for a client of an array, the others of the array are in their places.\<close>

definition passed_by :: "(Server \<Rightarrow> ClientArray) \<Rightarrow> nat \<Rightarrow> Server \<Rightarrow> Server \<Rightarrow> bool" where
  "passed_by arr c sv sv' \<longleftrightarrow> server_ok sv' \<and> thins c (arr sv) (arr sv')"

lemma attended_passed:
  assumes "attended c sv sv'" "server_ok sv" "arr = sv_in_game \<or> arr = sv_queue" "c \<in> ca_set (arr sv)"
  shows "passed_by arr c sv sv'"
proof -
  have "sv_in_game sv' = sv_in_game sv" if "arr = sv_in_game"
  proof -
    have "c \<in> with_session sv"
      using assms(2,4) that by (simp add: server_ok_def server_inv_winv winv_def arrays_ok_def)
    then show ?thesis using assms(1) by (auto simp: attended_def with_session_def)
  qed
  then show ?thesis using assms(1,3) by (auto simp: passed_by_def attended_def)
qed

lemma read_write_attended:
  assumes "server_ok sv" "sv_clients sv c = Some cl"
  shows "res_with soft_faults (attended c sv)
    (rbind (if b then client_write_msg wr c sv else Inr sv) (process_msg c))"
proof (rule attended_bind)
  show "res_with soft_faults (attended c sv) (if b then client_write_msg wr c sv else Inr sv)"
    using client_write_attended [OF assms] attended_refl [OF assms(1)] assms(2) by simp
  fix sv1 assume "attended c sv sv1"
  then show "res_with soft_faults (attended c sv1) (process_msg c sv1)"
    using attended_ok process_msg_attended by blast
qed

text \<open>A broken connection: the client leaves its session first, then it is deleted.\<close>

lemma broken_passed:
  assumes "server_ok sv" "sv_clients sv c = Some cl"
  shows "ok_with (\<lambda>sv'. server_ok sv' \<and> thins c (sv_queue sv) (sv_queue sv') \<and> thins c (sv_in_game sv) (sv_in_game sv'))
    (rbind (disconnect_from_game_session c sv) (disconnect_client (Some c)))"
proof -
  have w: "winv {} {} sv" using assms(1) by (simp add: server_ok_def server_inv_winv)
  obtain sv1 cl1 where r1: "disconnect_from_game_session c sv = Inr sv1" "core_inv {} {} sv1"
    "others_stay c sv sv1" "sv_clients sv1 c = Some cl1"
    using ok_withD [OF disconnect_from_keeps [OF inv_core [OF w] assms(2)]] by blast
  have "arrays_but c sv1"
    using w r1(3) others_with_session [OF r1(3)]
    by (simp add: winv_def arrays_ok_def arrays_but_def others_stay_def)
  from ok_withD [OF disconnect_client_keeps [OF r1(2) this r1(4)]]
  obtain sv2 where r2: "disconnect_client (Some c) sv1 = Inr sv2" "keeps {} {} sv1 sv2"
    "sv_in_game sv2 = ca_remove (sv_in_game sv1) (Some c)" "sv_queue sv2 = ca_remove (sv_queue sv1) (Some c)"
    by blast
  have "mail_ok sv1"
    using calm_res_mail [OF calm_disconnect_from _ r1(1)] assms(1) by (simp add: server_ok_def)
  then have "mail_ok sv2" using calm_res_mail [OF calm_disconnect _ r2(1)] by simp
  then show ?thesis
    using r1(1,3) r2 by (simp add: server_ok_def keeps_def server_inv_winv others_stay_def)
qed

lemma fd_actions_passed:
  assumes "server_ok sv" "arr = sv_in_game \<or> arr = sv_queue" "c \<in> ca_set (arr sv)"
  shows "res_with soft_faults (passed_by arr c sv) (fd_actions inp fds c sv)"
proof -
  have "sv_clients sv c \<noteq> None"
    using assms by (auto simp: server_ok_def server_inv_winv winv_def arrays_ok_def with_session_def without_session_def)
  then obtain cl where cl: "sv_clients sv c = Some cl" by auto
  let ?w = "\<lambda>sv. rbind (if get_fd cl \<in> set (snd fds) \<and> si_writable inp (get_fd cl)
      then client_write_msg (si_write inp) c sv else Inr sv) (process_msg c)"
  have pass: "res_with soft_faults (passed_by arr c sv) r" if "res_with soft_faults (attended c sv) r" for r
    by (rule res_with_mono [OF that order_refl]) (rule attended_passed [OF _ assms])
  show ?thesis
  proof (cases "get_fd cl < 0 \<or> get_fd cl \<ge> FD_SETSIZE")
    case True
    then show ?thesis using cl by (auto simp: fd_actions_def Let_def soft_faults_def)
  next
    case in_range: False
    show ?thesis
    proof (cases "get_fd cl \<in> set (fst fds) \<and> si_readable inp (get_fd cl)")
      case False
      then have "fd_actions inp fds c sv = ?w sv"
        using cl in_range by (auto simp: fd_actions_def Let_def)
      then show ?thesis using pass [OF read_write_attended [OF assms(1) cl]] by simp
    next
      case True
      show ?thesis
      proof (cases "client_read (si_read inp (cd_fd cl)) cl")
        case (Inl e)
        then have "e \<in> soft_faults" using soft_read soft_cases by metis
        then show ?thesis using Inl True cl in_range by (simp add: fd_actions_def client_read_msg_def Let_def)
      next
        case (Inr r)
        obtain err cl1 where r: "r = (err, cl1)" by force
        let ?sv1 = "put_client c cl1 sv"
        have "client_mail_ok cl1"
          using client_read_mail Inr r mail_ok_client assms(1) cl by (auto simp: server_ok_def)
        then have a1: "attended c sv ?sv1"
          using client_read_frame Inr r assms(1) cl by (intro put_client_attended) auto
        have c1: "sv_clients ?sv1 c = Some cl1" by (simp add: put_client_def)
        have ok1: "server_ok ?sv1" using attended_ok [OF a1] by simp
        show ?thesis
        proof (cases "err = CONN_BROKEN")
          case False
          then have eq: "fd_actions inp fds c sv = ?w ?sv1"
            using True cl Inr r in_range by (simp add: fd_actions_def client_read_msg_def Let_def put_client_def)
          have "res_with soft_faults (attended c sv) (?w ?sv1)"
            by (rule res_with_mono [OF read_write_attended [OF ok1 c1]]) (auto intro: attended_trans [OF a1])
          then show ?thesis unfolding eq by (rule pass)
        next
          case broken: True
          then have eq: "fd_actions inp fds c sv = rbind (disconnect_from_game_session c ?sv1) (disconnect_client (Some c))"
            using True cl Inr r in_range
            by (cases "disconnect_from_game_session c ?sv1")
              (simp_all add: fd_actions_def client_read_msg_def Let_def put_client_def)
          have g: "sv_queue ?sv1 = sv_queue sv" "sv_in_game ?sv1 = sv_in_game sv" by (simp_all add: put_client_def)
          show ?thesis
            unfolding eq
            by (rule res_with_ok [OF broken_passed [OF ok1 c1]]) (use g assms(2) in \<open>auto simp: passed_by_def\<close>)
        qed
      qed
    qed
  qed
qed

section \<open>The walks over the arrays\<close>

text \<open>The clients of an array from a position on.\<close>

definition rest :: "ClientArray \<Rightarrow> nat \<Rightarrow> nat list" where
  "rest ca i = occupied (drop i (ca_clients ca))"

lemma rest_end [simp]: "length (ca_clients ca) \<le> i \<Longrightarrow> rest ca i = []"
  by (simp add: rest_def)

lemma rest_step:
  "i < length (ca_clients ca) \<Longrightarrow> rest ca i = (case ca_clients ca ! i of None \<Rightarrow> [] | Some c \<Rightarrow> [c]) @ rest ca (Suc i)"
  by (simp add: rest_def Cons_nth_drop_Suc [symmetric] split: option.split)

lemma rest_start: "ca_wf ca \<Longrightarrow> ca_get_count ca = int (length (rest ca 0))"
  by (simp add: rest_def ca_wf_def ca_get_count_def)

lemma rest_set: "c \<in> set (rest ca i) \<Longrightarrow> c \<in> ca_set ca"
  by (auto simp: rest_def set_occupied ca_set_def dest: in_set_dropD)

lemma rest_distinct: "ca_wf ca \<Longrightarrow> distinct (rest ca i)"
proof -
  assume w: "ca_wf ca"
  have "occupied (ca_clients ca) = occupied (take i (ca_clients ca)) @ rest ca i"
    unfolding rest_def by (simp add: occupied_simps(4) [symmetric])
  then show ?thesis using w by (simp add: ca_wf_def)
qed

lemma thins_rest:
  assumes "thins c ca ca'" "c \<notin> set (rest ca i)"
  shows "rest ca' i = rest ca i"
proof -
  have "ca_clients ca' ! j = ca_clients ca ! j" if "i \<le> j" "j < length (ca_clients ca)" for j
  proof -
    have "drop i (ca_clients ca) ! (j - i) = ca_clients ca ! j" "j - i < length (drop i (ca_clients ca))"
      using that by simp_all
    then have "ca_clients ca ! j \<in> set (drop i (ca_clients ca))" by (metis nth_mem)
    then have "ca_clients ca ! j \<noteq> Some c" using assms(2) by (auto simp: rest_def set_occupied)
    then show ?thesis using assms(1) that(2) by (auto simp: thins_def)
  qed
  then have "drop i (ca_clients ca') = drop i (ca_clients ca)"
    using assms(1) by (intro nth_equalityI) (auto simp: thins_def)
  then show ?thesis by (simp add: rest_def)
qed


text \<open>
  A walk over an array that holds as many clients from the position on as are unprocessed reaches
  all of them before its end.
\<close>

lemma ca_index_nat:
  "ca_wf ca \<Longrightarrow> i < length (ca_clients ca) \<Longrightarrow> ca_index ca (int i) = ca_clients ca ! i"
  by (simp add: ca_index_def ca_wf_def)

lemma arrays_wf_arr: "server_ok sv \<Longrightarrow> arr = sv_in_game \<or> arr = sv_queue \<Longrightarrow> ca_wf (arr sv)"
  by (auto simp: server_ok_def server_inv_winv winv_def core_inv_def arrays_wf_def)

lemma fd_actions_walk_ok:
  assumes "server_ok sv" "arr = sv_in_game \<or> arr = sv_queue"
    "unprocessed = int (length (rest (arr sv) i))" "length (ca_clients (arr sv)) < n + i" "i \<le> length (ca_clients (arr sv))"
  shows "res_with soft_faults server_ok (fd_actions_walk n inp fds arr (int i) unprocessed sv)"
  using assms
proof (induction n arbitrary: i unprocessed sv)
  case 0
  then show ?case by simp
next
  case (Suc n)
  have wf: "ca_wf (arr sv)" by (rule arrays_wf_arr [OF Suc.prems(1,2)])
  show ?case
  proof (cases "unprocessed \<le> 0")
    case True
    then show ?thesis using Suc.prems(1) by simp
  next
    case False
    then have il: "i < length (ca_clients (arr sv))"
      using Suc.prems(3) rest_end [of "arr sv" i] by (cases "i < length (ca_clients (arr sv))") auto
    show ?thesis
    proof (cases "ca_clients (arr sv) ! i")
      case None
      then have "res_with soft_faults server_ok (fd_actions_walk n inp fds arr (int (Suc i)) unprocessed sv)"
        using Suc.prems rest_step [OF il] il by (intro Suc.IH) auto
      then show ?thesis using False None ca_index_nat [OF wf il] by (simp add: algebra_simps)
    next
      case (Some c)
      have rs: "rest (arr sv) i = c # rest (arr sv) (Suc i)" using rest_step [OF il] Some by simp
      have c: "c \<in> ca_set (arr sv)" "c \<notin> set (rest (arr sv) (Suc i))"
        using rest_set [of c "arr sv" i] rest_distinct [OF wf, of i] rs by auto
      have "res_with soft_faults server_ok (rbind (fd_actions inp fds c sv)
          (fd_actions_walk n inp fds arr (int (Suc i)) (unprocessed - 1)))"
      proof (rule res_with_rbind [OF fd_actions_passed [OF Suc.prems(1,2) c(1)]])
        fix sv1 assume p: "passed_by arr c sv sv1"
        then have t: "thins c (arr sv) (arr sv1)" "server_ok sv1" by (simp_all add: passed_by_def)
        show "res_with soft_faults server_ok (fd_actions_walk n inp fds arr (int (Suc i)) (unprocessed - 1) sv1)"
          using Suc.prems(3,4) il t thins_rest [OF t(1) c(2)] rs
          by (intro Suc.IH [OF t(2) Suc.prems(2)]) (auto simp: thins_def)
      qed
      then show ?thesis using False Some ca_index_nat [OF wf il] by (simp add: algebra_simps)
    qed
  qed
qed

lemma process_fd_actions_ok:
  assumes "server_ok sv"
  shows "res_with soft_faults server_ok (process_fd_actions inp fds sv)"
  unfolding process_fd_actions_def
proof (rule res_with_rbind)
  show "res_with soft_faults server_ok (fd_actions_walk (Suc (length (ca_clients (sv_in_game sv)))) inp fds
      sv_in_game 0 (ca_get_count (sv_in_game sv)) sv)"
    using fd_actions_walk_ok [OF assms, of sv_in_game _ 0] rest_start [OF arrays_wf_arr [OF assms, of sv_in_game]]
    by (simp del: fd_actions_walk.simps)
  fix sv1 assume ok: "server_ok sv1"
  show "res_with soft_faults server_ok (fd_actions_walk (Suc (length (ca_clients (sv_queue sv1)))) inp fds
      sv_queue 0 (ca_get_count (sv_queue sv1)) sv1)"
    using fd_actions_walk_ok [OF ok, of sv_queue _ 0] rest_start [OF arrays_wf_arr [OF ok, of sv_queue]]
    by (simp del: fd_actions_walk.simps)
qed


section \<open>The descriptors to wait for\<close>

definition fds_from :: "Server \<Rightarrow> nat list \<Rightarrow> int list \<times> int list \<Rightarrow> int list \<times> int list \<Rightarrow> bool" where
  "fds_from sv cs fds fds' \<longleftrightarrow>
     set (fst fds') = set (fst fds) \<union> {get_fd cl |c cl. c \<in> set cs \<and> sv_clients sv c = Some cl}
     \<and> set (snd fds') = set (snd fds) \<union> {get_fd cl |c cl. c \<in> set cs \<and> sv_clients sv c = Some cl \<and> ready_write cl}"

lemma fds_from_Nil: "fds_from sv [] fds fds"
  by (simp add: fds_from_def)

lemma fds_from_Cons:
  assumes "sv_clients sv c = Some cl"
    "fds_from sv cs (get_fd cl # fst fds, if ready_write cl then get_fd cl # snd fds else snd fds) fds'"
  shows "fds_from sv (c # cs) fds fds'"
  using assms by (auto simp: fds_from_def)

lemma fill_walk_result:
  assumes "ca_wf ca" "\<forall>c \<in> ca_set ca. sv_clients sv c \<noteq> None" "unprocessed = int (length (rest ca i))"
    "length (ca_clients ca) < n + i" "i \<le> length (ca_clients ca)"
  shows "res_with {OutOfBounds} (fds_from sv (rest ca i) fds) (fill_walk n ca (int i) unprocessed sv fds)"
  using assms(3-)
proof (induction n arbitrary: i unprocessed fds)
  case (Suc n)
  show ?case
  proof (cases "unprocessed \<le> 0")
    case True
    then show ?thesis using Suc.prems(1) by (simp add: fds_from_Nil)
  next
    case False
    then have il: "i < length (ca_clients ca)"
      using Suc.prems(1) rest_end [of ca i] by (cases "i < length (ca_clients ca)") auto
    show ?thesis
    proof (cases "ca_clients ca ! i")
      case None
      then have "res_with {OutOfBounds} (fds_from sv (rest ca (Suc i)) fds) (fill_walk n ca (int (Suc i)) unprocessed sv fds)"
        using Suc.prems rest_step [OF il] il by (intro Suc.IH) auto
      then show ?thesis using False None ca_index_nat [OF assms(1) il] rest_step [OF il] by (simp add: algebra_simps)
    next
      case (Some c)
      have rs: "rest ca i = c # rest ca (Suc i)" using rest_step [OF il] Some by simp
      then obtain cl where cl: "sv_clients sv c = Some cl"
        using assms(2) rest_set [of c ca i] by fastforce
      show ?thesis
      proof (cases "get_fd cl < 0 \<or> get_fd cl \<ge> FD_SETSIZE")
        case True
        then show ?thesis using False Some ca_index_nat [OF assms(1) il] cl by (simp add: fd_set_def)
      next
        case ok: False
        let ?fds = "(get_fd cl # fst fds, if ready_write cl then get_fd cl # snd fds else snd fds)"
        have "res_with {OutOfBounds} (fds_from sv (rest ca (Suc i)) ?fds) (fill_walk n ca (int (Suc i)) (unprocessed - 1) sv ?fds)"
          using Suc.prems rs il by (intro Suc.IH) auto
        then have "res_with {OutOfBounds} (fds_from sv (rest ca i) fds) (fill_walk n ca (int (Suc i)) (unprocessed - 1) sv ?fds)"
          unfolding rs by (rule res_with_mono) (use fds_from_Cons [OF cl] in auto)
        then show ?thesis
          using False Some ca_index_nat [OF assms(1) il] cl ok
          by (cases "ready_write cl") (simp_all add: fd_set_def algebra_simps)
      qed
    qed
  qed
qed simp


lemma rest_all: "set (rest ca 0) = ca_set ca"
  by (simp add: rest_def ca_set_occupied)

lemma arrays_clients:
  assumes "server_ok sv"
  shows "c \<in> ca_set (sv_in_game sv) \<or> c \<in> ca_set (sv_queue sv) \<longleftrightarrow> sv_clients sv c \<noteq> None"
  using assms
  by (auto simp: server_ok_def server_inv_winv winv_def arrays_ok_def with_session_def without_session_def)

lemma fill_fd_sets_result:
  assumes "server_ok sv"
  shows "res_with {OutOfBounds} (\<lambda>(readfds, writefds).
      set readfds = {get_fd cl |c cl. sv_clients sv c = Some cl}
      \<and> set writefds = {get_fd cl |c cl. sv_clients sv c = Some cl \<and> ready_write cl}) (fill_fd_sets sv)"
  unfolding fill_fd_sets_def
proof (rule res_with_rbind)
  note wf = arrays_wf_arr [OF assms]
  have al: "\<forall>c \<in> ca_set (arr sv). sv_clients sv c \<noteq> None" if "arr = sv_in_game \<or> arr = sv_queue" for arr
    using arrays_clients [OF assms] that by auto
  have g: "arr = sv_in_game \<or> arr = sv_queue \<Longrightarrow>
      res_with {OutOfBounds} (fds_from sv (rest (arr sv) 0) fds)
       (fill_walk (Suc (length (ca_clients (arr sv)))) (arr sv) 0 (ca_get_count (arr sv)) sv fds)" for arr fds
    using fill_walk_result [of "arr sv" sv _ 0 "Suc (length (ca_clients (arr sv)))" fds] wf [of arr] al [of arr]
      rest_start [of "arr sv"] by (simp del: fill_walk.simps)
  show "res_with {OutOfBounds} (fds_from sv (rest (sv_in_game sv) 0) ([], []))
      (fill_walk (Suc (length (ca_clients (sv_in_game sv)))) (sv_in_game sv) 0 (ca_get_count (sv_in_game sv)) sv ([], []))"
    by (rule g) simp
  fix fds assume f1: "fds_from sv (rest (sv_in_game sv) 0) ([], []) fds"
  have "res_with {OutOfBounds} (fds_from sv (rest (sv_queue sv) 0) fds)
      (fill_walk (Suc (length (ca_clients (sv_queue sv)))) (sv_queue sv) 0 (ca_get_count (sv_queue sv)) sv fds)"
    by (rule g) simp
  then show "res_with {OutOfBounds} (\<lambda>(readfds, writefds).
      set readfds = {get_fd cl |c cl. sv_clients sv c = Some cl}
      \<and> set writefds = {get_fd cl |c cl. sv_clients sv c = Some cl \<and> ready_write cl})
      (fill_walk (Suc (length (ca_clients (sv_queue sv)))) (sv_queue sv) 0 (ca_get_count (sv_queue sv)) sv fds)"
  proof (rule res_with_mono)
    fix fds' assume f2: "fds_from sv (rest (sv_queue sv) 0) fds fds'"
    have e: "sv_clients sv c = Some cl \<Longrightarrow> c \<in> ca_set (sv_in_game sv) \<or> c \<in> ca_set (sv_queue sv)" for c cl
      using arrays_clients [OF assms, of c] by simp
    have "{get_fd cl |c cl. sv_clients sv c = Some cl}
        = {get_fd cl |c cl. c \<in> ca_set (sv_in_game sv) \<and> sv_clients sv c = Some cl}
          \<union> {get_fd cl |c cl. c \<in> ca_set (sv_queue sv) \<and> sv_clients sv c = Some cl}"
      "{get_fd cl |c cl. sv_clients sv c = Some cl \<and> ready_write cl}
        = {get_fd cl |c cl. c \<in> ca_set (sv_in_game sv) \<and> sv_clients sv c = Some cl \<and> ready_write cl}
          \<union> {get_fd cl |c cl. c \<in> ca_set (sv_queue sv) \<and> sv_clients sv c = Some cl \<and> ready_write cl}"
      using e by blast+
    then show "case fds' of (readfds, writefds) \<Rightarrow>
      set readfds = {get_fd cl |c cl. sv_clients sv c = Some cl}
      \<and> set writefds = {get_fd cl |c cl. sv_clients sv c = Some cl \<and> ready_write cl}"
      using f1 f2 unfolding fds_from_def rest_all by (cases fds') simp
  qed simp
qed

section \<open>A new connection\<close>

lemma accept_ok:
  assumes "server_ok sv"
  shows "server_ok (accept_new_connection inp sv)"
proof -
  define c where "c = sv_next_client sv"
  have ok: "sessions_ok sv" "links_ok sv" "arrays_wf sv" "handlers_ok {} {} sv" "arrays_ok sv" "mail_ok sv"
    using assms by (simp_all add: server_ok_def server_inv_winv winv_def core_inv_def)
  have dead: "sv_clients sv c = None" using ok(3) by (auto simp: arrays_wf_def c_def)
  have np: "s < length (sv_sessions sv) \<Longrightarrow> c \<notin> players_of (sess sv s)" for s
    using ok(2) [unfolded links_ok_def, rule_format, of c s] dead by simp
  show ?thesis
  proof (cases "is_full (sv_queue sv) \<or> si_accept inp = -1")
    case True
    have "(sv_clients sv)(c := None) = sv_clients sv" using dead by auto
    then have "accept_new_connection inp sv = sv \<or> accept_new_connection inp sv = sv\<lparr>sv_next_client := Suc c\<rparr>"
      using True by (auto simp: accept_new_connection_def Let_def c_def [symmetric])
    moreover have "server_ok (sv\<lparr>sv_next_client := Suc c\<rparr>)"
      using ok by (fastforce simp: server_ok_def server_inv_winv winv_def core_inv_def sessions_ok_def links_ok_def
        arrays_wf_def handlers_ok_def turn_at_def arrays_ok_def with_session_def without_session_def
        mail_ok_def mail_def c_def less_Suc_eq)
    ultimately show ?thesis using assms by auto
  next
    case False
    let ?cl = "set_fd (si_accept inp) mk_client"
    let ?ca = "snd (ca_add (sv_queue sv) (Some c))"
    let ?sv = "sv\<lparr>sv_next_client := Suc c, sv_queue := ?ca, sv_clients := (sv_clients sv)(c := Some ?cl)\<rparr>"
    have eq: "accept_new_connection inp sv = ?sv"
      using False by (simp add: accept_new_connection_def Let_def c_def)
    have cl: "cd_session ?cl = None" "cd_to_process ?cl = []" "mb_queue (cd_buf ?cl) = []"
      by (simp_all add: set_fd_def mk_client_def MsgBuffer_default_def)
    have q: "c \<notin> ca_set (sv_queue sv)" "ca_wf (sv_queue sv)"
      using ok dead by (auto simp: arrays_ok_def without_session_def arrays_wf_def)
    note add = ca_add_spec [OF q(2,1)]
    have "sessions_ok ?sv" using ok(1) by (simp add: sessions_ok_def)
    moreover have "links_ok ?sv" using ok(2) np cl(1) by (auto simp: links_ok_def)
    moreover have "arrays_wf ?sv" using ok(3) add by (auto simp: arrays_wf_def c_def less_Suc_eq)
    moreover have "handlers_ok {} {} ?sv" using ok(4) by (simp add: handlers_ok_def turn_at_def)
    moreover have "arrays_ok ?sv"
    proof -
      have "with_session ?sv = with_session sv" "without_session ?sv = insert c (without_session sv)"
        using dead cl(1) by (auto simp: with_session_def without_session_def)
      then show ?thesis using ok(5) add(3) False by (simp add: arrays_ok_def)
    qed
    moreover have "mail_ok ?sv" using ok(6) cl(2,3) by (auto simp: mail_ok_def mail_def)
    ultimately show ?thesis unfolding eq by (simp add: server_ok_def server_inv_winv winv_def core_inv_def)
  qed
qed

section \<open>One iteration\<close>

definition loop_faults :: "fault set" where
  "loop_faults = {Diverges, OutOfFuel}"

lemma process_timeouts_ok:
  assumes "server_ok sv"
  shows "res_with loop_faults server_ok (process_timeouts n passed sv)"
proof (cases "process_timeouts n passed sv")
  case (Inr sv')
  have "server_inv sv'"
    using process_timeouts_inv [of sv n passed] assms Inr by (simp add: server_ok_def)
  then show ?thesis
    using calm_res_mail [OF calm_process_timeouts _ Inr] assms Inr by (simp add: server_ok_def)
qed (use process_timeouts_inv [of sv n passed] assms in \<open>auto simp: server_ok_def loop_faults_def\<close>)

lemma select_result_ok:
  assumes "server_ok sv"
  shows "res_with (loop_faults \<union> soft_faults) server_ok (process_select_result n inp passed fds sv)"
proof (cases "si_result inp = -1")
  case True
  then show ?thesis using assms by (simp add: process_select_result_def)
next
  case False
  have "res_with (loop_faults \<union> soft_faults) server_ok (rbind (process_timeouts n passed sv) (\<lambda>sv1.
      if si_result inp \<noteq> 0 then process_fd_actions inp fds (if si_listen inp then accept_new_connection inp sv1 else sv1)
      else Inr sv1))"
  proof (rule res_with_rbind)
    show "res_with (loop_faults \<union> soft_faults) server_ok (process_timeouts n passed sv)"
      by (rule res_with_mono [OF process_timeouts_ok [OF assms]]) auto
    fix sv1 assume "server_ok sv1"
    then have "server_ok (if si_listen inp then accept_new_connection inp sv1 else sv1)" by (simp add: accept_ok)
    then have "res_with (loop_faults \<union> soft_faults) server_ok
        (process_fd_actions inp fds (if si_listen inp then accept_new_connection inp sv1 else sv1))"
      by (rule res_with_mono [OF process_fd_actions_ok]) auto
    then show "res_with (loop_faults \<union> soft_faults) server_ok (if si_result inp \<noteq> 0
        then process_fd_actions inp fds (if si_listen inp then accept_new_connection inp sv1 else sv1) else Inr sv1)"
      using \<open>server_ok sv1\<close> by simp
  qed
  then show ?thesis using False by (simp add: process_select_result_def)
qed

lemma clock_ok: "server_ok (sv\<lparr>sv_clock := k\<rparr>) = server_ok sv"
  by (simp add: server_ok_def server_inv_winv winv_def core_inv_def sessions_ok_def links_ok_def arrays_wf_def
    handlers_ok_def turn_at_def arrays_ok_def with_session_def without_session_def mail_ok_def)

lemma server_step_ok:
  assumes "server_ok sv"
  shows "res_with (loop_faults \<union> soft_faults) server_ok (server_step inp sv)"
  unfolding server_step_def run_iteration_def
proof (rule res_with_rbind)
  show "res_with (loop_faults \<union> soft_faults) (\<lambda>_. True) (fill_fd_sets sv)"
    by (rule res_with_mono [OF fill_fd_sets_result [OF assms]]) (auto simp: soft_faults_def)
  show "res_with (loop_faults \<union> soft_faults) server_ok (process_select_result (fst inp) (snd inp)
      (elapsed_time (si_before (snd inp)) (si_after (snd inp))) fds (sv\<lparr>sv_clock := si_clock (snd inp)\<rparr>))" for fds
    by (rule select_result_ok) (simp add: clock_ok assms)
qed

lemma server_start_ok: "server_start sv \<Longrightarrow> server_ok sv"
  by (auto simp: server_start_def mk_server_def server_ok_def server_inv_winv winv_def core_inv_def sessions_ok_def
    links_ok_def arrays_wf_def handlers_ok_def arrays_ok_def with_session_def without_session_def mail_ok_def
    mail_def GAME_COUNT_def CLIENT_QUEUE_LEN_def)

interpretation sv_sys: fault_system server_start server_step server_ok "loop_faults \<union> soft_faults"
  by unfold_locales (simp_all only: server_start_ok server_step_ok)

end
