(* ===== verification/ServerGame.thy ===== *)
theory ServerGame
  imports ServerRun FieldTheorems
begin

text \<open>
  What the events of a game do to the sessions: the state each of them leads to, the rules of a turn,
  and the search for a cell that has not been shot at.
\<close>

section \<open>Sessions under messages\<close>

lemma on_client_sessions: "on_client p f sv = Inr sv' \<Longrightarrow> sv_sessions sv' = sv_sessions sv"
  by (auto simp: on_client_def split: option.splits)

lemma send_to_sessions: "send_to s i m sv = Inr sv' \<Longrightarrow> sv_sessions sv' = sv_sessions sv"
  unfolding send_to_def rbind_Inr_iff using on_client_sessions by blast

lemma rfor_sessions:
  assumes "\<And>i sv sv'. f i sv = Inr sv' \<Longrightarrow> sv_sessions sv' = sv_sessions sv"
  shows "rfor is f sv = Inr sv' \<Longrightarrow> sv_sessions sv' = sv_sessions sv"
proof (induction "is" arbitrary: sv)
  case (Cons i "is")
  then obtain sv1 where "f i sv = Inr sv1" "rfor is f sv1 = Inr sv'" by (auto simp: rbind_Inr_iff)
  then show ?case using Cons.IH assms by metis
qed simp

lemma send_for_all_sessions: "send_for_all s m sv = Inr sv' \<Longrightarrow> sv_sessions sv' = sv_sessions sv"
  unfolding send_for_all_def Let_def
  by (erule rfor_sessions [rotated]) (simp split: if_splits add: on_client_sessions)

lemma send_state_sessions: "send_game_state_for_all s sv = Inr sv' \<Longrightarrow> sv_sessions sv' = sv_sessions sv"
  unfolding send_game_state_for_all_def
  by (erule rfor_sessions [rotated]) (simp split: if_splits add: on_client_sessions)

lemma start_fields_sessions:
  assumes "send_start_fields s sv = Inr sv'"
  shows "sv_sessions sv' = sv_sessions sv"
proof (cases "gs_state (sess sv s) = WAIT_START")
  case True
  define body where "body = (\<lambda>i sv. rbind (field_at (sess sv s) i) (\<lambda>own_field.
          rbind (field_at (sess sv s) (get_enemy_idx i)) (\<lambda>f.
          rbind (send_to s i (new_msg (GameFieldMsg own_field True)) sv) (\<lambda>sv1.
          send_to s i (new_msg (GameFieldMsg (get_for_enemy f) False)) sv1))))"
  have "sv_sessions sv2 = sv_sessions sv1" if r: "body i sv1 = Inr sv2" for i sv1 sv2
  proof -
    obtain f g sv3 where "send_to s i (new_msg (GameFieldMsg f True)) sv1 = Inr sv3"
      "send_to s i (new_msg (GameFieldMsg (get_for_enemy g) False)) sv3 = Inr sv2"
      using r unfolding body_def rbind_Inr_iff by blast
    then show ?thesis using send_to_sessions by metis
  qed
  moreover have "rfor [0, 1] body sv = Inr sv'"
    using assms True by (simp add: send_start_fields_def body_def del: rfor.simps)
  ultimately show ?thesis by (rule rfor_sessions)
qed (use assms in \<open>simp add: send_start_fields_def\<close>)

lemma stop_handler_sessions: "stop_handler a sv = Inr sv' \<Longrightarrow> sv_sessions sv' = sv_sessions sv"
  by (auto simp: stop_handler_def split: option.splits)

lemma add_handler_sessions [simp]: "sv_sessions (snd (add_timeout_handler t sv)) = sv_sessions sv"
  by (simp add: add_timeout_handler_def)

lemma rand_sessions [simp]: "sv_sessions (snd (rand_below n sv)) = sv_sessions sv"
  by (simp add: snd_rand_below)

text \<open>A change of the session \<open>s\<close> only.\<close>

definition only_session :: "nat \<Rightarrow> (GameSession \<Rightarrow> GameSession \<Rightarrow> bool) \<Rightarrow> Server \<Rightarrow> Server \<Rightarrow> bool" where
  "only_session s P sv sv' \<longleftrightarrow> length (sv_sessions sv') = length (sv_sessions sv)
     \<and> (\<forall>t. t \<noteq> s \<longrightarrow> sess sv' t = sess sv t) \<and> P (sess sv s) (sess sv' s)"

lemma only_sessionI:
  assumes "sv_sessions sv' = (sv_sessions sv)[s := gs]" "s < length (sv_sessions sv)" "P (sess sv s) gs"
  shows "only_session s P sv sv'"
  using assms by (simp add: only_session_def)

lemma only_session_same: "sv_sessions sv' = sv_sessions sv \<Longrightarrow> P (sess sv s) (sess sv s) \<Longrightarrow> only_session s P sv sv'"
  by (simp add: only_session_def)

section \<open>A player leaves\<close>

lemma disconnect_slot_sessions:
  assumes "winv X S sv" "s < length (sv_sessions sv)" "i < 2" "gs_players (sess sv s) ! i = Some c"
    "disconnect_client (Some c) sv = Inr sv'"
  shows "sv_sessions sv' = (sv_sessions sv)[s := leave_at i (sess sv s)]"
proof -
  obtain p q where pq: "gs_players (sess sv s) = [p, q]" "p = q \<longrightarrow> p = None"
    using inv_session [OF assms(1,2)] unfolding session_ok_def by blast
  have i: "i = 0 \<or> i = 1" using assms(3) by auto
  then have "c \<in> players_of (sess sv s)" using assms(4) pq by (auto simp: players_of_def)
  then obtain cl where cl: "sv_clients sv c = Some cl" "cd_session cl = Some s"
    using assms(1,2) unfolding winv_def core_inv_def links_ok_def by blast
  have "disconnect_player s (Some c) sv = Inr (mod_session s (leave_at i) sv)"
    using i assms(4) pq by (auto simp: disconnect_player_def leave_at_def [abs_def] Let_def)
  then show ?thesis
    using assms(5) cl
    by (auto simp: disconnect_client_def disconnect_from_game_session_def rbind_Inr_iff mod_session_def
      dest!: on_client_sessions)
qed

lemma disconnect_None [simp]: "disconnect_client None sv = Inr sv"
  by (simp add: disconnect_client_def)

text \<open>The loops over both players: some of them leave.\<close>

definition some_left :: "GameSession \<Rightarrow> GameSession \<Rightarrow> bool" where
  "some_left gs gs' \<longleftrightarrow> gs' = gs \<or> get_players_count gs' < get_players_count gs"

lemma kick_step:
  assumes "winv X {} sv" "s < length (sv_sessions sv)" "i < 2"
    "(if b then disconnect_client (gs_players (sess sv s) ! i) sv else Inr sv) = Inr sv'"
  shows "winv X {} sv'" "only_session s some_left sv sv'"
    "b \<Longrightarrow> sess sv' s = (if gs_players (sess sv s) ! i = None then sess sv s else leave_at i (sess sv s))"
proof -
  have "ok_with (keeps X {} sv) (if b then disconnect_client (gs_players (sess sv s) ! i) sv else Inr sv)"
    using disconnect_slot_keeps [OF assms(1-3)] keeps_refl [OF assms(1)] by simp
  then show "winv X {} sv'" using assms(4) by (simp add: keeps_def)
  have "only_session s some_left sv sv'
    \<and> (b \<longrightarrow> sess sv' s = (if gs_players (sess sv s) ! i = None then sess sv s else leave_at i (sess sv s)))"
  proof (cases "b \<and> gs_players (sess sv s) ! i \<noteq> None")
    case False
    then have "sv' = sv" using assms(4) by (auto split: if_splits)
    then show ?thesis using False by (auto intro: only_session_same simp: some_left_def)
  next
    case True
    then obtain c where c: "gs_players (sess sv s) ! i = Some c" by auto
    have e: "sv_sessions sv' = (sv_sessions sv)[s := leave_at i (sess sv s)]"
      using disconnect_slot_sessions [OF assms(1-3) c] assms(4) True c by simp
    have "some_left (sess sv s) (leave_at i (sess sv s))"
      using session_ok_leave(4) [OF inv_session [OF assms(1,2)] c assms(3)] by (simp add: some_left_def)
    then show ?thesis using only_sessionI [OF e assms(2)] e assms(2) c by simp
  qed
  then show "only_session s some_left sv sv'"
    "b \<Longrightarrow> sess sv' s = (if gs_players (sess sv s) ! i = None then sess sv s else leave_at i (sess sv s))"
    by blast+
qed

lemma some_left_trans: "some_left gs gs1 \<Longrightarrow> some_left gs1 gs2 \<Longrightarrow> some_left gs gs2"
  by (auto simp: some_left_def)

lemma few_players_state:
  assumes "session_ok gs" "get_players_count gs < 2"
  shows "gs_state gs = WAIT_PLAYER \<or> gs_state gs = NO_VACANT_GAME"
proof -
  have "0 \<le> get_players_count gs" by (simp add: get_players_count_def)
  then have "get_players_count gs = 0 \<or> get_players_count gs = 1" using assms(2) by auto
  then show ?thesis using assms(1) by (auto simp: session_ok_def state_ok_def)
qed

lemma count_le_2: "session_ok gs \<Longrightarrow> get_players_count gs \<le> 2"
  by (auto simp: session_ok_def)

section \<open>Where the events lead\<close>

fun event_target :: "timeout_kind \<Rightarrow> GameState \<Rightarrow> GameState set" where
  "event_target PreparationTimeout st = {if st = PREPARATION then WAIT_START else st}"
| "event_target CheckStartFieldsTimeout st = {st, WAIT_PLAYER, NO_VACANT_GAME}"
| "event_target GameStartTimeout st = {if st = WAIT_START then GAME_TURN else st}"
| "event_target GameTurnTimeout st = {if st = GAME_TURN then PROCESS_TURN else st}"
| "event_target ChangeTurnTimeout st = (if st = PROCESS_TURN then {GAME_TURN, PROCESS_TURN} else {st})"
| "event_target EndGameTimeout st = {NO_VACANT_GAME}"

definition leads :: "timeout_kind \<Rightarrow> GameSession \<Rightarrow> GameSession \<Rightarrow> bool" where
  "leads k gs gs' \<longleftrightarrow> gs_state gs' \<in> event_target k (gs_state gs)"

lemma stop_preparation_leads:
  assumes "s < length (sv_sessions sv)" "stop_preparation s sv = Inr sv'"
  shows "only_session s (leads PreparationTimeout) sv sv'"
proof (cases "gs_state (sess sv s) = PREPARATION")
  case True
  then have e: "sv_sessions sv' = (sv_sessions sv)[s := (sess sv s)\<lparr>gs_state := WAIT_START\<rparr>]"
    using assms by (auto simp: stop_preparation_def rbind_Inr_iff mod_session_def
      dest!: send_for_all_sessions send_state_sessions)
  show ?thesis by (rule only_sessionI [OF e assms(1)]) (simp add: leads_def True)
qed (use assms in \<open>auto simp: stop_preparation_def leads_def intro!: only_session_same\<close>)

lemma start_new_turn_sessions:
  assumes "s < length (sv_sessions sv)" "gs_state (sess sv s) = WAIT_START \<or> gs_state (sess sv s) = PROCESS_TURN"
    "start_new_turn s sv = Inr sv'"
  shows "\<exists>a. sv_sessions sv' = (sv_sessions sv)[s := (sess sv s)\<lparr>gs_state := GAME_TURN, gs_turn_timeout := Some a\<rparr>]"
  using assms unfolding start_new_turn_def Let_def
  by (auto simp: rbind_Inr_iff mod_session_def add_timeout_handler_def dest!: send_to_sessions)
    (rule exI, rule refl)+

lemma start_game_leads:
  assumes "s < length (sv_sessions sv)" "start_game s sv = Inr sv'"
  shows "only_session s (leads GameStartTimeout) sv sv'"
proof (cases "gs_state (sess sv s) = WAIT_START")
  case True
  define sv1 where "sv1 = mod_session s (\<lambda>gs. gs\<lparr>gs_cur := fst (rand_below 2 sv)\<rparr>) (snd (rand_below 2 sv))"
  have sl: "s < length (sv_sessions sv1)" using assms(1) by (simp add: sv1_def)
  have st: "gs_state (sess sv1 s) = WAIT_START" using assms(1) True by (simp add: sv1_def)
  have "start_new_turn s sv1 = Inr sv'"
    using assms(2) True by (simp add: start_game_def sv1_def split: prod.splits)
  then obtain a where a: "sv_sessions sv' = (sv_sessions sv1)[s := (sess sv1 s)\<lparr>gs_state := GAME_TURN, gs_turn_timeout := Some a\<rparr>]"
    using start_new_turn_sessions [OF sl disjI1 [OF st]] by blast
  have e: "sv_sessions sv' = (sv_sessions sv)[s := (sess sv1 s)\<lparr>gs_state := GAME_TURN, gs_turn_timeout := Some a\<rparr>]"
    unfolding a by (simp add: sv1_def mod_session_def)
  show ?thesis by (rule only_sessionI [OF e assms(1)]) (simp add: leads_def True)
qed (use assms in \<open>auto simp: start_game_def leads_def intro!: only_session_same\<close>)

lemma end_turn_sessions:
  assumes "s < length (sv_sessions sv)" "gs_state (sess sv s) = GAME_TURN" "end_turn s sv = Inr sv'"
  shows "sv_sessions sv' = (sv_sessions sv)[s := (sess sv s)\<lparr>gs_state := PROCESS_TURN, gs_turn_timeout := None\<rparr>]"
proof -
  let ?gs = "(sess sv s)\<lparr>gs_state := PROCESS_TURN\<rparr>"
  show ?thesis
  proof (cases "gs_turn_timeout (sess sv s)")
    case None
    then have n: "?gs\<lparr>gs_turn_timeout := None\<rparr> = ?gs" by (cases "sess sv s") simp
    show ?thesis
      unfolding n using assms None unfolding end_turn_def Let_def
      by (auto simp: rbind_Inr_iff mod_session_def dest!: send_to_sessions)
  next
    case (Some a)
    then show ?thesis
      using assms unfolding end_turn_def Let_def
      by (auto simp: rbind_Inr_iff mod_session_def dest!: send_to_sessions stop_handler_sessions)
  qed
qed

lemma end_turn_leads:
  assumes "s < length (sv_sessions sv)" "end_turn s sv = Inr sv'"
  shows "only_session s (leads GameTurnTimeout) sv sv'"
proof (cases "gs_state (sess sv s) = GAME_TURN")
  case True
  show ?thesis
    by (rule only_sessionI [OF end_turn_sessions [OF assms(1) True assms(2)] assms(1)]) (simp add: leads_def True)
qed (use assms in \<open>auto simp: end_turn_def leads_def intro!: only_session_same\<close>)


section \<open>The random shot\<close>

text \<open>A cell that a shot has an effect on, and the cells the search tries.\<close>

definition fresh_cell :: "GameField \<Rightarrow> Point \<Rightarrow> bool" where
  "fresh_cell f p \<longleftrightarrow> field_contains p \<and> (get_state f p = CELL_EMPTY \<or> get_state f p = CELL_UNHARMED)"

definition random_point :: "(nat \<Rightarrow> nat) \<Rightarrow> nat \<Rightarrow> Point" where
  "random_point r pos = Point (int (r pos mod 10)) (int (r (Suc pos) mod 10))"

fun tried_cells :: "(nat \<Rightarrow> nat) \<Rightarrow> nat \<Rightarrow> Point \<Rightarrow> nat \<Rightarrow> Point list" where
  "tried_cells r pos p 0 = []"
| "tried_cells r pos p (Suc n) = p # tried_cells r (pos + 2) (random_point r pos) n"

lemma register_fresh: "fst (register_shot f p) \<noteq> CELL_EMPTY \<longleftrightarrow> fresh_cell f p"
  by (cases rule: register_shot_cases [of f p])
    (use get_state_contains(1) [of f p] in \<open>auto simp: fresh_cell_def register_shot_outside\<close>)

lemma register_stale: "\<not> fresh_cell f p \<Longrightarrow> register_shot f p = (CELL_EMPTY, f)"
  by (cases rule: register_shot_cases [of f p]) (auto simp: fresh_cell_def)

lemma shot_loop_unfold:
  "shot_loop (Suc n) f p sv = (if fresh_cell f p
     then Inr (fst (register_shot f p), snd (register_shot f p), sv\<lparr>sv_rand_pos := sv_rand_pos sv + 2\<rparr>)
     else shot_loop n f (random_point (sv_rand sv) (sv_rand_pos sv)) (sv\<lparr>sv_rand_pos := sv_rand_pos sv + 2\<rparr>))"
proof (cases "fresh_cell f p")
  case True
  then have "fst (register_shot f p) \<noteq> CELL_EMPTY" by (simp add: register_fresh)
  then show ?thesis
    using True by (cases "register_shot f p") (simp add: rand_below_def Let_def)
next
  case False
  then show ?thesis
    by (simp add: register_stale rand_below_def Let_def random_point_def)
qed

lemma shot_loop_find:
  "shot_loop n f p sv = (case find (fresh_cell f) (tried_cells (sv_rand sv) (sv_rand_pos sv) p n) of
     None \<Rightarrow> Inl Diverges
   | Some q \<Rightarrow> Inr (fst (register_shot f q), snd (register_shot f q), sv\<lparr>sv_rand_pos := sv_rand_pos sv
       + 2 * Suc (length (takeWhile (\<lambda>q. \<not> fresh_cell f q) (tried_cells (sv_rand sv) (sv_rand_pos sv) p n)))\<rparr>))"
proof (induction n arbitrary: p sv)
  case (Suc n)
  show ?case
    unfolding shot_loop_unfold using Suc.IH by (simp split: option.split)
qed simp

section \<open>A turn\<close>

text \<open>The field of the player whose turn it is not.\<close>

definition enemy_field :: "GameSession \<Rightarrow> GameField" where
  "enemy_field gs = gs_fields gs ! nat (get_enemy_idx (gs_cur gs))"

text \<open>The cell that is shot at: the one the player chose, if that has an effect, or a random one.\<close>

definition shot_at :: "nat \<Rightarrow> (nat \<Rightarrow> nat) \<Rightarrow> nat \<Rightarrow> GameSession \<Rightarrow> Point option" where
  "shot_at n r pos gs =
     (if has_last_shot gs then find (fresh_cell (enemy_field gs)) (tried_cells r pos (gs_last_shot gs) n)
      else find (fresh_cell (enemy_field gs)) (tried_cells r (pos + 2) (random_point r pos) n))"

definition after_shot :: "Point \<Rightarrow> GameSession \<Rightarrow> GameSession" where
  "after_shot p gs = clear_last_shot (gs\<lparr>gs_fields := (gs_fields gs)[nat (get_enemy_idx (gs_cur gs)) :=
     snd (register_shot (enemy_field gs) p)]\<rparr>)"

lemma field_at_enemy:
  assumes "session_ok gs"
  shows "field_at gs (get_enemy_idx (gs_cur gs)) = Inr (enemy_field gs)"
  using assms get_enemy_idx_range [of "gs_cur gs"]
  by (auto simp: session_ok_def field_at_def enemy_field_def PLAYERS_COUNT_def)

lemma register_last_shot_sessions:
  assumes "session_ok (sess sv s)"
  shows "case shot_at (sv_bound sv) (sv_rand sv) (sv_rand_pos sv) (sess sv s) of
      None \<Rightarrow> register_last_shot s sv = Inl Diverges
    | Some p \<Rightarrow> \<exists>sv'. register_last_shot s sv = Inr (fst (register_shot (enemy_field (sess sv s)) p), sv')
        \<and> sv_sessions sv' = (sv_sessions sv)[s := after_shot p (sess sv s)]"
proof -
  let ?gs = "sess sv s" and ?f = "enemy_field (sess sv s)"
  define sv1 where "sv1 = (if has_last_shot ?gs then sv else sv\<lparr>sv_rand_pos := sv_rand_pos sv + 2\<rparr>)"
  define p1 where "p1 = (if has_last_shot ?gs then gs_last_shot ?gs else random_point (sv_rand sv) (sv_rand_pos sv))"
  have one: "(if \<not> has_last_shot ?gs then (let (x, sva) = rand_below 10 sv; (y, svb) = rand_below 10 sva in (Point x y, svb))
      else (gs_last_shot ?gs, sv)) = (p1, sv1)"
    by (simp add: rand_below_def Let_def p1_def sv1_def random_point_def)
  have g: "sess sv1 s = ?gs" "sv_sessions sv1 = sv_sessions sv" "sv_bound sv1 = sv_bound sv"
    by (simp_all add: sv1_def)
  have r: "register_last_shot s sv = rbind (shot_loop (sv_bound sv) ?f p1 sv1) (\<lambda>(res, f', sv2).
      Inr (res, mod_session s (\<lambda>gs. clear_last_shot
        (gs\<lparr>gs_fields := (gs_fields gs)[nat (get_enemy_idx (gs_cur ?gs)) := f']\<rparr>)) sv2))"
    using field_at_enemy [OF assms]
    unfolding register_last_shot_def Let_def [of "get_enemy_idx x" for x] one by (simp add: g)
  have sa: "shot_at (sv_bound sv) (sv_rand sv) (sv_rand_pos sv) ?gs
      = find (fresh_cell ?f) (tried_cells (sv_rand sv1) (sv_rand_pos sv1) p1 (sv_bound sv))"
    by (simp add: shot_at_def sv1_def p1_def)
  show ?thesis
    unfolding sa r shot_loop_find
    by (simp add: mod_session_def g after_shot_def enemy_field_def split: option.split)
qed

lemma send_fields_sessions: "send_fields s sv = Inr sv' \<Longrightarrow> sv_sessions sv' = sv_sessions sv"
  by (auto simp: send_fields_def Let_def rbind_Inr_iff dest!: send_to_sessions)

lemma game_result_sessions: "send_game_result s sv = Inr sv' \<Longrightarrow> sv_sessions sv' = sv_sessions sv"
  by (auto simp: send_game_result_def Let_def rbind_Inr_iff dest!: send_to_sessions)

text \<open>The session after the change of the turn.\<close>

definition turn_result :: "Point \<Rightarrow> GameSession \<Rightarrow> nat option \<Rightarrow> GameSession" where
  "turn_result p gs a =
     (let gs1 = after_shot p gs in
      if all_ships_destroyed (snd (register_shot (enemy_field gs) p)) then gs1
      else gs1\<lparr>gs_cur := (if get_state (enemy_field gs) p = CELL_UNHARMED then gs_cur gs else get_enemy_idx (gs_cur gs)),
               gs_state := GAME_TURN, gs_turn_timeout := a\<rparr>)"

lemma after_shot_simps [simp]:
  "gs_state (after_shot p gs) = gs_state gs" "gs_cur (after_shot p gs) = gs_cur gs"
  "gs_players (after_shot p gs) = gs_players gs" "\<not> has_last_shot (after_shot p gs)"
  by (simp_all add: after_shot_def clear_last_shot_def has_last_shot_def point_neq_iff)

lemma enemy_field_after:
  assumes "session_ok gs"
  shows "enemy_field (after_shot p gs) = snd (register_shot (enemy_field gs) p)"
proof -
  obtain f g where "gs_fields gs = [f, g]" using assms by (auto simp: session_ok_def)
  moreover have "nat (get_enemy_idx (gs_cur gs)) = 0 \<or> nat (get_enemy_idx (gs_cur gs)) = 1"
    using assms get_enemy_idx_range [of "gs_cur gs"] by (auto simp: session_ok_def)
  ultimately show ?thesis
    unfolding enemy_field_def [of "after_shot p gs"] by (auto simp: after_shot_def clear_last_shot_def)
qed

lemma is_game_over_after:
  assumes "session_ok gs"
  shows "is_game_over (after_shot p gs) = Inr (all_ships_destroyed (snd (register_shot (enemy_field gs) p)))"
proof -
  have "0 \<le> get_enemy_idx (gs_cur gs)" "get_enemy_idx (gs_cur gs) < PLAYERS_COUNT"
    using assms get_enemy_idx_range [of "gs_cur gs"] by (auto simp: session_ok_def PLAYERS_COUNT_def)
  then have "field_at (after_shot p gs) (get_enemy_idx (gs_cur gs)) = Inr (enemy_field (after_shot p gs))"
    by (simp add: field_at_def enemy_field_def)
  then show ?thesis by (simp add: is_game_over_def enemy_field_after [OF assms])
qed

lemma shot_damaged_iff: "fst (register_shot f p) = CELL_DAMAGED \<longleftrightarrow> get_state f p = CELL_UNHARMED"
  by (cases rule: register_shot_cases [of f p]) auto

lemma same_cur: "gs_cur gs = i \<Longrightarrow> gs\<lparr>gs_cur := i\<rparr> = gs"
  by (cases gs) simp

lemma change_turn_sessions:
  assumes "s < length (sv_sessions sv)" "session_ok (sess sv s)" "gs_state (sess sv s) = PROCESS_TURN"
    "change_turn_player s sv = Inr sv'"
  shows "\<exists>p a. shot_at (sv_bound sv) (sv_rand sv) (sv_rand_pos sv) (sess sv s) = Some p
    \<and> sv_sessions sv' = (sv_sessions sv)[s := turn_result p (sess sv s) a]"
proof -
  let ?gs = "sess sv s"
  obtain r sv1 where r1: "register_last_shot s sv = Inr (r, sv1)" "rest_of_turn s r sv1 = Inr sv'"
    using assms(4) change_turn_player_rest [OF assms(3)] by (auto simp: rbind_Inr_iff)
  obtain p where p: "shot_at (sv_bound sv) (sv_rand sv) (sv_rand_pos sv) ?gs = Some p"
    "r = fst (register_shot (enemy_field ?gs) p)" "sv_sessions sv1 = (sv_sessions sv)[s := after_shot p ?gs]"
    using register_last_shot_sessions [OF assms(2)] r1(1) by (auto split: option.splits)
  obtain sv2 where r2: "send_fields s sv1 = Inr sv2"
    using r1(2) by (auto simp: rest_of_turn_def rbind_Inr_iff)
  have s2: "sv_sessions sv2 = (sv_sessions sv)[s := after_shot p ?gs]" using send_fields_sessions [OF r2] p(3) by simp
  then have g2: "sess sv2 s = after_shot p ?gs" "s < length (sv_sessions sv2)" using assms(1) by simp_all
  let ?over = "all_ships_destroyed (snd (register_shot (enemy_field ?gs) p))"
  have rest: "(if ?over then rbind (send_game_result s sv2) (\<lambda>sv3.
        Inr (snd (add_timeout_handler (mk_timeout EndGameTimeout WAIT_DURATION s) sv3)))
      else start_new_turn s (if r \<noteq> CELL_DAMAGED then mod_session s change_cur_turn_player_idx sv2 else sv2)) = Inr sv'"
    using r1(2) r2 is_game_over_after [OF assms(2), of p] by (simp add: rest_of_turn_def g2(1))
  show ?thesis
  proof (cases ?over)
    case True
    then have "sv_sessions sv' = sv_sessions sv2"
      using rest by (auto simp: rbind_Inr_iff dest!: game_result_sessions)
    then show ?thesis using p(1) s2 True by (auto simp: turn_result_def)
  next
    case False
    define sv3 where "sv3 = (if r \<noteq> CELL_DAMAGED then mod_session s change_cur_turn_player_idx sv2 else sv2)"
    have s3: "sv_sessions sv3 = (sv_sessions sv)[s := (after_shot p ?gs)\<lparr>gs_cur := (if get_state (enemy_field ?gs) p = CELL_UNHARMED
        then gs_cur ?gs else get_enemy_idx (gs_cur ?gs))\<rparr>]"
    proof (cases "r = CELL_DAMAGED")
      case True
      have cur: "(after_shot p ?gs)\<lparr>gs_cur := gs_cur ?gs\<rparr> = after_shot p ?gs"
        by (rule same_cur) simp
      show ?thesis using True p(2) s2 by (simp add: sv3_def shot_damaged_iff cur)
    next
      case False
      then show ?thesis
        using p(2) s2 g2 by (simp add: sv3_def mod_session_def shot_damaged_iff change_cur_turn_player_idx_def)
    qed
    have sl: "s < length (sv_sessions sv3)" using s3 assms(1) by simp
    have st: "gs_state (sess sv3 s) = PROCESS_TURN" using s3 assms(1,3) by simp
    have "start_new_turn s sv3 = Inr sv'" using rest False by (simp add: sv3_def)
    then obtain a where "sv_sessions sv' = (sv_sessions sv3)[s := (sess sv3 s)\<lparr>gs_state := GAME_TURN, gs_turn_timeout := Some a\<rparr>]"
      using start_new_turn_sessions [OF sl disjI2 [OF st]] by blast
    then have "sv_sessions sv' = (sv_sessions sv)[s := turn_result p ?gs (Some a)]"
      using s3 assms(1) False by (simp add: turn_result_def Let_def)
    then show ?thesis using p(1) by blast
  qed
qed

lemma change_turn_leads:
  assumes "s < length (sv_sessions sv)" "session_ok (sess sv s)" "change_turn_player s sv = Inr sv'"
  shows "only_session s (leads ChangeTurnTimeout) sv sv'"
proof (cases "gs_state (sess sv s) = PROCESS_TURN")
  case True
  obtain p a where e: "sv_sessions sv' = (sv_sessions sv)[s := turn_result p (sess sv s) a]"
    using change_turn_sessions [OF assms(1,2) True assms(3)] by blast
  show ?thesis
    by (rule only_sessionI [OF e assms(1)]) (use True in \<open>simp add: leads_def turn_result_def Let_def\<close>)
qed (use assms in \<open>auto simp: change_turn_player_def leads_def intro!: only_session_same\<close>)

section \<open>The events that make players leave\<close>

lemma kick_both:
  assumes "winv X {} sv" "s < length (sv_sessions sv)"
    "rfor [0, 1] (\<lambda>i sv. if b i sv then disconnect_client (gs_players (sess sv s) ! i) sv else Inr sv) sv = Inr sv'"
  shows "winv X {} sv'" "only_session s some_left sv sv'"
    "\<forall>i sv. b i sv \<Longrightarrow> get_players_count (sess sv' s) = 0"
proof -
  obtain sv1 where r: "(if b 0 sv then disconnect_client (gs_players (sess sv s) ! 0) sv else Inr sv) = Inr sv1"
    "(if b 1 sv1 then disconnect_client (gs_players (sess sv1 s) ! 1) sv1 else Inr sv1) = Inr sv'"
    using assms(3) by (auto simp: rbind_Inr_iff simp del: One_nat_def)
  note k1 = kick_step [OF assms(1,2) _ r(1)]
  have sl: "s < length (sv_sessions sv1)" using k1(2) assms(2) by (simp add: only_session_def)
  note k2 = kick_step [OF k1(1) sl _ r(2)]
  show "winv X {} sv'" using k2(1) by simp
  show "only_session s some_left sv sv'"
    using k1(2) k2(2) some_left_trans by (auto simp: only_session_def)
  show "get_players_count (sess sv' s) = 0" if "\<forall>i sv. b i sv"
  proof -
    obtain p q where "gs_players (sess sv s) = [p, q]"
      using inv_session [OF assms(1,2)] by (auto simp: session_ok_def)
    then have "gs_players (sess sv' s) = [None, None]"
      using k1(3) k2(3) that by (auto simp: leave_at_def split: if_splits)
    then show ?thesis by simp
  qed
qed

lemma end_game_leads:
  assumes "winv X {} sv" "s < length (sv_sessions sv)" "end_game s sv = Inr sv'"
  shows "only_session s (leads EndGameTimeout) sv sv'"
proof -
  have "rfor [0, 1] (\<lambda>i sv. if True then disconnect_client (gs_players (sess sv s) ! i) sv else Inr sv) sv = Inr sv'"
    using assms(3) by (simp add: end_game_def)
  note k = kick_both [OF assms(1,2) this]
  have sl: "s < length (sv_sessions sv')" using k(2) assms(2) by (simp add: only_session_def)
  have "gs_state (sess sv' s) = NO_VACANT_GAME"
    using inv_session [OF k(1) sl] k(3) by (auto simp: session_ok_def state_ok_def)
  then show ?thesis using k(2) by (simp add: only_session_def leads_def)
qed

lemma check_start_fields_leads:
  assumes "winv X {} sv" "s < length (sv_sessions sv)" "check_start_fields s sv = Inr sv'"
  shows "only_session s (leads CheckStartFieldsTimeout) sv sv'"
proof -
  let ?b = "\<lambda>i sv. gs_players (sess sv s) ! i \<noteq> None \<and> \<not> is_valid_start_field (gs_fields (sess sv s) ! i)"
  obtain sv1 where r: "rfor [0, 1] (\<lambda>i sv. if ?b i sv then disconnect_client (gs_players (sess sv s) ! i) sv else Inr sv) sv = Inr sv1"
    "(let players_count = get_players_count (sess sv1 s) in
           if players_count = PLAYERS_COUNT then
             rbind (send_start_fields s sv1) (\<lambda>sv2.
               Inr (snd (add_timeout_handler (mk_timeout GameStartTimeout WAIT_DURATION s) sv2)))
           else if players_count = 1 then
             send_game_state_for_all s (mod_session s (\<lambda>gs. gs\<lparr>gs_state := WAIT_PLAYER\<rparr>) sv1)
           else Inr sv1) = Inr sv'"
    using assms(3) by (simp add: check_start_fields_def rbind_Inr_iff del: rfor.simps) blast
  note k = kick_both [OF assms(1,2) r(1)]
  have sl: "s < length (sv_sessions sv1)" using k(2) assms(2) by (simp add: only_session_def)
  note ok = inv_session [OF k(1) sl]
  show ?thesis
  proof (cases "get_players_count (sess sv1 s) = PLAYERS_COUNT")
    case True
    then have "sv_sessions sv' = sv_sessions sv1"
      using r(2) by (auto simp: rbind_Inr_iff dest!: start_fields_sessions)
    moreover have "sess sv1 s = sess sv s"
      using k(2) True count_le_2 [OF inv_session [OF assms(1,2)]]
      by (auto simp: only_session_def some_left_def PLAYERS_COUNT_def)
    ultimately show ?thesis using k(2) by (simp add: only_session_def leads_def)
  next
    case False
    then have c: "get_players_count (sess sv1 s) < 2" using count_le_2 [OF ok] by (simp add: PLAYERS_COUNT_def)
    have "sv_sessions sv' = sv_sessions sv1 \<or> sv_sessions sv' = (sv_sessions sv1)[s := (sess sv1 s)\<lparr>gs_state := WAIT_PLAYER\<rparr>]"
      using r(2) False by (auto simp: Let_def mod_session_def split: if_splits dest!: send_state_sessions)
    then show ?thesis
      using k(2) few_players_state [OF ok c] sl by (auto simp: only_session_def leads_def)
  qed
qed

lemma timeout_event_leads:
  assumes "winv X {} sv" "to_session t < length (sv_sessions sv)" "timeout_event t sv = Inr sv'"
  shows "only_session (to_session t) (leads (to_kind t)) sv sv'"
  using assms stop_preparation_leads [of "to_session t" sv sv'] check_start_fields_leads [of X sv "to_session t" sv']
    start_game_leads [of "to_session t" sv sv'] end_turn_leads [of "to_session t" sv sv'] inv_session [OF assms(1,2)]
    change_turn_leads [of "to_session t" sv sv'] end_game_leads [of X sv "to_session t" sv']
  by (cases "to_kind t") (simp_all add: timeout_event_def)

end
