(* ===== verification/ServerTimeouts.thy ===== *)
theory ServerTimeouts
  imports ServerGame FieldTheorems
begin

text \<open>
  The loop over the timeout handlers ends. An event may add a handler to the list the loop takes them
  from, also one that elapses at once; but every event leads to a later stage of the game, and only a
  shot at a fresh cell, of which there are finitely many, leads back to a turn.
\<close>

section \<open>What an event adds to the list\<close>

definition agenda :: "Server \<Rightarrow> nat list \<times> (nat \<Rightarrow> Timeout option) \<times> GameField list list" where
  "agenda sv = (sv_timeouts sv, sv_handlers sv, map gs_fields (sv_sessions sv))"

definition steady :: "Server \<Rightarrow> Server res \<Rightarrow> bool" where
  "steady sv r \<longleftrightarrow> res_with UNIV (\<lambda>sv'. agenda sv' = agenda sv) r"

text \<open>At most one handler is added, and it is of one of these kinds.\<close>

definition adds :: "timeout_kind set \<Rightarrow> Server \<Rightarrow> Server \<Rightarrow> bool" where
  "adds K sv sv' \<longleftrightarrow> sv_timeouts sv' = sv_timeouts sv
     \<or> (\<exists>a t. sv_timeouts sv' = sv_timeouts sv @ [a] \<and> sv_handlers sv' a = Some t \<and> to_kind t \<in> K)"

definition plans :: "timeout_kind set \<Rightarrow> Server \<Rightarrow> Server res \<Rightarrow> bool" where
  "plans K sv r \<longleftrightarrow>
     res_with UNIV (\<lambda>sv'. adds K sv sv' \<and> map gs_fields (sv_sessions sv') = map gs_fields (sv_sessions sv)) r"

lemma steady_Inr [simp]: "steady sv (Inr sv') \<longleftrightarrow> agenda sv' = agenda sv"
  by (simp add: steady_def)

lemma steady_Inl [simp]: "steady sv (Inl e)"
  by (simp add: steady_def)

lemma steady_bind:
  "steady sv r \<Longrightarrow> (\<And>sv1. agenda sv1 = agenda sv \<Longrightarrow> steady sv1 (f sv1)) \<Longrightarrow> steady sv (rbind r f)"
  by (cases r) (auto simp: steady_def)

lemma steady_value: "(\<And>x. r = Inr x \<Longrightarrow> steady sv (f x)) \<Longrightarrow> steady sv (rbind r f)"
  by (cases r) simp_all

lemma steady_if: "(b \<Longrightarrow> steady sv r) \<Longrightarrow> (\<not> b \<Longrightarrow> steady sv r') \<Longrightarrow> steady sv (if b then r else r')"
  by simp

lemma steady_rfor: "(\<And>i sv. steady sv (f i sv)) \<Longrightarrow> steady sv (rfor is f sv)"
  by (induction "is" arbitrary: sv) (auto intro: steady_bind)

lemma steady_on_client: "steady sv (on_client p f sv)"
  by (simp add: on_client_def agenda_def split: option.split)

lemma steady_send_to: "steady sv (send_to s i m sv)"
  unfolding send_to_def by (rule steady_value) (rule steady_on_client)

lemma steady_send_for_all: "steady sv (send_for_all s m sv)" "steady sv (send_game_state_for_all s sv)"
  unfolding send_for_all_def send_game_state_for_all_def Let_def
  by (rule steady_rfor, simp add: steady_on_client)+

lemma agenda_mod [simp]: "gs_fields (f (sess sv s)) = gs_fields (sess sv s) \<Longrightarrow> agenda (mod_session s f sv) = agenda sv"
  by (cases "s < length (sv_sessions sv)")
    (simp_all add: agenda_def mod_session_def map_update list_update_same_conv list_update_beyond)

lemma agenda_simps [simp]:
  "agenda (sv\<lparr>sv_clients := cs\<rparr>) = agenda sv" "agenda (sv\<lparr>sv_rand_pos := k\<rparr>) = agenda sv"
  "agenda (sv\<lparr>sv_queue := q\<rparr>) = agenda sv" "agenda (sv\<lparr>sv_in_game := g\<rparr>) = agenda sv"
  by (simp_all add: agenda_def)

lemma steady_disconnect: "steady sv (disconnect_client p sv)"
proof -
  have "steady sv (disconnect_player s q sv)" for s q sv
    by (auto simp: disconnect_player_def Let_def steady_send_for_all)
  then have "steady sv (disconnect_from_game_session c sv)" for c
    by (auto simp: disconnect_from_game_session_def split: option.split intro!: steady_bind steady_on_client)
  then show ?thesis
    by (auto simp: disconnect_client_def split: option.split intro!: steady_bind)
qed

lemma steady_start_fields: "steady sv (send_start_fields s sv)"
  unfolding send_start_fields_def
  by (rule steady_if, simp, rule steady_rfor, rule steady_value, rule steady_value, rule steady_bind)
    (rule steady_send_to)+

lemma steady_send_fields: "steady sv (send_fields s sv)" "steady sv (send_game_result s sv)"
  unfolding send_fields_def send_game_result_def Let_def
  by (rule steady_value, rule steady_bind, (rule steady_send_to)+) (rule steady_bind, (rule steady_send_to)+)

lemma adds_agenda: "agenda sv1 = agenda sv \<Longrightarrow> adds K sv1 sv' = adds K sv sv'"
  by (simp add: adds_def agenda_def)

lemma plans_Inl [simp]: "plans K sv (Inl e)"
  by (simp add: plans_def)

lemma plans_same [simp]: "agenda sv' = agenda sv \<Longrightarrow> plans K sv (Inr sv')"
  by (simp add: plans_def adds_def agenda_def)

lemma plans_add [simp]: "to_kind t \<in> K \<Longrightarrow> plans K sv (Inr (snd (add_timeout_handler t sv)))"
  by (simp add: plans_def adds_def add_timeout_handler_def)

lemma plans_agenda: "agenda sv1 = agenda sv \<Longrightarrow> plans K sv1 r = plans K sv r"
proof -
  assume a: "agenda sv1 = agenda sv"
  then have "map gs_fields (sv_sessions sv1) = map gs_fields (sv_sessions sv)" by (simp add: agenda_def)
  then show ?thesis unfolding plans_def adds_agenda [OF a] by (rule arg_cong)
qed

lemma plans_bind:
  assumes "steady sv r" "\<And>sv1. agenda sv1 = agenda sv \<Longrightarrow> plans K sv1 (f sv1)"
  shows "plans K sv (rbind r f)"
proof (cases r)
  case (Inr sv1)
  then have a: "agenda sv1 = agenda sv" using assms(1) by simp
  show ?thesis using Inr assms(2) [OF a] plans_agenda [OF a] by simp
qed simp

lemma plans_then:
  assumes "plans K sv (Inr sv1)" "steady sv1 r"
  shows "plans K sv r"
proof (cases r)
  case (Inr sv2)
  then have "agenda sv2 = agenda sv1" using assms(2) by simp
  then have "sv_timeouts sv2 = sv_timeouts sv1" "sv_handlers sv2 = sv_handlers sv1"
    "map gs_fields (sv_sessions sv2) = map gs_fields (sv_sessions sv1)" by (simp_all add: agenda_def)
  then show ?thesis using assms(1) Inr by (simp add: plans_def adds_def)
qed simp

lemma plans_stop:
  assumes "plans K sv (Inr sv1)"
  shows "plans K sv (stop_handler a sv1)"
proof (cases "sv_handlers sv1 a")
  case (Some t)
  have "to_kind (th_stop t) = to_kind t" by (simp add: th_stop_def)
  then show ?thesis using assms Some by (auto simp: stop_handler_def plans_def adds_def)
qed (simp add: stop_handler_def)

lemma plans_mod: "plans K (mod_session s f sv) r \<Longrightarrow> (\<And>gs. gs_fields (f gs) = gs_fields gs) \<Longrightarrow> plans K sv r"
  using plans_agenda [of "mod_session s f sv" sv] by simp

lemma plans_stop_preparation: "plans {CheckStartFieldsTimeout} sv (stop_preparation s sv)"
proof (cases "gs_state (sess sv s) \<noteq> PREPARATION")
  case False
  let ?t = "mk_timeout CheckStartFieldsTimeout WAIT_DURATION s"
  let ?f = "\<lambda>gs. gs\<lparr>gs_state := WAIT_START\<rparr>"
  have "plans {CheckStartFieldsTimeout} (mod_session s ?f sv1) (Inr (snd (add_timeout_handler ?t (mod_session s ?f sv1))))" for sv1
    by (rule plans_add) (simp add: mk_timeout_def)
  then have "plans {CheckStartFieldsTimeout} sv1 (Inr (snd (add_timeout_handler ?t (mod_session s ?f sv1))))" for sv1
    by (rule plans_mod) simp
  then have "plans {CheckStartFieldsTimeout} sv1 (send_game_state_for_all s (snd (add_timeout_handler ?t (mod_session s ?f sv1))))" for sv1
    by (rule plans_then [OF _ steady_send_for_all(2)])
  then show ?thesis
    using False unfolding stop_preparation_def by simp (rule plans_bind [OF steady_send_for_all(1)])
qed (simp add: stop_preparation_def)

lemma plans_check_start_fields: "plans {GameStartTimeout} sv (check_start_fields s sv)"
  unfolding check_start_fields_def Let_def
proof (rule plans_bind)
  show "steady sv (rfor [0, 1] (\<lambda>i sv. if gs_players (sess sv s) ! i \<noteq> None \<and> \<not> is_valid_start_field (gs_fields (sess sv s) ! i)
      then disconnect_client (gs_players (sess sv s) ! i) sv else Inr sv) sv)"
    by (rule steady_rfor) (simp add: steady_disconnect)
  fix sv1 assume "agenda sv1 = agenda sv"
  have "plans {GameStartTimeout} sv1 (rbind (send_start_fields s sv1)
      (\<lambda>sv2. Inr (snd (add_timeout_handler (mk_timeout GameStartTimeout WAIT_DURATION s) sv2))))"
    by (rule plans_bind [OF steady_start_fields]) (simp add: mk_timeout_def)
  moreover have "plans {GameStartTimeout} sv1
      (send_game_state_for_all s (mod_session s (\<lambda>gs. gs\<lparr>gs_state := WAIT_PLAYER\<rparr>) sv1))"
    by (rule plans_then [OF plans_same steady_send_for_all(2)]) simp
  ultimately show "plans {GameStartTimeout} sv1
      (if get_players_count (sess sv1 s) = PLAYERS_COUNT
       then rbind (send_start_fields s sv1)
              (\<lambda>sv2. Inr (snd (add_timeout_handler (mk_timeout GameStartTimeout WAIT_DURATION s) sv2)))
       else if get_players_count (sess sv1 s) = 1
            then send_game_state_for_all s (mod_session s (\<lambda>gs. gs\<lparr>gs_state := WAIT_PLAYER\<rparr>) sv1)
            else Inr sv1)" by simp
qed

lemma plans_start_new_turn: "plans {GameTurnTimeout} sv (start_new_turn s sv)"
proof (cases "gs_state (sess sv s) \<noteq> WAIT_START \<and> gs_state (sess sv s) \<noteq> PROCESS_TURN")
  case False
  then have g: "(gs_state (sess sv s) \<noteq> WAIT_START \<and> gs_state (sess sv s) \<noteq> PROCESS_TURN) = False" by simp
  let ?f = "\<lambda>gs. gs\<lparr>gs_state := GAME_TURN\<rparr>"
  let ?sv1 = "mod_session s ?f sv" and ?t = "mk_timeout GameTurnTimeout TURN_DURATION s"
  define last where "last = (\<lambda>sv3. (let (a, sv4) = add_timeout_handler ?t sv3 in
    Inr (mod_session s (\<lambda>gs. gs\<lparr>gs_turn_timeout := Some a\<rparr>) sv4) :: Server res))"
  have m: "plans {GameTurnTimeout} sv3 (last sv3)" for sv3
    unfolding last_def split_beta Let_def
    by (rule plans_then [OF plans_add]) (simp_all add: mk_timeout_def)
  have eq: "start_new_turn s sv = rbind (send_to s (gs_cur (sess ?sv1 s)) (new_msg (StartTurnMsg (sv_clock sv + TURN_DURATION) True)) ?sv1)
      (\<lambda>sv2. rbind (send_to s (get_enemy_idx (gs_cur (sess ?sv1 s))) (new_msg (StartTurnMsg (sv_clock sv + TURN_DURATION) False)) sv2) last)"
    unfolding start_new_turn_def g if_False Let_def last_def mod_session_simps ..
  have "plans {GameTurnTimeout} ?sv1 (start_new_turn s sv)"
    unfolding eq by (intro plans_bind steady_send_to m)
  then show ?thesis by (rule plans_mod) simp
qed (simp add: start_new_turn_def)

lemma plans_start_game: "plans {GameTurnTimeout} sv (start_game s sv)"
proof (cases "gs_state (sess sv s) \<noteq> WAIT_START")
  case False
  let ?sv1 = "snd (rand_below 2 sv)"
  have a: "agenda ?sv1 = agenda sv" by (simp add: snd_rand_below)
  have "plans {GameTurnTimeout} ?sv1 (start_new_turn s (mod_session s (\<lambda>gs. gs\<lparr>gs_cur := fst (rand_below 2 sv)\<rparr>) ?sv1))"
    by (rule plans_mod [OF plans_start_new_turn]) simp
  then have "plans {GameTurnTimeout} ?sv1 (start_game s sv)"
    using False by (simp add: start_game_def split_beta)
  then show ?thesis unfolding plans_agenda [OF a] .
qed (simp add: start_game_def)

lemma plans_end_turn: "plans {ChangeTurnTimeout} sv (end_turn s sv)"
proof (cases "gs_state (sess sv s) \<noteq> GAME_TURN")
  case False
  then have g: "(gs_state (sess sv s) \<noteq> GAME_TURN) = False" by simp
  let ?sv1 = "mod_session s (\<lambda>gs. gs\<lparr>gs_state := PROCESS_TURN\<rparr>) sv"
  define rest where "rest = (\<lambda>sv4. case gs_turn_timeout (sess sv4 s) of
              None \<Rightarrow> Inr sv4
            | Some a \<Rightarrow> rbind (stop_handler a sv4) (\<lambda>sv5. Inr (mod_session s (\<lambda>gs. gs\<lparr>gs_turn_timeout := None\<rparr>) sv5)))"
  have r: "plans {ChangeTurnTimeout} sv (rest sv4)" if p: "plans {ChangeTurnTimeout} sv (Inr sv4)" for sv sv4
  proof (cases "gs_turn_timeout (sess sv4 s)")
    case None
    then show ?thesis using p by (simp add: rest_def)
  next
    case (Some a)
    have "plans {ChangeTurnTimeout} sv (Inr (mod_session s (\<lambda>gs. gs\<lparr>gs_turn_timeout := None\<rparr>) sv5))"
      if st: "stop_handler a sv4 = Inr sv5" for sv5
    proof (rule plans_then)
      show "plans {ChangeTurnTimeout} sv (Inr sv5)" using plans_stop [OF p, of a] unfolding st .
    qed simp
    then show ?thesis using Some by (cases "stop_handler a sv4") (simp_all add: rest_def)
  qed
  have eq: "end_turn s sv = rbind (send_to s (gs_cur (sess ?sv1 s)) (new_msg (StopTurnMsg True)) ?sv1) (\<lambda>sv2.
      rbind (send_to s (get_enemy_idx (gs_cur (sess ?sv1 s))) (new_msg (StopTurnMsg False)) sv2) (\<lambda>sv3.
      rest (snd (add_timeout_handler (mk_timeout ChangeTurnTimeout WAIT_DURATION s) sv3))))"
    unfolding end_turn_def g if_False Let_def rest_def ..
  have "plans {ChangeTurnTimeout} sv3 (rest (snd (add_timeout_handler (mk_timeout ChangeTurnTimeout WAIT_DURATION s) sv3)))" for sv3
    by (rule r, rule plans_add) (simp add: mk_timeout_def)
  then have "plans {ChangeTurnTimeout} ?sv1 (end_turn s sv)"
    unfolding eq by (intro plans_bind steady_send_to)
  then show ?thesis by (rule plans_mod) simp
qed (simp add: end_turn_def)

lemma plans_end_game: "plans {} sv (end_game s sv)"
proof -
  have "steady sv (end_game s sv)"
    unfolding end_game_def by (rule steady_rfor) (rule steady_disconnect)
  then show ?thesis by (rule plans_then [OF plans_same [OF refl]])
qed

section \<open>The change of a turn uses up a cell\<close>

definition fresh_cells :: "GameField \<Rightarrow> nat" where
  "fresh_cells f = card {p. fresh_cell f p}"

definition shots_left :: "Server \<Rightarrow> nat" where
  "shots_left sv = (\<Sum>fs \<leftarrow> map gs_fields (sv_sessions sv). \<Sum>f \<leftarrow> fs. fresh_cells f)"

lemma finite_fresh: "finite {p. fresh_cell f p}"
  by (rule finite_subset [OF _ finite_field]) (auto simp: fresh_cell_def)

lemma shot_uses_cell:
  assumes "wf_field f" "fresh_cell f p"
  shows "fresh_cells (snd (register_shot f p)) < fresh_cells f"
proof -
  let ?g = "snd (register_shot f p)"
  have "\<not> fresh_cell ?g p"
  proof (cases "get_state f p = CELL_UNHARMED")
    case True
    then have "p \<notin> unharmed ?g" using unharmed_shot [OF assms(1), of p] shot_result_iff [of f p] by (simp add: unharmed_def)
    then show ?thesis using True shot_state [OF assms(1), of p p] by (auto simp: fresh_cell_def unharmed_def)
  next
    case False
    then have "get_state f p = CELL_EMPTY" "field_contains p" using assms(2) by (auto simp: fresh_cell_def)
    then show ?thesis
      using assms(1) by (cases rule: register_shot_cases [of f p]) (auto simp: fresh_cell_def get_set_point)
  qed
  moreover have "fresh_cell f q" if "fresh_cell ?g q" for q
    using that shot_state [OF assms(1), of p q] by (auto simp: fresh_cell_def)
  ultimately have "{q. fresh_cell ?g q} \<subset> {q. fresh_cell f q}" using assms(2) by blast
  then show ?thesis unfolding fresh_cells_def by (rule psubset_card_mono [OF finite_fresh])
qed

lemma sum_list_less:
  fixes xs :: "nat list"
  shows "i < length xs \<Longrightarrow> n < xs ! i \<Longrightarrow> sum_list (xs[i := n]) < sum_list xs"
  using sum_list_update [of i xs n] elem_le_sum_list [of i xs] by simp

lemma after_shot_fields:
  assumes "session_ok gs" "fresh_cell (enemy_field gs) p"
  shows "(\<Sum>f \<leftarrow> gs_fields (after_shot p gs). fresh_cells f) < (\<Sum>f \<leftarrow> gs_fields gs. fresh_cells f)"
proof -
  obtain f g where fg: "gs_fields gs = [f, g]" "wf_field f" "wf_field g" using assms(1) by (auto simp: session_ok_def)
  let ?i = "nat (get_enemy_idx (gs_cur gs))"
  have i: "?i < length (gs_fields gs)"
    using fg assms(1) get_enemy_idx_range [of "gs_cur gs"] by (auto simp: session_ok_def)
  then have "wf_field (enemy_field gs)" using fg by (auto simp: enemy_field_def less_Suc_eq)
  then have "fresh_cells (snd (register_shot (enemy_field gs) p)) < map fresh_cells (gs_fields gs) ! ?i"
    using shot_uses_cell [OF _ assms(2)] i by (simp add: enemy_field_def)
  then show ?thesis
    using sum_list_less [of ?i "map fresh_cells (gs_fields gs)"] i
    by (simp add: after_shot_def clear_last_shot_def map_update)
qed

lemma register_last_shot_agenda:
  assumes "register_last_shot s sv = Inr (r, sv')"
  shows "sv_timeouts sv' = sv_timeouts sv \<and> sv_handlers sv' = sv_handlers sv"
  using assms unfolding register_last_shot_def Let_def
  by (auto simp: rbind_Inr_iff rand_below_def mod_session_def split: if_splits prod.splits dest!: shot_loop_rand)

lemma plans_mono: "plans K sv r \<Longrightarrow> K \<subseteq> K' \<Longrightarrow> plans K' sv r"
  unfolding plans_def by (erule res_with_mono) (auto simp: adds_def)

lemma plans_rest_of_turn: "plans {GameTurnTimeout, EndGameTimeout} sv (rest_of_turn s r sv)"
  unfolding rest_of_turn_def
proof (rule plans_bind [OF steady_send_fields(1)])
  fix sv2
  have e: "plans {GameTurnTimeout, EndGameTimeout} sv2 (rbind (send_game_result s sv2) (\<lambda>sv3.
      Inr (snd (add_timeout_handler (mk_timeout EndGameTimeout WAIT_DURATION s) sv3))))"
    by (rule plans_bind [OF steady_send_fields(2)]) (simp add: mk_timeout_def)
  have "plans {GameTurnTimeout} sv2 (start_new_turn s (mod_session s change_cur_turn_player_idx sv2))"
    by (rule plans_mod [OF plans_start_new_turn]) (simp add: change_cur_turn_player_idx_def)
  then have "plans {GameTurnTimeout} sv2 (start_new_turn s (if r \<noteq> CELL_DAMAGED then mod_session s change_cur_turn_player_idx sv2 else sv2))"
    using plans_start_new_turn by simp
  then have "plans {GameTurnTimeout, EndGameTimeout} sv2
      (start_new_turn s (if r \<noteq> CELL_DAMAGED then mod_session s change_cur_turn_player_idx sv2 else sv2))"
    by (rule plans_mono) simp
  then show "plans {GameTurnTimeout, EndGameTimeout} sv2 (rbind (is_game_over (sess sv2 s)) (\<lambda>over.
       if over then rbind (send_game_result s sv2) (\<lambda>sv3.
           Inr (snd (add_timeout_handler (mk_timeout EndGameTimeout WAIT_DURATION s) sv3)))
       else start_new_turn s (if r \<noteq> CELL_DAMAGED then mod_session s change_cur_turn_player_idx sv2 else sv2)))"
    using e by (cases "is_game_over (sess sv2 s)") simp_all
qed

text \<open>The fields lose a fresh cell, or nothing happens.\<close>

lemma change_turn_plans:
  assumes "s < length (sv_sessions sv)" "session_ok (sess sv s)" "change_turn_player s sv = Inr sv'"
  shows "sv' = sv \<or> adds {GameTurnTimeout, EndGameTimeout} sv sv' \<and> shots_left sv' < shots_left sv"
proof (cases "gs_state (sess sv s) = PROCESS_TURN")
  case True
  obtain r sv1 where r: "register_last_shot s sv = Inr (r, sv1)" "rest_of_turn s r sv1 = Inr sv'"
    using assms(3) change_turn_player_rest [OF True] by (auto simp: rbind_Inr_iff)
  obtain p where p: "shot_at (sv_bound sv) (sv_rand sv) (sv_rand_pos sv) (sess sv s) = Some p"
    "sv_sessions sv1 = (sv_sessions sv)[s := after_shot p (sess sv s)]"
    using register_last_shot_sessions [OF assms(2)] r(1) by (auto split: option.splits)
  have fresh: "fresh_cell (enemy_field (sess sv s)) p"
    using p(1) by (auto simp: shot_at_def find_Some_iff split: if_splits)
  have pl: "adds {GameTurnTimeout, EndGameTimeout} sv1 sv'" "map gs_fields (sv_sessions sv') = map gs_fields (sv_sessions sv1)"
    using plans_rest_of_turn [of sv1 s r] r(2) by (simp_all add: plans_def)
  have "adds {GameTurnTimeout, EndGameTimeout} sv sv'"
    using pl(1) register_last_shot_agenda [OF r(1)] by (simp add: adds_def)
  moreover have "shots_left sv' = shots_left sv1" by (simp only: shots_left_def pl(2))
  moreover have "shots_left sv1 < shots_left sv"
    unfolding shots_left_def p(2)
    using after_shot_fields [OF assms(2) fresh] assms(1)
      sum_list_less [of s "map (\<lambda>gs. \<Sum>f \<leftarrow> gs_fields gs. fresh_cells f) (sv_sessions sv)"]
    by (simp add: map_update comp_def)
  ultimately show ?thesis by simp
qed (use assms(3) in \<open>simp add: change_turn_player_def\<close>)

section \<open>The work that is left\<close>

fun stages :: "timeout_kind \<Rightarrow> nat" where
  "stages PreparationTimeout = 6"
| "stages CheckStartFieldsTimeout = 5"
| "stages GameStartTimeout = 4"
| "stages GameTurnTimeout = 3"
| "stages ChangeTurnTimeout = 2"
| "stages EndGameTimeout = 1"

definition stage_of :: "Server \<Rightarrow> nat \<Rightarrow> nat" where
  "stage_of sv a = (case sv_handlers sv a of None \<Rightarrow> 0 | Some t \<Rightarrow> stages (to_kind t))"

definition work :: "Server \<Rightarrow> nat" where
  "work sv = (\<Sum>a \<leftarrow> sv_timeouts sv. stage_of sv a) + 2 * shots_left sv"

lemma stages_pos [simp]: "0 < stages k"
  by (cases k) simp_all

lemma stages_le: "stages k \<le> 6"
  by (cases k) simp_all

lemma hext_stages:
  assumes "hext sv sv'" "\<forall>a \<in> set as. sv_handlers sv a \<noteq> None"
  shows "(\<Sum>a \<leftarrow> as. stage_of sv' a) = (\<Sum>a \<leftarrow> as. stage_of sv a)"
proof -
  have "stage_of sv' a = stage_of sv a" if a: "a \<in> set as" for a
  proof -
    obtain t where "sv_handlers sv a = Some t" using assms(2) a by blast
    then show ?thesis using hext_alive [OF assms(1)] by (fastforce simp: stage_of_def)
  qed
  then show ?thesis by (simp cong: map_cong)
qed

lemma adds_work:
  assumes "adds K sv sv'" "hext sv sv'" "\<forall>a \<in> set (sv_timeouts sv). sv_handlers sv a \<noteq> None" "\<forall>k \<in> K. stages k \<le> n"
  shows "work sv' \<le> (\<Sum>a \<leftarrow> sv_timeouts sv. stage_of sv a) + n + 2 * shots_left sv'"
  using assms(1,4) hext_stages [OF assms(2,3)] by (auto simp: adds_def work_def) (auto simp: stage_of_def)

lemma event_work:
  assumes "winv X {} sv" "to_session t < length (sv_sessions sv)" "timeout_event t sv = Inr sv'" "hext sv sv'"
  shows "work sv' < work sv + stages (to_kind t)"
proof -
  have al: "\<forall>a \<in> set (sv_timeouts sv). sv_handlers sv a \<noteq> None"
    using assms(1) by (simp add: winv_def core_inv_def handlers_ok_def)
  have less: "work sv' < work sv + stages (to_kind t)"
    if "plans K sv (timeout_event t sv)" "\<forall>k \<in> K. stages k \<le> stages (to_kind t) - 1" for K
  proof -
    have "adds K sv sv'" "shots_left sv' = shots_left sv" using that(1) assms(3) by (simp_all add: plans_def shots_left_def)
    then have "work sv' \<le> (\<Sum>a \<leftarrow> sv_timeouts sv. stage_of sv a) + (stages (to_kind t) - 1) + 2 * shots_left sv"
      using adds_work [OF _ assms(4) al that(2)] by simp
    then show ?thesis using stages_pos [of "to_kind t"] unfolding work_def [of sv] by linarith
  qed
  show ?thesis
  proof (cases "to_kind t")
    case ChangeTurnTimeout
    have "session_ok (sess sv (to_session t))" by (rule inv_session [OF assms(1,2)])
    moreover have "change_turn_player (to_session t) sv = Inr sv'" using assms(3) ChangeTurnTimeout by (simp add: timeout_event_def)
    ultimately have "sv' = sv \<or> adds {GameTurnTimeout, EndGameTimeout} sv sv' \<and> shots_left sv' < shots_left sv"
      using change_turn_plans [OF assms(2)] by blast
    then show ?thesis
      using adds_work [OF _ assms(4) al, of "{GameTurnTimeout, EndGameTimeout}" 3] ChangeTurnTimeout by (auto simp: work_def)
  qed (use less [of "{CheckStartFieldsTimeout}"] less [of "{GameStartTimeout}"] less [of "{GameTurnTimeout}"]
      less [of "{ChangeTurnTimeout}"] less [of "{}"] plans_stop_preparation plans_check_start_fields plans_start_game
      plans_end_turn plans_end_game in \<open>simp_all add: timeout_event_def\<close>)
qed

section \<open>The loop ends\<close>

text \<open>One handler: the work gets less whether its event happens or not.\<close>

lemma handler_work:
  assumes "winv {} {} sv" "sv_timeouts sv = a # as" "sv_handlers sv a = Some t"
    "th_process (fst passed) (snd passed) t = (fired, t1)"
    "sv1 = sv\<lparr>sv_timeouts := as, sv_handlers := (sv_handlers sv)(a := Some t1)\<rparr>"
    "(if fired then timeout_event t1 sv1 else Inr sv1) = Inr sv2" "hext sv1 sv2"
  shows "work sv2 < work sv"
proof -
  have t1: "to_kind t1 = to_kind t" "to_session t1 = to_session t"
    using th_process_frame [of "fst passed" "snd passed" t] assms(4) by simp_all
  have "stage_of sv1 b = stage_of sv b" for b using t1(1) assms(3) by (simp add: assms(5) stage_of_def)
  then have w: "work sv1 + stages (to_kind t) = work sv"
    using assms(2,3) by (simp add: work_def assms(5) shots_left_def) (simp add: stage_of_def)
  show ?thesis
  proof (cases fired)
    case True
    have "to_session t1 < length (sv_sessions sv1)"
      using assms(1,3) t1(2) by (auto simp: winv_def core_inv_def handlers_ok_def assms(5))
    then show ?thesis
      using event_work [OF handler_step(2) [OF assms(1-5)] _ _ assms(7), of t1] assms(6) True w t1(1) by simp
  next
    case False
    then show ?thesis using assms(6) w stages_pos [of "to_kind t"] by (simp del: stages_pos)
  qed
qed

lemma timeouts_loop_ends:
  assumes "winv {} {} sv" "distinct (tmp @ sv_timeouts sv)" "\<forall>a \<in> set tmp. sv_handlers sv a \<noteq> None" "work sv < n"
  shows "timeouts_loop n passed tmp sv \<noteq> Inl OutOfFuel"
  using assms
proof (induction n arbitrary: tmp sv)
  case (Suc n)
  show ?case
  proof (cases "sv_timeouts sv")
    case (Cons a as)
    obtain t where t: "sv_handlers sv a = Some t"
      using Suc.prems(1) Cons by (auto simp: winv_def core_inv_def handlers_ok_def)
    obtain fired t1 where p: "th_process (fst passed) (snd passed) t = (fired, t1)" by force
    define sv1 where "sv1 = sv\<lparr>sv_timeouts := as, sv_handlers := (sv_handlers sv)(a := Some t1)\<rparr>"
    note st = handler_step [OF Suc.prems(1) Cons t p sv1_def]
    have d1: "distinct ((tmp @ [a]) @ sv_timeouts sv1)" "\<forall>b \<in> set (tmp @ [a]). sv_handlers sv1 b \<noteq> None"
      using Suc.prems(2,3) Cons by (auto simp: sv1_def)
    show ?thesis
    proof (cases "if fired then timeout_event t1 sv1 else Inr sv1")
      case (Inl e)
      then have "e = Diverges" using st(1) by simp
      then show ?thesis unfolding timeouts_loop_step [OF Cons t p sv1_def] Inl by simp
    next
      case (Inr sv2)
      then have s2: "winv {} {} sv2" "hext sv1 sv2" using st(1) by simp_all
      note d2 = hext_distinct [OF s2(2) st(2) d1]
      obtain t2 where t2: "sv_handlers sv2 a = Some t2" using d2(2) by auto
      let ?sv3 = "sv2\<lparr>sv_handlers := (sv_handlers sv2)(a := None)\<rparr>"
      have w: "work sv2 < n" using handler_work [OF Suc.prems(1) Cons t p sv1_def Inr s2(2)] Suc.prems(4) by simp
      have a2: "a \<notin> set (sv_timeouts sv2)" using d2(1) by auto
      then have "(\<Sum>b \<leftarrow> sv_timeouts sv2. stage_of ?sv3 b) = (\<Sum>b \<leftarrow> sv_timeouts sv2. stage_of sv2 b)"
        by (intro arg_cong [of _ _ sum_list] map_cong) (auto simp: stage_of_def)
      then have w3: "work ?sv3 < n" using w unfolding work_def shots_left_def by simp
      have "timeouts_loop n passed (tmp @ [a]) sv2 \<noteq> Inl OutOfFuel" by (rule Suc.IH [OF s2(1) d2 w])
      moreover have "timeouts_loop n passed tmp ?sv3 \<noteq> Inl OutOfFuel" if "th_elapsed t2"
        using d2 a2 by (intro Suc.IH [OF winv_delete_handler [OF s2(1) t2 that a2] _ _ w3]) auto
      ultimately show ?thesis
        unfolding timeouts_loop_step [OF Cons t p sv1_def] Inr using t2 by simp
    qed
  qed simp
qed simp

lemma timeouts_loop_more:
  "timeouts_loop n passed tmp sv \<noteq> Inl OutOfFuel \<Longrightarrow> timeouts_loop (Suc n) passed tmp sv = timeouts_loop n passed tmp sv"
proof (induction n arbitrary: tmp sv)
  case (Suc n)
  show ?case
  proof (cases "sv_timeouts sv")
    case (Cons a as)
    show ?thesis
    proof (cases "sv_handlers sv a")
      case (Some t)
      obtain fired t1 where p: "th_process (fst passed) (snd passed) t = (fired, t1)" by force
      note step = timeouts_loop_step [OF Cons Some p refl]
      define sv1 where "sv1 = sv\<lparr>sv_timeouts := as, sv_handlers := (sv_handlers sv)(a := Some t1)\<rparr>"
      show ?thesis
      proof (cases "if fired then timeout_event t1 sv1 else Inr sv1")
        case (Inl e)
        then show ?thesis unfolding step sv1_def by simp
      next
        case (Inr sv2)
        show ?thesis
          using Suc.prems Suc.IH [of "tmp @ [a]" sv2] Suc.IH [of tmp "sv2\<lparr>sv_handlers := (sv_handlers sv2)(a := None)\<rparr>"]
          unfolding step Inr [unfolded sv1_def] by (simp del: timeouts_loop.simps split: option.splits if_splits)
      qed
    qed (use Cons in simp)
  qed simp
qed simp

text \<open>More fuel than there is work never changes the outcome.\<close>

lemma process_timeouts_ends:
  assumes "server_ok sv" "work sv < n"
  shows "process_timeouts n passed sv = process_timeouts (Suc (work sv)) passed sv"
    and "res_with {Diverges} server_ok (process_timeouts n passed sv)"
proof -
  have w: "winv {} {} sv" using assms(1) by (simp add: server_ok_def server_inv_winv)
  then have "distinct ([] @ sv_timeouts sv)" by (simp add: winv_def core_inv_def handlers_ok_def)
  from timeouts_loop_ends [OF w this, of n passed for n]
  have e: "timeouts_loop k passed [] sv \<noteq> Inl OutOfFuel" if "work sv < k" for k using that by simp
  have "timeouts_loop (Suc (work sv) + d) passed [] sv = timeouts_loop (Suc (work sv)) passed [] sv" for d
  proof (induction d)
    case (Suc d)
    then show ?case
      using timeouts_loop_more [of "Suc (work sv) + d" passed "[]" sv] e [of "Suc (work sv) + d"]
      by (simp del: timeouts_loop.simps)
  qed simp
  from this [of "n - Suc (work sv)"] assms(2)
  have "timeouts_loop n passed [] sv = timeouts_loop (Suc (work sv)) passed [] sv" by (simp del: timeouts_loop.simps)
  then show "process_timeouts n passed sv = process_timeouts (Suc (work sv)) passed sv"
    by (simp add: process_timeouts_def del: timeouts_loop.simps)
  have "process_timeouts n passed sv \<noteq> Inl OutOfFuel"
    using e [OF assms(2)] by (auto simp: process_timeouts_def rbind_Inl_iff simp del: timeouts_loop.simps)
  then show "res_with {Diverges} server_ok (process_timeouts n passed sv)"
    using process_timeouts_ok [OF assms(1), of n passed]
    by (cases "process_timeouts n passed sv") (auto simp: loop_faults_def)
qed

text \<open>The work is bounded by the number of handlers: at most five sessions have two fields of 100 cells each.\<close>

lemma fresh_cells_100: "fresh_cells f \<le> 100"
proof -
  let ?S = "(\<lambda>(x, y). Point x y) ` ({0..9} \<times> {0..9})"
  have "{p. fresh_cell f p} \<subseteq> ?S"
  proof
    fix p assume "p \<in> {p. fresh_cell f p}"
    then show "p \<in> ?S" by (cases p) (auto simp: fresh_cell_def field_contains_iff image_iff)
  qed
  then have "card {p. fresh_cell f p} \<le> card ?S" by (intro card_mono) simp_all
  also have "\<dots> \<le> card (({0..9} :: int set) \<times> ({0..9} :: int set))" by (intro card_image_le) simp
  also have "\<dots> = 100" by simp
  finally show ?thesis by (simp add: fresh_cells_def)
qed

lemma work_bound:
  assumes "server_ok sv"
  shows "work sv \<le> 6 * length (sv_timeouts sv) + 2000"
proof -
  have ok: "\<forall>gs \<in> set (sv_sessions sv). session_ok gs" "length (sv_sessions sv) \<le> 5"
    using assms by (simp_all add: server_ok_def server_inv_winv winv_def core_inv_def sessions_ok_def arrays_wf_def)
  have "stage_of sv a \<le> 6" for a
    by (cases "sv_handlers sv a") (simp_all add: stage_of_def stages_le)
  then have "(\<Sum>a \<leftarrow> as. stage_of sv a) \<le> 6 * length as" for as
    by (induction as) (auto intro: add_mono)
  from this [of "sv_timeouts sv"] have st: "(\<Sum>a \<leftarrow> sv_timeouts sv. stage_of sv a) \<le> 6 * length (sv_timeouts sv)" .
  have "(\<Sum>f \<leftarrow> gs_fields gs. fresh_cells f) \<le> 200" if so: "session_ok gs" for gs
  proof -
    obtain f g where "gs_fields gs = [f, g]" using so by (auto simp: session_ok_def)
    then show ?thesis using fresh_cells_100 [of f] fresh_cells_100 [of g] by simp
  qed
  then have "(\<Sum>fs \<leftarrow> map gs_fields gss. \<Sum>f \<leftarrow> fs. fresh_cells f) \<le> 200 * length gss"
    if "\<forall>gs \<in> set gss. session_ok gs" for gss
    using that by (induction gss) (auto intro: add_mono)
  then have "shots_left sv \<le> 200 * length (sv_sessions sv)" using ok(1) by (simp add: shots_left_def)
  then show ?thesis using st ok(2) unfolding work_def by linarith
qed

end
