(* ===== verification/ServerProps.thy ===== *)
theory ServerProps
  imports ServerTimeouts
begin

text \<open>
  The properties of the server: its invariant and the faults it cannot have, the descriptors it waits
  for, joining and leaving a game, the events of a game, the rules of a turn, and what a timeout that
  has outlived its game does.
\<close>

section \<open>Sample states\<close>

definition sample_player :: "int \<Rightarrow> ClientData" where
  "sample_player fd = mk_client\<lparr>cd_session := Some 0, cd_fd := fd\<rparr>"

definition sample_session :: "GameState \<Rightarrow> GameField \<Rightarrow> GameSession" where
  "sample_session st f = \<lparr>gs_state = st, gs_players = [Some 0, Some 1], gs_fields = [sample_field, f],
     gs_cur = 0, gs_last_shot = Point (-1) (-1), gs_turn_timeout = None\<rparr>"

definition sample_game :: "GameState \<Rightarrow> GameField \<Rightarrow> Server" where
  "sample_game st f = (mk_server 0 (\<lambda>n. n) 100)\<lparr>sv_clients := (\<lambda>_. None)(0 := Some (sample_player 4), 1 := Some (sample_player 5)),
     sv_next_client := 2, sv_sessions := [sample_session st f],
     sv_in_game := snd (ca_add (snd (ca_add (mk_client_array 10) (Some 0))) (Some 1))\<rparr>"

lemma room_10 [simp]: "\<not> is_full (mk_client_array 10)"
  by (simp add: mk_client_array_def is_full_def Let_def list_ex_iff)

lemma sample_in_game:
  "ca_wf (sv_in_game (sample_game st f)) \<and> ca_set (sv_in_game (sample_game st f)) = {0, 1}
    \<and> ca_size (sv_in_game (sample_game st f)) = 10"
proof -
  let ?ca = "snd (ca_add (mk_client_array 10) (Some 0))"
  note a1 = ca_add_spec [of "mk_client_array 10" 0, simplified]
  have "card (ca_set ?ca) < 10" using a1 by simp
  then have "\<not> is_full ?ca" using full_card [of ?ca] a1 by auto
  then show ?thesis using ca_add_spec [of ?ca 1] a1 by (auto simp: sample_game_def)
qed

lemma sample_game_inv:
  assumes "wf_field f" "playing st" "st \<noteq> GAME_TURN"
  shows "winv {} {} (sample_game st f)"
proof -
  let ?sv = "sample_game st f"
  have "session_ok (sample_session st f)"
    using assms(1,2) by (auto simp: session_ok_def sample_session_def state_ok_def playing_def get_players_count_def)
  then have "sessions_ok ?sv" by (simp add: sessions_ok_def sample_game_def)
  moreover have "links_ok ?sv"
    unfolding links_ok_def
  proof (intro allI)
    fix c s
    have "players_of (sess ?sv 0) = {0, 1}" by (auto simp: players_of_def sample_game_def sample_session_def)
    moreover have "length (sv_sessions ?sv) = 1" by (simp add: sample_game_def)
    moreover have "(\<exists>cl. sv_clients ?sv c = Some cl \<and> cd_session cl = Some s) \<longleftrightarrow> (c = 0 \<or> c = 1) \<and> s = 0"
      by (auto simp: sample_game_def sample_player_def)
    ultimately show "(\<exists>cl. sv_clients ?sv c = Some cl \<and> cd_session cl = Some s)
        \<longleftrightarrow> s < length (sv_sessions ?sv) \<and> c \<in> players_of (sess ?sv s)" by auto
  qed
  moreover have "arrays_wf ?sv"
    using sample_in_game [of st f]
    by (auto simp: arrays_wf_def sample_game_def mk_server_def CLIENT_QUEUE_LEN_def GAME_COUNT_def split: if_splits)
  moreover have "handlers_ok {} {} ?sv"
    using assms(3) by (simp add: handlers_ok_def sample_game_def mk_server_def turn_at_def sample_session_def)
  moreover have "arrays_ok ?sv"
    using sample_in_game [of st f]
    by (auto simp: arrays_ok_def with_session_def without_session_def sample_game_def sample_player_def mk_server_def)
  ultimately show ?thesis by (simp add: winv_def core_inv_def)
qed

lemma sample_game_ok: "wf_field f \<Longrightarrow> playing st \<Longrightarrow> st \<noteq> GAME_TURN \<Longrightarrow> server_ok (sample_game st f)"
  using sample_game_inv [of f st]
  by (auto simp: server_ok_def server_inv_winv mail_ok_def mail_def sample_game_def sample_player_def
    mk_client_def MsgBuffer_default_def)

lemma start_reachable: "server_reachable (mk_server clock r n)"
  by (rule reach_init) (auto simp: server_start_def)

section \<open>The invariant and the faults\<close>

text \<open>
  C1. Whatever the clients send and the operating system answers, every state the server reaches has
  its invariant: in each session the state fits the number of players, the two fields are complete and
  the players are different; clients and sessions refer to each other; the two client arrays hold
  exactly the clients with and without a session; every handler in the list is alive and names an
  existing session, and a turn under way has its handler; messages that wait are well formed.
\<close>

theorem server_invariant:
  assumes "server_reachable sv"
  shows "server_ok sv"
  by (rule sv_sys.reach_inv [OF assms])

definition sample_input :: SelectInput where
  "sample_input = \<lparr>si_result = 1, si_before = (10, 0), si_after = (10, 5), si_listen = True, si_accept = 4,
     si_readable = (\<lambda>_. False), si_writable = (\<lambda>_. False), si_read = (\<lambda>_ _. None), si_write = (\<lambda>_ _. 0), si_clock = 10\<rparr>"

theorem server_invariant_witness:
  "\<exists>sv. server_step (1, sample_input) (mk_server 0 (\<lambda>n. n) 100) = Inr sv \<and> sv_clients sv 0 \<noteq> None \<and> server_ok sv"
proof -
  have "ok_with (\<lambda>sv. case sv_clients sv 0 of None \<Rightarrow> False | Some cl \<Rightarrow> True)
      (server_step (1, sample_input) (mk_server 0 (\<lambda>n. n) 100))" by code_simp
  then obtain sv where sv: "server_step (1, sample_input) (mk_server 0 (\<lambda>n. n) 100) = Inr sv" "sv_clients sv 0 \<noteq> None"
    by (auto dest!: ok_withD split: option.splits)
  have "server_reachable sv" by (rule reach_step [OF start_reachable sv(1)])
  then show ?thesis using server_invariant [of sv] sv by blast
qed

text \<open>
  C15. No iteration of the main loop uses a null pointer, and the events of the timeouts have no fault
  at all but the endless search for a cell that has not been shot at, unless the fuel of their loop ends.
\<close>

theorem server_never_null:
  assumes "server_reachable sv"
  shows "server_step inp sv \<noteq> Inl NullDeref
    \<and> res_with {Diverges, OutOfFuel} server_ok (process_timeouts n passed sv)"
  using sv_sys.reach_no_fault [OF assms, of NullDeref inp] process_timeouts_ok [OF sv_sys.reach_inv [OF assms]]
  by (simp add: soft_faults_def loop_faults_def)

theorem server_never_null_witness:
  "server_step (1, sample_input) (mk_server 0 (\<lambda>n. n) 100) \<noteq> Inl NullDeref"
  using server_never_null [OF start_reachable] by blast

text \<open>
  C14. The loop over the timeout handlers ends, although the events add handlers to the list it takes
  them from, and also when the time that has passed lets the new ones elapse at once: with more fuel
  than six for every handler and 2000, four for every cell of the ten fields, the result does not
  depend on the fuel any more. Only the search for a random cell that has not been shot at may be
  endless.
\<close>

theorem timeouts_end:
  assumes "server_ok sv" "6 * length (sv_timeouts sv) + 2000 < n"
  shows "res_with {Diverges} server_ok (process_timeouts n passed sv)
    \<and> process_timeouts n passed sv = process_timeouts (6 * length (sv_timeouts sv) + 2001) passed sv"
proof -
  let ?m = "6 * length (sv_timeouts sv) + 2001"
  have w: "work sv < n" "work sv < ?m" using work_bound [OF assms(1)] assms(2) by simp_all
  show ?thesis
    using process_timeouts_ends [OF assms(1) w(1)] process_timeouts_ends(1) [OF assms(1) w(2)] by simp
qed

text \<open>A preparation that is over.\<close>

definition sample_preparation :: Server where
  "sample_preparation = snd (add_timeout_handler (mk_timeout PreparationTimeout 70 0) (sample_game PREPARATION sample_field))"

theorem timeouts_end_witness:
  "sv_timeouts sample_preparation = [0] \<and> res_with {Diverges} server_ok (process_timeouts 3000 (500, 0) sample_preparation)"
proof -
  have "server_ok (sample_game PREPARATION sample_field)" by (rule sample_game_ok) (simp_all add: playing_def)
  then have "server_ok sample_preparation"
    using inv_add_handler [of "{}" "{}" "sample_game PREPARATION sample_field" "mk_timeout PreparationTimeout 70 0"]
    by (simp add: sample_preparation_def server_ok_def server_inv_winv mail_ok_def mk_timeout_def) (simp add: sample_game_def)
  moreover have "sv_timeouts sample_preparation = [0]"
    by (simp add: sample_preparation_def add_timeout_handler_def sample_game_def mk_server_def)
  ultimately show ?thesis using conjunct1 [OF timeouts_end [of sample_preparation 3000 "(500, 0)"]] by simp
qed

text \<open>
  C16. The server waits for every client: the descriptors to read from are those of all clients, the
  ones to write to those of the clients with messages to send, unless a descriptor is too large for
  the sets. Though their indices are not bounded, the loops over the client arrays always end, also
  when clients leave or join a game on the way.
\<close>

theorem client_loops_end:
  assumes "server_reachable sv"
  shows "res_with {OutOfBounds} (\<lambda>(readfds, writefds).
      set readfds = {get_fd cl |c cl. sv_clients sv c = Some cl}
      \<and> set writefds = {get_fd cl |c cl. sv_clients sv c = Some cl \<and> ready_write cl}) (fill_fd_sets sv)
    \<and> process_fd_actions inp fds sv \<noteq> Inl Diverges"
proof -
  have "server_ok sv" by (rule sv_sys.reach_inv [OF assms])
  then show ?thesis
    using fill_fd_sets_result process_fd_actions_ok [of sv inp fds] by (auto simp: soft_faults_def)
qed

theorem client_loops_end_witness:
  "process_fd_actions sample_input ([], []) (mk_server 0 (\<lambda>n. n) 100) \<noteq> Inl Diverges"
  using client_loops_end [OF start_reachable] by blast

section \<open>Joining and leaving\<close>

text \<open>The session a new player gets: the first one with a vacant place, or a new one.\<close>

definition join_target :: "Server \<Rightarrow> nat option" where
  "join_target sv =
     (case find (\<lambda>s. is_vacant (sess sv s)) [0..<length (sv_sessions sv)] of
        Some s \<Rightarrow> Some s
      | None \<Rightarrow> if length (sv_sessions sv) < 5 then Some (length (sv_sessions sv)) else None)"

lemma set_game_session_iff:
  assumes "core_inv X S sv" "has_session sv c None" "s < length (sv_sessions sv)"
  shows "if is_vacant (sess sv s)
    then \<exists>sv'. set_game_session c (Some s) sv = Inr (True, sv') \<and> has_session sv' c (Some s)
    else set_game_session c (Some s) sv = Inr (False, sv)"
proof -
  obtain cl where cl: "sv_clients sv c = Some cl" "cd_session cl = None"
    using assms(2) by (auto simp: has_session_def)
  have "c \<notin> players_of (sess sv s)"
    using assms(1,3) cl unfolding core_inv_def links_ok_def by (metis option.distinct(1) option.inject)
  then have "\<not> has_player (sess sv s) (Some c)" by (auto simp: has_player_def players_of_def list_ex_iff)
  then show ?thesis
    using cl by (auto simp: set_game_session_def set_player_def Let_def on_client_def has_session_def)
qed

lemma join_walk_find:
  assumes "core_inv X S sv" "has_session sv c None" "\<forall>s \<in> set ss. s < length (sv_sessions sv)"
  shows "case find (\<lambda>s. is_vacant (sess sv s)) ss of
      None \<Rightarrow> join_walk c ss sv = Inr (False, sv)
    | Some s \<Rightarrow> \<exists>sv'. join_walk c ss sv = Inr (True, sv') \<and> has_session sv' c (Some s)"
  using assms(3)
proof (induction ss)
  case (Cons s ss)
  note g = set_game_session_iff [OF assms(1,2), of s]
  show ?case
  proof (cases "is_vacant (sess sv s)")
    case True
    then show ?thesis using g Cons.prems by auto
  next
    case False
    then have e: "join_walk c (s # ss) sv = join_walk c ss sv" using g Cons.prems by simp
    show ?thesis unfolding e using False Cons by simp
  qed
qed simp

lemma change_to_game_session:
  "has_session sv c x \<Longrightarrow> change_client_queue c True sv = Inr (ok, sv') \<Longrightarrow> has_session sv' c x"
  by (auto simp: change_client_queue_def has_session_def split: prod.splits if_splits)

text \<open>
  C12. A client without a session that asks for a game gets a place whenever there is one: in the first
  session with a vacant place, or in a new session while there are fewer than five; it moves from the
  queue to the players. Only with five full sessions it is refused, and nothing changes.
\<close>

theorem joining_finds_place:
  assumes "server_inv sv" "has_session sv c None"
  shows "ok_with (\<lambda>(ok, sv'). server_inv sv' \<and> (case join_target sv of
      None \<Rightarrow> \<not> ok \<and> sv' = sv
    | Some s \<Rightarrow> ok \<and> has_session sv' c (Some s) \<and> c \<in> ca_set (sv_in_game sv') \<and> c \<notin> ca_set (sv_queue sv')))
    (connect_player_to_game c sv)"
proof -
  obtain ok sv' where r: "connect_player_to_game c sv = Inr (ok, sv')" "server_inv sv'"
    "if ok then \<exists>s. has_session sv' c (Some s) else sv' = sv"
    using ok_withD [OF connect_player_result [OF assms]] by auto
  have ci: "core_inv {} {} sv" using assms(1) by (simp add: server_inv_winv winv_def)
  note w = join_walk_find [OF ci assms(2), of "[0..<length (sv_sessions sv)]"]
  have arr: "c \<in> ca_set (sv_in_game sv') \<and> c \<notin> ca_set (sv_queue sv')" if "has_session sv' c (Some s)" for s
    using r(2) that
    by (auto simp: server_inv_winv winv_def arrays_ok_def with_session_def without_session_def has_session_def)
  have took: "case join_target sv of None \<Rightarrow> \<not> ok \<and> sv' = sv
      | Some s \<Rightarrow> ok \<and> has_session sv' c (Some s)"
  proof (cases "find (\<lambda>s. is_vacant (sess sv s)) [0..<length (sv_sessions sv)]")
    case (Some s)
    then obtain sv1 where "join_walk c [0..<length (sv_sessions sv)] sv = Inr (True, sv1)" "has_session sv1 c (Some s)"
      using w by auto
    then have "has_session sv' c (Some s)"
      using r(1) by (simp add: connect_player_to_game_def change_to_game_session)
    then show ?thesis using Some r(3) assms(2) by (auto simp: join_target_def has_session_def split: if_splits)
  next
    case None
    then have j: "join_walk c [0..<length (sv_sessions sv)] sv = Inr (False, sv)" using w by auto
    show ?thesis
    proof (cases "length (sv_sessions sv) < 5")
      case False
      then have "length (sv_sessions sv) = 5" using ci by (simp add: core_inv_def arrays_wf_def)
      then show ?thesis using j r(1) None by (simp add: connect_player_to_game_def GAME_COUNT_def join_target_def)
    next
      case True
      let ?n = "length (sv_sessions sv)" and ?sv2 = "sv\<lparr>sv_sessions := sv_sessions sv @ [mk_session]\<rparr>"
      have "is_vacant (sess ?sv2 ?n)" by (simp add: is_vacant_def mk_session_def)
      then obtain sv3 where "set_game_session c (Some ?n) ?sv2 = Inr (True, sv3)" "has_session sv3 c (Some ?n)"
        using set_game_session_iff [OF core_inv_new_session [OF ci True], of c ?n] assms(2)
        by (auto simp: has_session_def)
      then have "has_session sv' c (Some ?n)"
        using r(1) j True by (simp add: connect_player_to_game_def GAME_COUNT_def change_to_game_session)
      then show ?thesis
        using None True r(3) assms(2) by (auto simp: join_target_def has_session_def split: if_splits)
    qed
  qed
  show ?thesis
    using r(1,2) took arr by (auto split: option.splits)
qed

text \<open>A client that waits beside a game of two.\<close>

definition sample_waiting :: Server where
  "sample_waiting = accept_new_connection sample_input (sample_game PREPARATION sample_field)"

lemma sample_waiting_inv: "server_inv sample_waiting \<and> has_session sample_waiting 2 None"
proof -
  have "server_ok (sample_game PREPARATION sample_field)" by (rule sample_game_ok) (simp_all add: playing_def)
  then have "server_inv sample_waiting"
    using accept_ok by (simp add: sample_waiting_def server_ok_def)
  moreover have "has_session sample_waiting 2 None"
    by (simp add: sample_waiting_def accept_new_connection_def Let_def sample_game_def sample_input_def
      has_session_def mk_server_def CLIENT_QUEUE_LEN_def set_fd_def mk_client_def)
  ultimately show ?thesis by blast
qed

theorem joining_finds_place_witness:
  "\<exists>sv'. connect_player_to_game 2 sample_waiting = Inr (True, sv') \<and> has_session sv' 2 (Some 1)"
proof -
  have "join_target sample_waiting = Some 1"
    by (simp add: join_target_def sample_waiting_def accept_new_connection_def Let_def sample_game_def
      sample_input_def mk_server_def CLIENT_QUEUE_LEN_def sample_session_def is_vacant_def)
  then show ?thesis
    using joining_finds_place [of sample_waiting 2] sample_waiting_inv by (auto dest!: ok_withD)
qed


text \<open>
  C28. A client that is disconnected is gone from the server: it is deleted and out of both arrays, the
  session it was in has one player less and waits for a player, or is empty, and every other session
  is what it was. No other client is told: not even the player it leaves behind gets a message.
\<close>

theorem leaving_is_silent:
  assumes "server_inv sv" "has_session sv c (Some s)"
  shows "ok_with (\<lambda>sv'. server_inv sv' \<and> sv_clients sv' = (sv_clients sv)(c := None)
      \<and> c \<notin> ca_set (sv_in_game sv') \<union> ca_set (sv_queue sv')
      \<and> gs_state (sess sv' s) = (if get_players_count (sess sv s) = 2 then WAIT_PLAYER else NO_VACANT_GAME)
      \<and> (\<forall>t. t \<noteq> s \<longrightarrow> sess sv' t = sess sv t)) (disconnect_client (Some c) sv)"
proof -
  obtain cl where cl: "sv_clients sv c = Some cl" "cd_session cl = Some s"
    using assms(2) by (auto simp: has_session_def)
  have w: "winv {} {} sv" using assms(1) by (simp add: server_inv_winv)
  have sl: "s < length (sv_sessions sv)" by (rule session_valid [OF assms])
  have "arrays_but c sv" using w by (simp add: winv_def arrays_ok_but)
  from disconnect_client_keeps [OF inv_core [OF w] this cl(1)] show ?thesis
  proof (rule ok_with_mono)
    fix sv' assume k: "keeps {} {} sv sv' \<and> sv_clients sv' c = None
     \<and> (\<forall>d. d \<noteq> c \<longrightarrow> sv_clients sv' d = sv_clients sv d)
     \<and> ca_set (sv_in_game sv') = ca_set (sv_in_game sv) - {c} \<and> ca_set (sv_queue sv') = ca_set (sv_queue sv) - {c}
     \<and> sv_in_game sv' = ca_remove (sv_in_game sv) (Some c) \<and> sv_queue sv' = ca_remove (sv_queue sv) (Some c)
     \<and> (\<forall>t. cd_session cl \<noteq> Some t \<longrightarrow> sess sv' t = sess sv t)
     \<and> (\<forall>s. cd_session cl = Some s \<longrightarrow> get_players_count (sess sv' s) = get_players_count (sess sv s) - 1)"
    note w' = keepsD(1,3) [OF conjunct1 [OF k]]
    have cnt: "get_players_count (sess sv' s) = get_players_count (sess sv s) - 1" using k cl(2) by blast
    have ok: "session_ok (sess sv' s)" using inv_session [OF w'(1)] w'(2) sl by simp
    have "0 \<le> get_players_count (sess sv' s)" by (simp add: get_players_count_def)
    then have "get_players_count (sess sv s) = 2 \<or> get_players_count (sess sv s) = 1"
      using cnt count_le_2 [OF inv_session [OF w sl]] by auto
    then have "gs_state (sess sv' s) = (if get_players_count (sess sv s) = 2 then WAIT_PLAYER else NO_VACANT_GAME)"
      using cnt ok by (auto simp: session_ok_def state_ok_def)
    moreover have "sv_clients sv' = (sv_clients sv)(c := None)"
    proof
      fix d show "sv_clients sv' d = ((sv_clients sv)(c := None)) d"
        using k by (cases "d = c") simp_all
    qed
    moreover have "c \<notin> ca_set (sv_in_game sv') \<union> ca_set (sv_queue sv')" using k by blast
    moreover have "\<forall>t. t \<noteq> s \<longrightarrow> sess sv' t = sess sv t" using k cl(2) by simp
    ultimately show "server_inv sv' \<and> sv_clients sv' = (sv_clients sv)(c := None)
      \<and> c \<notin> ca_set (sv_in_game sv') \<union> ca_set (sv_queue sv')
      \<and> gs_state (sess sv' s) = (if get_players_count (sess sv s) = 2 then WAIT_PLAYER else NO_VACANT_GAME)
      \<and> (\<forall>t. t \<noteq> s \<longrightarrow> sess sv' t = sess sv t)"
      using w'(1) unfolding server_inv_winv by blast
  qed
qed

lemma sample_game_client: "i < 2 \<Longrightarrow> has_session (sample_game st f) i (Some 0)"
  by (auto simp: has_session_def sample_game_def sample_player_def less_2_cases_iff)

theorem leaving_is_silent_witness:
  "\<exists>sv'. disconnect_client (Some 0) (sample_game PREPARATION sample_field) = Inr sv'
    \<and> sv_clients sv' 1 = Some (sample_player 5) \<and> gs_state (sess sv' 0) = WAIT_PLAYER"
proof -
  have "server_inv (sample_game PREPARATION sample_field)"
    unfolding server_inv_winv by (rule sample_game_inv) (simp_all add: playing_def)
  from ok_withD [OF leaving_is_silent [OF this sample_game_client [of 0]]]
  show ?thesis by (auto simp: sample_game_def sample_session_def)
qed

section \<open>Moves and turns\<close>

text \<open>The move of a player that counts, and what it does to the session.\<close>

definition move_counts :: "nat \<Rightarrow> GameSession \<Rightarrow> bool" where
  "move_counts c gs \<longleftrightarrow> (gs_state gs = GAME_TURN \<or> gs_state gs = PROCESS_TURN)
     \<and> gs_players gs ! nat (gs_cur gs) = Some c \<and> \<not> has_last_shot gs"

definition after_move :: "Point \<Rightarrow> GameSession \<Rightarrow> GameSession" where
  "after_move p gs =
     (if gs_state gs = GAME_TURN then gs\<lparr>gs_last_shot := p, gs_state := PROCESS_TURN, gs_turn_timeout := None\<rparr>
      else gs\<lparr>gs_last_shot := p\<rparr>)"

lemma move_result:
  assumes "server_inv sv" "has_session sv c (Some s)"
  shows "\<exists>sv'. process_game_move_msg c p sv = Inr sv'
    \<and> (if move_counts c (sess sv s) then sv_sessions sv' = (sv_sessions sv)[s := after_move p (sess sv s)] else sv' = sv)"
proof -
  let ?gs = "sess sv s"
  have sl: "s < length (sv_sessions sv)" by (rule session_valid [OF assms])
  have so: "session_ok ?gs" using assms(1) sl by (simp add: server_inv_winv inv_session)
  have idx: "get_player_index ?gs (Some c) True = gs_cur ?gs \<longleftrightarrow> gs_players ?gs ! nat (gs_cur ?gs) = Some c"
  proof -
    obtain x y where xy: "gs_players ?gs = [x, y]" "x = y \<longrightarrow> x = None" and cur: "gs_cur ?gs = 0 \<or> gs_cur ?gs = 1"
      using so unfolding session_ok_def by blast
    then show ?thesis by (auto simp: get_player_index_def Let_def)
  qed
  show ?thesis
  proof (cases "move_counts c ?gs")
    case False
    then have "process_game_move_msg c p sv = Inr sv"
      using idx by (auto simp: process_game_move_msg_def session_of_eq [OF assms(2)] Let_def set_last_shot_def
        get_game_state_def move_counts_def)
    then show ?thesis using False by simp
  next
    case True
    let ?sv1 = "mod_session s (\<lambda>_. ?gs\<lparr>gs_last_shot := p\<rparr>) sv"
    have eq: "process_game_move_msg c p sv = end_turn s ?sv1"
      using True idx by (simp add: process_game_move_msg_def session_of_eq [OF assms(2)] Let_def set_last_shot_def
        get_game_state_def move_counts_def)
    have "session_ok (?gs\<lparr>gs_last_shot := p\<rparr>)"
      using so by (simp add: session_ok_def state_ok_def get_players_count_def)
    then have "winv {} {} ?sv1"
      using mod_session_inv [OF assms(1) sl] by (simp add: server_inv_winv)
    then have "res_with {} (\<lambda>sv'. True) (end_turn s ?sv1)"
      using sl by (intro res_with_mono [OF end_turn_keeps [of "{}" ?sv1 s "{}"]]) simp_all
    then obtain sv' where sv': "end_turn s ?sv1 = Inr sv'" by (cases "end_turn s ?sv1") auto
    have st1: "sess ?sv1 s = ?gs\<lparr>gs_last_shot := p\<rparr>" "s < length (sv_sessions ?sv1)" using sl by simp_all
    have "sv_sessions sv' = (sv_sessions sv)[s := after_move p ?gs]"
    proof (cases "gs_state ?gs = GAME_TURN")
      case gt: True
      then have "sv_sessions sv' = (sv_sessions ?sv1)[s := (sess ?sv1 s)\<lparr>gs_state := PROCESS_TURN, gs_turn_timeout := None\<rparr>]"
        using end_turn_sessions [OF st1(2) _ sv'] st1(1) by simp
      then show ?thesis using gt st1(1) by (simp add: mod_session_def after_move_def)
    next
      case nt: False
      then have "sv' = ?sv1" using sv' st1(1) by (simp add: end_turn_def)
      then show ?thesis using nt by (simp add: mod_session_def after_move_def)
    qed
    then show ?thesis using True eq sv' by simp
  qed
qed

text \<open>Moves of a player, handled one after the other.\<close>

fun handle_moves :: "nat \<Rightarrow> Point list \<Rightarrow> Server \<Rightarrow> Server res" where
  "handle_moves c [] sv = Inr sv"
| "handle_moves c (p # ps) sv = rbind (process_game_move_msg c p sv) (handle_moves c ps)"

text \<open>The cell noted after some moves: \<open>(-1, -1)\<close> is the mark for no cell.\<close>

fun noted :: "Point list \<Rightarrow> Point" where
  "noted [] = Point (-1) (-1)"
| "noted (p # ps) = (if p = Point (-1) (-1) then noted ps else p)"

definition after_moves :: "Point list \<Rightarrow> GameSession \<Rightarrow> GameSession" where
  "after_moves ps gs = (if ps = [] then gs else after_move (noted ps) gs)"

lemma has_last_shot_iff: "has_last_shot gs \<longleftrightarrow> gs_last_shot gs \<noteq> Point (-1) (-1)"
  by (simp add: has_last_shot_def point_neq_iff)

lemma move_result_inv:
  assumes "server_inv sv" "has_session sv c (Some s)" "process_game_move_msg c p sv = Inr sv'"
  shows "server_inv sv' \<and> has_session sv' c (Some s)"
proof -
  have "sv_clients sv c \<noteq> None" by (rule has_session_alive [OF assms(2)])
  from game_move_served [OF assms(1) this, of "{}" p] have i: "server_inv sv'"
    using assms(3) by (auto dest: served_inv)
  have sl: "s < length (sv_sessions sv)" by (rule session_valid [OF assms(1,2)])
  have links: "has_session sv d (Some t) \<longleftrightarrow> t < length (sv_sessions sv) \<and> d \<in> players_of (sess sv t)"
    if "server_inv sv" for sv d t
    using that by (simp add: server_inv_winv winv_def core_inv_def links_ok_def has_session_def)
  have "length (sv_sessions sv') = length (sv_sessions sv) \<and> gs_players (sess sv' s) = gs_players (sess sv s)"
    using move_result [OF assms(1,2), of p] assms(3) sl by (auto simp: after_move_def split: if_splits)
  then have "has_session sv' c (Some s)"
    using links [OF i] links [OF assms(1)] assms(2) by (simp add: players_of_def)
  with i show ?thesis by blast
qed

lemma moves_result:
  assumes "server_inv sv" "has_session sv c (Some s)"
  shows "\<exists>sv'. handle_moves c ps sv = Inr sv'
    \<and> (if move_counts c (sess sv s) then sv_sessions sv' = (sv_sessions sv)[s := after_moves ps (sess sv s)] else sv' = sv)"
  using assms
proof (induction ps arbitrary: sv)
  case Nil
  then show ?case by (simp add: after_moves_def)
next
  case (Cons p ps)
  obtain sv1 where sv1: "process_game_move_msg c p sv = Inr sv1"
    "if move_counts c (sess sv s) then sv_sessions sv1 = (sv_sessions sv)[s := after_move p (sess sv s)] else sv1 = sv"
    using move_result [OF Cons.prems, of p] by blast
  have sl: "s < length (sv_sessions sv)" by (rule session_valid [OF Cons.prems])
  note i1 = move_result_inv [OF Cons.prems sv1(1)]
  obtain sv' where sv': "handle_moves c ps sv1 = Inr sv'"
    "if move_counts c (sess sv1 s) then sv_sessions sv' = (sv_sessions sv1)[s := after_moves ps (sess sv1 s)] else sv' = sv1"
    using Cons.IH [of sv1] i1 by blast
  have run: "handle_moves c (p # ps) sv = Inr sv'" using sv1(1) sv'(1) by simp
  show ?case
  proof (cases "move_counts c (sess sv s)")
    case False
    then show ?thesis using run sv1(2) sv'(2) by simp
  next
    case True
    let ?gs = "sess sv s"
    have s1: "sv_sessions sv1 = (sv_sessions sv)[s := after_move p ?gs]" "sess sv1 s = after_move p ?gs"
      using True sv1(2) sl by simp_all
    have mc: "move_counts c (after_move p ?gs) \<longleftrightarrow> p = Point (-1) (-1)"
      using True by (auto simp: move_counts_def after_move_def has_last_shot_iff)
    have "sv_sessions sv' = (sv_sessions sv)[s := after_moves (p # ps) ?gs]"
    proof (cases "p = Point (-1) (-1)")
      case p: True
      have "after_moves ps (after_move p ?gs) = after_move (noted (p # ps)) ?gs"
        using p by (auto simp: after_moves_def after_move_def)
      then show ?thesis using sv'(2) mc p s1 by (simp add: after_moves_def)
    next
      case False
      then show ?thesis using sv'(2) mc s1 by (simp add: after_moves_def)
    qed
    then show ?thesis using run True by simp
  qed
qed

text \<open>
  C13. Which move of a player counts. Moves count only from the player whose turn it is, while the turn
  runs or is about to be processed and no cell is noted; otherwise none changes anything. The first
  move that counts ends a running turn. When several moves come, the cell noted is that of the
  first one that is not \<open>(-1, -1)\<close>: a move to this place passes for a move, but as it is also the mark
  for no cell the next move counts as well. In no case the handling of the moves has a fault.
\<close>

theorem first_move_counts:
  assumes "server_inv sv" "has_session sv c (Some s)"
  shows "ok_with (\<lambda>sv'.
      if (gs_state (sess sv s) = GAME_TURN \<or> gs_state (sess sv s) = PROCESS_TURN)
        \<and> gs_players (sess sv s) ! nat (gs_cur (sess sv s)) = Some c \<and> \<not> has_last_shot (sess sv s) \<and> ps \<noteq> []
      then sv_sessions sv' = (sv_sessions sv)[s := (if gs_state (sess sv s) = GAME_TURN
          then (sess sv s)\<lparr>gs_last_shot := noted ps, gs_state := PROCESS_TURN, gs_turn_timeout := None\<rparr>
          else (sess sv s)\<lparr>gs_last_shot := noted ps\<rparr>)]
      else sv' = sv) (handle_moves c ps sv)"
proof (cases ps)
  case (Cons p qs)
  then show ?thesis
    using moves_result [OF assms, of ps] unfolding move_counts_def after_moves_def after_move_def ok_with_def by auto
qed simp

theorem first_move_counts_witness:
  "\<exists>sv'. handle_moves 0 [Point (-1) (-1), Point 3 4, Point 5 6] (sample_game PROCESS_TURN sample_field) = Inr sv'
    \<and> gs_last_shot (sess sv' 0) = Point 3 4"
proof -
  have "server_inv (sample_game PROCESS_TURN sample_field)"
    unfolding server_inv_winv by (rule sample_game_inv) (simp_all add: playing_def)
  from ok_withD [OF first_move_counts [OF this sample_game_client [of 0], of "[Point (-1) (-1), Point 3 4, Point 5 6]"]]
  show ?thesis by (auto simp: sample_game_def sample_session_def has_last_shot_def point_neq_iff)
qed

lemma change_turn_ends:
  assumes "winv {} {} sv" "s < length (sv_sessions sv)" "gs_state (sess sv s) = PROCESS_TURN"
    "register_last_shot s sv = Inr (r, sv1)"
  shows "ok_with server_inv (change_turn_player s sv)"
proof -
  have k: "keeps {} {} sv sv1" "gs_state (sess sv1 s) = PROCESS_TURN"
    using register_last_shot_keeps [OF assms(1-3)] assms(4) by simp_all
  have "s < length (sv_sessions sv1)" using assms(2) keepsD(3) [OF k(1)] by simp
  note rest_of_turn_keeps [OF keepsD(1) [OF k(1)] this k(2), of "{}" r]
  then show ?thesis
    unfolding change_turn_player_rest [OF assms(3)] assms(4)
    by (cases "rest_of_turn s r sv1") (simp_all add: keeps_def server_inv_winv)
qed

text \<open>
  C11. The rules of a turn. The cell that is shot at is the one the player chose if a shot has an effect
  there, and the first fresh one among the random cells otherwise; the shot is registered on the field
  of the other player and forgotten. When all ships of that field are destroyed the turn does not go
  on; otherwise a new turn starts, with the same player after a hit and with the other one after a
  miss. Nothing else changes in any session. The change of the turn is endless exactly when no cell
  tried is fresh, and it has no other fault.
\<close>

theorem turn_rules:
  assumes "server_inv sv" "s < length (sv_sessions sv)" "gs_state (sess sv s) = PROCESS_TURN"
  shows "case shot_at (sv_bound sv) (sv_rand sv) (sv_rand_pos sv) (sess sv s) of
      None \<Rightarrow> change_turn_player s sv = Inl Diverges
    | Some p \<Rightarrow> fresh_cell (enemy_field (sess sv s)) p
        \<and> ok_with (\<lambda>sv'. server_inv sv' \<and> (\<exists>a. sv_sessions sv' = (sv_sessions sv)[s := turn_result p (sess sv s) a]))
            (change_turn_player s sv)"
proof (cases "shot_at (sv_bound sv) (sv_rand sv) (sv_rand_pos sv) (sess sv s)")
  case None
  have "session_ok (sess sv s)" using assms(1,2) by (simp add: server_inv_winv inv_session)
  then show ?thesis
    using None register_last_shot_sessions [of sv s] change_turn_player_rest [OF assms(3)] by simp
next
  case (Some p)
  have w: "winv {} {} sv" using assms(1) by (simp add: server_inv_winv)
  have so: "session_ok (sess sv s)" by (rule inv_session [OF w assms(2)])
  obtain r sv1 where "register_last_shot s sv = Inr (r, sv1)"
    using register_last_shot_sessions [OF so] Some by auto
  then obtain sv' where sv': "change_turn_player s sv = Inr sv'" "server_inv sv'"
    using ok_withD [OF change_turn_ends [OF w assms(2,3)]] by blast
  have "fresh_cell (enemy_field (sess sv s)) p"
    using Some by (auto simp: shot_at_def find_Some_iff split: if_splits)
  then show ?thesis
    using change_turn_sessions [OF assms(2) so assms(3) sv'(1)] Some sv' by auto
qed

theorem turn_rules_witness:
  "\<exists>sv' a. change_turn_player 0 (sample_game PROCESS_TURN sample_field) = Inr sv'
    \<and> sv_sessions sv' = [turn_result (Point 0 1) (sample_session PROCESS_TURN sample_field) a]"
proof -
  let ?sv = "sample_game PROCESS_TURN sample_field"
  have i: "server_inv ?sv"
    unfolding server_inv_winv by (rule sample_game_inv) (simp_all add: playing_def)
  have sm: "sess ?sv 0 = sample_session PROCESS_TURN sample_field"
    "sv_sessions ?sv = [sample_session PROCESS_TURN sample_field]"
    "gs_state (sample_session PROCESS_TURN sample_field) = PROCESS_TURN"
    by (simp_all add: sample_game_def sample_session_def)
  have "shot_at 100 (\<lambda>n. n) 0 (sample_session PROCESS_TURN sample_field) = Some (Point 0 1)" by code_simp
  then have "shot_at (sv_bound ?sv) (sv_rand ?sv) (sv_rand_pos ?sv) (sess ?sv 0) = Some (Point 0 1)"
    unfolding sm(1) by (simp add: sample_game_def mk_server_def)
  then show ?thesis
    using turn_rules [OF i, of 0] sm by (auto dest!: ok_withD)
qed

section \<open>Events\<close>

text \<open>
  C6. Every event of a timeout implements the abstract transition of its kind: it changes its own
  session only and leads from the state of the session to one the transition allows, so that an event
  that comes too late for a preparation, the start or a turn changes no state.
\<close>

theorem events_refine_transitions:
  assumes "server_inv sv" "to_session t < length (sv_sessions sv)"
  shows "res_with {Diverges} (\<lambda>sv'. server_inv sv'
      \<and> gs_state (sess sv' (to_session t)) \<in> event_target (to_kind t) (gs_state (sess sv (to_session t)))
      \<and> (\<forall>s. s \<noteq> to_session t \<longrightarrow> sess sv' s = sess sv s)) (timeout_event t sv)"
proof (cases "timeout_event t sv")
  case (Inl e)
  then show ?thesis
    using timeout_event_keeps [of "{}" sv t] assms by (simp add: server_inv_winv)
next
  case (Inr sv')
  have w: "winv {} {} sv" using assms(1) by (simp add: server_inv_winv)
  have "server_inv sv'"
    using timeout_event_keeps [OF w assms(2)] Inr by (simp add: keeps_def server_inv_winv)
  then show ?thesis
    using timeout_event_leads [OF w assms(2) Inr] Inr by (simp add: only_session_def leads_def)
qed

theorem events_refine_transitions_witness:
  "\<exists>sv'. timeout_event (mk_timeout PreparationTimeout 70 0) (sample_game PREPARATION sample_field) = Inr sv'
    \<and> gs_state (sess sv' 0) = WAIT_START"
proof -
  let ?sv = "sample_game PREPARATION sample_field" and ?t = "mk_timeout PreparationTimeout 70 0"
  have "server_inv ?sv" unfolding server_inv_winv by (rule sample_game_inv) (simp_all add: playing_def)
  moreover have "to_session ?t < length (sv_sessions ?sv)" by (simp add: mk_timeout_def sample_game_def)
  moreover have "to_kind ?t = PreparationTimeout" "to_session ?t = 0" "gs_state (sess ?sv 0) = PREPARATION"
    by (simp_all add: mk_timeout_def sample_game_def sample_session_def)
  moreover have "ok_with (\<lambda>_. True) (timeout_event ?t ?sv)" by code_simp
  ultimately show ?thesis
    using events_refine_transitions [of ?sv ?t] by (auto dest!: ok_withD)
qed

lemma disconnected_gone: "disconnect_client (Some c) sv = Inr sv' \<Longrightarrow> sv_clients sv' c = None"
  by (auto simp: disconnect_client_def rbind_Inr_iff)

lemma calm_gone:
  assumes "calm_res sv r" "r = Inr sv'" "sv_clients sv c = None"
  shows "sv_clients sv' c = None"
proof -
  have "mail sv' \<subseteq>\<^sub>m mail sv" using assms(1,2) by (simp add: calm_Inr calm_def)
  moreover have "mail sv c = None" using assms(3) by (simp add: mail_def)
  ultimately have "mail sv' c = None" unfolding map_le_def dom_def by (metis (mono_tags) mem_Collect_eq)
  then show ?thesis by (simp add: mail_def)
qed

lemma calm_check_rest: "calm_res sv
    (let players_count = get_players_count (sess sv s) in
           if players_count = PLAYERS_COUNT then
             rbind (send_start_fields s sv) (\<lambda>sv2.
               Inr (snd (add_timeout_handler (mk_timeout GameStartTimeout WAIT_DURATION s) sv2)))
           else if players_count = 1 then
             send_game_state_for_all s (mod_session s (\<lambda>gs. gs\<lparr>gs_state := WAIT_PLAYER\<rparr>) sv)
           else Inr sv)"
proof -
  have "calm_res sv (send_game_state_for_all s (mod_session s (\<lambda>gs. gs\<lparr>gs_state := WAIT_PLAYER\<rparr>) sv))"
    by (rule calm_start [OF _ calm_send_state]) simp
  then show ?thesis
    by (auto simp: Let_def calm_Inr intro!: calm_bind calm_start_fields calm_Inr_mail)
qed

text \<open>
  C29. The check of the starting fields does not look at the state of the session: when its timeout
  comes, every player without a valid field is disconnected, also when the session is in a new
  preparation with other players by then.
\<close>

theorem stale_check_disconnects:
  assumes "server_inv sv" "s < length (sv_sessions sv)" "i < 2" "gs_players (sess sv s) ! i = Some c"
    "\<not> is_valid_start_field (gs_fields (sess sv s) ! i)"
  shows "ok_with (\<lambda>sv'. sv_clients sv' c = None) (check_start_fields s sv)"
proof -
  let ?body = "\<lambda>(i::nat) sv. if gs_players (sess sv s) ! i \<noteq> None \<and> \<not> is_valid_start_field (gs_fields (sess sv s) ! i)
         then disconnect_client (gs_players (sess sv s) ! i) sv else Inr sv"
  have w: "winv {} {} sv" using assms(1) by (simp add: server_inv_winv)
  have "res_with {} (\<lambda>_. True) (check_start_fields s sv)"
    by (rule res_with_mono [OF check_start_fields_keeps [OF w assms(2)]]) simp_all
  then obtain sv' where sv': "check_start_fields s sv = Inr sv'" by (cases "check_start_fields s sv") auto
  obtain sv1 sv2 where r: "?body 0 sv = Inr sv1" "?body 1 sv1 = Inr sv2"
    and late: "sv_clients sv2 c = None \<Longrightarrow> sv_clients sv' c = None"
    using sv' calm_gone [OF calm_check_rest] unfolding check_start_fields_def
    by (auto simp: rbind_Inr_iff simp del: One_nat_def)
  note k1 = kick_step [OF w assms(2) _ r(1)]
  have "sv_clients sv2 c = None"
  proof (cases "i = 0")
    case True
    then have "sv_clients sv1 c = None" using r(1) assms(4,5) by (simp add: disconnected_gone)
    moreover have "calm_res sv1 (?body 1 sv1)" by (simp add: calm_disconnect calm_Inr)
    ultimately show ?thesis using calm_gone r(2) by blast
  next
    case False
    then have i: "i = 1" using assms(3) by simp
    obtain p q f g where pq: "gs_players (sess sv s) = [p, q]" "gs_fields (sess sv s) = [f, g]"
      using inv_session [OF w assms(2)] unfolding session_ok_def by blast
    have "sess sv1 s = sess sv s \<or> sess sv1 s = leave_at 0 (sess sv s)"
      using k1(3) r(1) by (auto split: if_splits)
    then have "gs_players (sess sv1 s) ! 1 = Some c" "\<not> is_valid_start_field (gs_fields (sess sv1 s) ! 1)"
      using assms(4,5) i pq by (auto simp: leave_at_def)
    then show ?thesis using r(2) by (simp add: disconnected_gone)
  qed
  then show ?thesis using late sv' by simp
qed

text \<open>Two players in a new preparation, the second one without a field yet.\<close>

theorem stale_check_disconnects_witness:
  "gs_state (sess (sample_game PREPARATION GameField_default) 0) = PREPARATION
    \<and> (\<exists>sv'. check_start_fields 0 (sample_game PREPARATION GameField_default) = Inr sv' \<and> sv_clients sv' 1 = None)"
proof -
  let ?sv = "sample_game PREPARATION GameField_default"
  have i: "server_inv ?sv"
    unfolding server_inv_winv by (rule sample_game_inv) (simp_all add: playing_def)
  have sm: "sess ?sv 0 = sample_session PREPARATION GameField_default" "length (sv_sessions ?sv) = 1"
    by (simp_all add: sample_game_def)
  have "\<not> is_valid_start_field GameField_default" by code_simp
  then have "ok_with (\<lambda>sv'. sv_clients sv' 1 = None) (check_start_fields 0 ?sv)"
    using stale_check_disconnects [OF i, of 0 1 1] sm by (simp add: sample_session_def)
  then show ?thesis using sm by (auto dest!: ok_withD simp: sample_session_def)
qed

end
