(* ===== verification/ClientServer.thy ===== *)
theory ClientServer
  imports MsgBuffer Delivery
begin

text \<open>
  The client process between the server and the interface (\<^verbatim>\<open>src/client/server/client_server.h\<close>,
  \<^verbatim>\<open>client_server.cpp\<close>): it forwards the messages of each side to the other, acknowledges the ones of
  the server and keeps its own until they are acknowledged. The messages for the server are addresses
  of a heap, as the queue and the delivery control share them; the other lists have their messages to
  themselves. What the operating system answers in an iteration of the main loop is a \<open>ClientInput\<close>:
  the \<open>k\<close>-th \<^verbatim>\<open>write\<close> of a loop answers the function of its descriptor at \<open>k\<close>; \<^verbatim>\<open>socket\<close> and
  \<^verbatim>\<open>connect\<close> have one answer in an iteration.
\<close>

section \<open>Data\<close>

record ClientServer =
  cs_server_fd :: int
  cs_connected :: bool
  cs_quit :: bool
  cs_buf_from_server :: MsgBuffer
  cs_buf_from_interface :: MsgBuffer
  cs_heap :: msg_heap
  cs_next_msg :: nat
  cs_to_interface :: "Message list"
  cs_to_server :: "nat list"
  cs_from_server :: "Message list"
  cs_from_interface :: "Message list"
  cs_interface_fd :: int
  cs_delivery :: MsgDeliveryControl
  cs_msg_num :: int

record ClientInput =
  ci_result :: int
  ci_readable :: "int \<Rightarrow> bool"
  ci_writable :: "int \<Rightarrow> bool"
  ci_read :: "int \<Rightarrow> nat \<Rightarrow> byte list option"
  ci_write :: "int \<Rightarrow> nat \<Rightarrow> int"
  ci_socket :: int
  ci_connect :: int
  ci_now :: int

definition mk_client_server :: "int \<Rightarrow> ClientServer" where
  "mk_client_server sock = \<lparr>cs_server_fd = sock, cs_connected = False, cs_quit = False,
     cs_buf_from_server = MsgBuffer_default, cs_buf_from_interface = MsgBuffer_default,
     cs_heap = (\<lambda>_. None), cs_next_msg = 0, cs_to_interface = [], cs_to_server = [],
     cs_from_server = [], cs_from_interface = [], cs_interface_fd = -1,
     cs_delivery = mk_delivery DEFAULT_RESEND_CNT DEFAULT_RESEND_TIME, cs_msg_num = START_REG_NUM\<rparr>"

definition set_interface_fd :: "int \<Rightarrow> ClientServer \<Rightarrow> ClientServer" where
  "set_interface_fd p_fd cs = cs\<lparr>cs_interface_fd := p_fd\<rparr>"

definition cs_stop :: "ClientServer \<Rightarrow> ClientServer" where
  "cs_stop cs = cs\<lparr>cs_quit := True\<rparr>"

definition get_max_fd :: "ClientServer \<Rightarrow> int" where
  "get_max_fd cs = (if cs_server_fd cs < cs_interface_fd cs then cs_interface_fd cs else cs_server_fd cs)"

definition cs_get_msg_num :: "int \<Rightarrow> int \<times> int" where
  "cs_get_msg_num msg_num = (msg_num, msg_num + 1)"

section \<open>Queues\<close>

text \<open>A message for the server, new on the heap.\<close>

definition redirect_to_server :: "Message \<Rightarrow> ClientServer \<Rightarrow> ClientServer" where
  "redirect_to_server m cs = cs\<lparr>cs_heap := (cs_heap cs)(cs_next_msg cs := Some m),
     cs_next_msg := Suc (cs_next_msg cs), cs_to_server := cs_to_server cs @ [cs_next_msg cs]\<rparr>"

definition redirect_to_interface :: "Message \<Rightarrow> ClientServer \<Rightarrow> ClientServer" where
  "redirect_to_interface m cs = cs\<lparr>cs_to_interface := cs_to_interface cs @ [m]\<rparr>"

definition cs_send_receipt :: "int \<Rightarrow> ClientServer \<Rightarrow> ClientServer" where
  "cs_send_receipt mid cs = redirect_to_server (new_receipt mid) cs"

definition send_server_conn_status :: "ClientServer \<Rightarrow> ClientServer" where
  "send_server_conn_status cs = redirect_to_interface (new_msg (ServerConnStatusMsg (cs_connected cs))) cs"

section \<open>The connection\<close>

definition create_socket :: "int \<Rightarrow> ClientServer \<Rightarrow> ClientServer" where
  "create_socket sock cs = cs\<lparr>cs_server_fd := sock\<rparr>"

definition on_broken_server_conn :: "int \<Rightarrow> ClientServer \<Rightarrow> ClientServer" where
  "on_broken_server_conn sock cs =
     send_server_conn_status ((create_socket sock cs)\<lparr>cs_connected := False\<rparr>)"

definition connect_to_server :: "int \<Rightarrow> ClientServer \<Rightarrow> bool \<times> ClientServer" where
  "connect_to_server ok cs =
     (if cs_connected cs then (True, cs)
      else if ok = -1 then (False, cs)
      else (True, cs\<lparr>cs_connected := True\<rparr>))"

definition process_server_conn_req_msg :: "int \<Rightarrow> ClientServer \<Rightarrow> ClientServer" where
  "process_server_conn_req_msg ok cs = send_server_conn_status (snd (connect_to_server ok cs))"

definition process_server_conn_status_req_msg :: "ClientServer \<Rightarrow> ClientServer" where
  "process_server_conn_status_req_msg cs = send_server_conn_status cs"

section \<open>Reading\<close>

text \<open>The loop that extracts every message of a buffer.\<close>

fun extract_all :: "nat \<Rightarrow> MsgBuffer \<Rightarrow> Message list \<Rightarrow> MsgBuffer \<times> Message list" where
  "extract_all 0 mb ms = (mb, ms)"
| "extract_all (Suc n) mb ms =
     (case mb_extract mb of
        (None, _) \<Rightarrow> (mb, ms)
      | (Some m, mb') \<Rightarrow> extract_all n mb' (ms @ [m]))"

definition read_msg_from_server :: "ClientInput \<Rightarrow> ClientServer \<Rightarrow> ClientServer res" where
  "read_msg_from_server inp cs =
     (if \<not> cs_connected cs then Inr cs
      else
        rbind (read_msg (cs_server_fd cs) (ci_read inp (cs_server_fd cs)) (cs_buf_from_server cs)) (\<lambda>(err, mb).
          if err = BUFF_OK then
            (let (mb', ms) = extract_all (Suc (length (mb_queue mb))) mb (cs_from_server cs)
             in Inr (cs\<lparr>cs_buf_from_server := mb', cs_from_server := ms\<rparr>))
          else
            (let cs1 = cs\<lparr>cs_buf_from_server := mb\<rparr> in
             if err = CONN_BROKEN then Inr (on_broken_server_conn (ci_socket inp) cs1) else Inr cs1)))"

definition read_msg_from_interface :: "ClientInput \<Rightarrow> ClientServer \<Rightarrow> ClientServer res" where
  "read_msg_from_interface inp cs =
     rbind (read_msg (cs_interface_fd cs) (ci_read inp (cs_interface_fd cs)) (cs_buf_from_interface cs)) (\<lambda>(err, mb).
       if err = BUFF_OK then
         (let (mb', ms) = extract_all (Suc (length (mb_queue mb))) mb (cs_from_interface cs)
          in Inr (cs\<lparr>cs_buf_from_interface := mb', cs_from_interface := ms\<rparr>))
       else
         (let cs1 = cs\<lparr>cs_buf_from_interface := mb\<rparr> in
          if err = CONN_BROKEN then Inr (cs1\<lparr>cs_quit := True\<rparr>) else Inr cs1))"

section \<open>Writing\<close>

text \<open>
  The loop that writes to the server: until the queue is empty or a write fails. The first component
  of the result has the bytes written, one entry for each message.
\<close>

fun cs_write_loop :: "int \<Rightarrow> (nat \<Rightarrow> int) \<Rightarrow> nat \<Rightarrow> nat list \<Rightarrow> ClientServer \<Rightarrow> (byte list list \<times> ClientServer) res" where
  "cs_write_loop now wr k [] cs = Inr ([], cs\<lparr>cs_to_server := []\<rparr>)"
| "cs_write_loop now wr k (a # q) cs =
     (case cs_heap cs a of
        None \<Rightarrow> Inl UseAfterFree
      | Some m \<Rightarrow>
          (let t = msg_type m in
           if t = INVALID_MSG \<or> t = UNDEFINED_MSG then
             cs_write_loop now wr k q (cs\<lparr>cs_heap := (cs_heap cs)(a := None)\<rparr>)
           else
             (let (num, msg_num') = (if msg_id m = NO_ID then cs_get_msg_num (cs_msg_num cs) else (msg_id m, cs_msg_num cs));
                  m' = m\<lparr>msg_id := num\<rparr>;
                  cs1 = cs\<lparr>cs_heap := (cs_heap cs)(a := Some m'), cs_msg_num := msg_num'\<rparr>;
                  msg_size = get_type_data_size t;
                  data = get_data m'
              in
              if wr k = msg_size then
                (let cs2 = (if t = RECEIPT_MSG then cs1\<lparr>cs_heap := (cs_heap cs1)(a := None)\<rparr>
                            else if \<not> under_control (cs_delivery cs1) (Some a)
                            then cs1\<lparr>cs_delivery := dc_add now (Some a) (cs_delivery cs1)\<rparr>
                            else cs1\<lparr>cs_delivery := dc_decrease now (Some a) (cs_delivery cs1)\<rparr>)
                 in rbind (cs_write_loop now wr (Suc k) q cs2) (\<lambda>(out, cs3). Inr (data # out, cs3)))
              else Inr ([], cs1\<lparr>cs_to_server := q @ [a]\<rparr>))))"

definition write_msg_to_server :: "ClientInput \<Rightarrow> ClientServer \<Rightarrow> (byte list list \<times> ClientServer) res" where
  "write_msg_to_server inp cs =
     (if \<not> cs_connected cs then Inr ([], cs)
      else
        rbind (cs_write_loop (ci_now inp) (ci_write inp (cs_server_fd cs)) 0 (cs_to_server cs) cs) (\<lambda>(out, cs1).
        rbind (resend (ci_now inp) (cs_to_server cs1) (cs_heap cs1) (cs_delivery cs1)) (\<lambda>(q, h, dc).
          Inr (out, cs1\<lparr>cs_to_server := q, cs_heap := h, cs_delivery := dc\<rparr>))))"

fun write_interface_loop :: "(nat \<Rightarrow> int) \<Rightarrow> nat \<Rightarrow> Message list \<Rightarrow> byte list list \<times> Message list" where
  "write_interface_loop wr k [] = ([], [])"
| "write_interface_loop wr k (m # ms) =
     (let data = get_data m; msg_size = get_type_data_size (msg_type m) in
      if wr k = msg_size then
        (let (out, rest) = write_interface_loop wr (Suc k) ms in (data # out, rest))
      else ([], ms @ [m]))"

definition write_msg_to_interface :: "ClientInput \<Rightarrow> ClientServer \<Rightarrow> byte list list \<times> ClientServer" where
  "write_msg_to_interface inp cs =
     (let (out, rest) = write_interface_loop (ci_write inp (cs_interface_fd cs)) 0 (cs_to_interface cs)
      in (out, cs\<lparr>cs_to_interface := rest\<rparr>))"

section \<open>Messages\<close>

definition cs_process_receipt_msg :: "int \<Rightarrow> ClientServer \<Rightarrow> ClientServer res" where
  "cs_process_receipt_msg req_msg_id cs =
     rbind (process_check (Some req_msg_id) (cs_heap cs) (cs_delivery cs))
       (\<lambda>(_, h, dc). Inr (cs\<lparr>cs_heap := h, cs_delivery := dc\<rparr>))"

definition process_server_msg :: "Message \<Rightarrow> ClientServer \<Rightarrow> ClientServer res" where
  "process_server_msg m cs =
     (if msg_type m = UNDEFINED_MSG \<or> msg_type m = INVALID_MSG then Inr cs
      else
        rbind (case msg_body m of
                 GameSessionReqMsg \<Rightarrow> Inr cs
               | ServerConnStatusReqMsg \<Rightarrow> Inr cs
               | GameMoveMsg _ \<Rightarrow> Inr cs
               | ServerConnReqMsg \<Rightarrow> Inr cs
               | GameStateMsg _ \<Rightarrow> Inr (redirect_to_interface m cs)
               | GameFieldMsg _ _ \<Rightarrow> Inr (redirect_to_interface m cs)
               | StartFieldReqMsg _ \<Rightarrow> Inr (redirect_to_interface m cs)
               | ServerConnStatusMsg _ \<Rightarrow> Inr (redirect_to_interface m cs)
               | StopPreparationMsg \<Rightarrow> Inr (redirect_to_interface m cs)
               | StartTurnMsg _ _ \<Rightarrow> Inr (redirect_to_interface m cs)
               | StopTurnMsg _ \<Rightarrow> Inr (redirect_to_interface m cs)
               | InfoMsg _ \<Rightarrow> Inr (redirect_to_interface m cs)
               | ErrorMsg _ \<Rightarrow> Inr (redirect_to_interface m cs)
               | ReceiptMsg mid \<Rightarrow> cs_process_receipt_msg mid cs)
          (\<lambda>cs1. if msg_type m \<noteq> RECEIPT_MSG then Inr (cs_send_receipt (msg_id m) cs1) else Inr cs1))"

fun server_msgs_loop :: "Message list \<Rightarrow> ClientServer \<Rightarrow> ClientServer res" where
  "server_msgs_loop [] cs = Inr (cs\<lparr>cs_from_server := []\<rparr>)"
| "server_msgs_loop (m # ms) cs = rbind (process_server_msg m (cs\<lparr>cs_from_server := ms\<rparr>)) (server_msgs_loop ms)"

definition process_msg_from_server :: "ClientServer \<Rightarrow> ClientServer res" where
  "process_msg_from_server cs = server_msgs_loop (cs_from_server cs) cs"

definition process_interface_cmd :: "int \<Rightarrow> Message \<Rightarrow> ClientServer \<Rightarrow> ClientServer" where
  "process_interface_cmd ok m cs =
     (case msg_body m of
        GameSessionReqMsg \<Rightarrow> redirect_to_server m cs
      | GameFieldMsg _ _ \<Rightarrow> redirect_to_server m cs
      | GameMoveMsg _ \<Rightarrow> redirect_to_server m cs
      | ServerConnStatusReqMsg \<Rightarrow> process_server_conn_status_req_msg cs
      | ServerConnReqMsg \<Rightarrow> process_server_conn_req_msg ok cs
      | _ \<Rightarrow> cs)"

fun interface_cmds_loop :: "int \<Rightarrow> Message list \<Rightarrow> ClientServer \<Rightarrow> ClientServer" where
  "interface_cmds_loop ok [] cs = cs\<lparr>cs_from_interface := []\<rparr>"
| "interface_cmds_loop ok (m # ms) cs =
     interface_cmds_loop ok ms (process_interface_cmd ok m (cs\<lparr>cs_from_interface := ms\<rparr>))"

definition process_cmd_from_interface :: "ClientInput \<Rightarrow> ClientServer \<Rightarrow> ClientServer" where
  "process_cmd_from_interface inp cs = interface_cmds_loop (ci_connect inp) (cs_from_interface cs) cs"

section \<open>The main loop\<close>

text \<open>The macros \<^verbatim>\<open>FD_SET\<close> and \<^verbatim>\<open>FD_ISSET\<close> with the bounds of the set.\<close>

definition cs_fd_set :: "int \<Rightarrow> int set \<Rightarrow> int set res" where
  "cs_fd_set fd fds = (if fd < 0 \<or> fd \<ge> FD_SETSIZE then Inl OutOfBounds else Inr (insert fd fds))"

definition cs_fd_isset :: "int \<Rightarrow> (int \<Rightarrow> bool) \<Rightarrow> int set \<Rightarrow> bool res" where
  "cs_fd_isset fd ready fds = (if fd < 0 \<or> fd \<ge> FD_SETSIZE then Inl OutOfBounds else Inr (fd \<in> fds \<and> ready fd))"

definition cs_fill_fd_sets :: "ClientServer \<Rightarrow> (int set \<times> int set) res" where
  "cs_fill_fd_sets cs =
     rbind (cs_fd_set (cs_interface_fd cs) {}) (\<lambda>readfds.
     rbind (if cs_connected cs then
              rbind (cs_fd_set (cs_server_fd cs) readfds) (\<lambda>readfds1.
              rbind (if length (cs_to_server cs) \<noteq> 0 then cs_fd_set (cs_server_fd cs) {} else Inr {}) (\<lambda>writefds.
              Inr (readfds1, writefds)))
            else Inr (readfds, {}))
       (\<lambda>(readfds2, writefds).
     rbind (if length (cs_to_interface cs) \<noteq> 0 then cs_fd_set (cs_interface_fd cs) writefds else Inr writefds)
       (\<lambda>writefds1. Inr (readfds2, writefds1))))"

text \<open>The result has the bytes written to the server and to the interface.\<close>

definition cs_process_fd_actions :: "ClientInput \<Rightarrow> int set \<times> int set \<Rightarrow> ClientServer
    \<Rightarrow> (byte list list \<times> byte list list \<times> ClientServer) res" where
  "cs_process_fd_actions inp fds cs =
     rbind (if cs_connected cs then
              rbind (cs_fd_isset (cs_server_fd cs) (ci_readable inp) (fst fds)) (\<lambda>readable.
              rbind (if readable then read_msg_from_server inp cs else Inr cs) (\<lambda>cs1.
              rbind (process_msg_from_server cs1) (\<lambda>cs2.
              rbind (cs_fd_isset (cs_server_fd cs2) (ci_writable inp) (snd fds)) (\<lambda>writable.
              if writable then write_msg_to_server inp cs2 else Inr ([], cs2)))))
            else Inr ([], cs))
       (\<lambda>(to_server, cs3).
     rbind (cs_fd_isset (cs_interface_fd cs3) (ci_readable inp) (fst fds)) (\<lambda>readable.
     rbind (if readable then read_msg_from_interface inp cs3 else Inr cs3) (\<lambda>cs4.
     rbind (Inr (process_cmd_from_interface inp cs4)) (\<lambda>cs5.
     rbind (cs_fd_isset (cs_interface_fd cs5) (ci_writable inp) (snd fds)) (\<lambda>writable.
     (let (to_interface, cs6) = (if writable then write_msg_to_interface inp cs5 else ([], cs5))
      in Inr (to_server, to_interface, cs6)))))))"

definition cs_process_select_result :: "ClientInput \<Rightarrow> int set \<times> int set \<Rightarrow> ClientServer
    \<Rightarrow> (byte list list \<times> byte list list \<times> ClientServer) res" where
  "cs_process_select_result inp fds cs =
     (if ci_result inp = -1 then Inr ([], [], cs) else cs_process_fd_actions inp fds cs)"

definition cs_run_iteration :: "ClientInput \<Rightarrow> ClientServer \<Rightarrow> (byte list list \<times> byte list list \<times> ClientServer) res" where
  "cs_run_iteration inp cs = rbind (cs_fill_fd_sets cs) (\<lambda>fds. cs_process_select_result inp fds cs)"

section \<open>Extracting\<close>

lemma extract_all_queue:
  "length (mb_queue mb) < n \<Longrightarrow> extract_all n mb ms = (mb\<lparr>mb_queue := []\<rparr>, ms @ mb_queue mb)"
proof (induction n arbitrary: mb ms)
  case (Suc n)
  show ?case
  proof (cases "mb_queue mb")
    case Nil
    then show ?thesis by (cases mb) (simp add: mb_extract_def ready_to_extract_def)
  next
    case (Cons m q)
    then show ?thesis using Suc.IH [of "mb\<lparr>mb_queue := q\<rparr>" "ms @ [m]"] Suc.prems
      by (simp add: mb_extract_def ready_to_extract_def)
  qed
qed simp

end
