(* ===== verification/ClientControl.thy ===== *)
theory ClientControl
  imports ClientServer ClientFaults
begin

text \<open>
  The messages of the client process that wait for a receipt: its writing to the server is the
  writing of a client of the server under a change of the state, and the operations that queue,
  acknowledge and pass on messages keep the invariant of its state.
\<close>

section \<open>Writing as a client of the server\<close>

definition as_client :: "ClientServer \<Rightarrow> ClientData" where
  "as_client cs = \<lparr>cd_session = None, cd_fd = cs_server_fd cs, cd_buf = cs_buf_from_server cs,
     cd_heap = cs_heap cs, cd_next_msg = cs_next_msg cs, cd_to_send = cs_to_server cs,
     cd_to_process = cs_from_server cs, cd_delivery = cs_delivery cs\<rparr>"

definition with_client :: "ClientServer \<Rightarrow> int \<Rightarrow> ClientData \<Rightarrow> ClientServer" where
  "with_client cs n cl = cs\<lparr>cs_heap := cd_heap cl, cs_to_server := cd_to_send cl,
     cs_delivery := cd_delivery cl, cs_msg_num := n\<rparr>"

lemma as_client_sel [simp]:
  "cd_heap (as_client cs) = cs_heap cs" "cd_delivery (as_client cs) = cs_delivery cs"
  "cd_to_send (as_client cs) = cs_to_server cs" "cd_fd (as_client cs) = cs_server_fd cs"
  by (simp_all add: as_client_def)

lemma with_client_update [simp]:
  "with_client (cs\<lparr>cs_heap := h\<rparr>) n cl = with_client cs n cl"
  "with_client (cs\<lparr>cs_msg_num := k\<rparr>) n cl = with_client cs n cl"
  "with_client (cs\<lparr>cs_delivery := dc\<rparr>) n cl = with_client cs n cl"
  by (simp_all add: with_client_def)

lemma as_client_update:
  "as_client (cs\<lparr>cs_heap := h\<rparr>) = (as_client cs)\<lparr>cd_heap := h\<rparr>"
  "as_client (cs\<lparr>cs_msg_num := k\<rparr>) = as_client cs"
  "as_client (cs\<lparr>cs_delivery := dc\<rparr>) = (as_client cs)\<lparr>cd_delivery := dc\<rparr>"
  by (simp_all add: as_client_def)

lemma get_msg_num_eq: "cs_get_msg_num n = get_msg_num n"
  by (simp add: cs_get_msg_num_def get_msg_num_def)

lemma cs_write_loop_eq:
  "cs_write_loop now wr k q cs = rbind (write_loop now wr k q (cs_msg_num cs) (as_client cs))
     (\<lambda>(out, n, cl). Inr (out, with_client cs n cl))"
proof (induction q arbitrary: k cs)
  case Nil
  then show ?case by (simp add: with_client_def as_client_def)
next
  case (Cons a q)
  show ?case
  proof (cases "cs_heap cs a")
    case (Some m)
    show ?thesis
    proof (cases "wr k = get_type_data_size (msg_type m)")
      case True
      have "rbind (rbind r (\<lambda>(out, n, cl). Inr (out, with_client cs' n cl))) (\<lambda>(out, cs3). Inr (b # out, cs3))
        = rbind (rbind r (\<lambda>(out, n, cl3). Inr (b # out, n, cl3))) (\<lambda>(out, n, cl). Inr (out, with_client cs' n cl))"
        for r cs' and b :: "byte list"
        by (cases r) (auto split: prod.split)
      then show ?thesis
        using Some True by (simp add: Let_def as_client_update get_msg_num_eq Cons.IH split: prod.split)
    next
      case False
      then show ?thesis
        using Some by (simp add: Let_def as_client_update get_msg_num_eq with_client_def split: prod.split)
    qed
  qed simp
qed

lemma write_msg_to_server_eq:
  assumes "cs_connected cs" "cs_server_fd cs \<noteq> -1"
  shows "write_msg_to_server inp cs
    = rbind (write_msg (ci_now inp) (ci_write inp (cs_server_fd cs)) (cs_msg_num cs) (as_client cs))
        (\<lambda>(out, n, cl). Inr (out, with_client cs n cl))"
proof -
  let ?r = "write_loop (ci_now inp) (ci_write inp (cs_server_fd cs)) 0 (cs_to_server cs) (cs_msg_num cs) (as_client cs)"
  show ?thesis
    using assms by (cases ?r) (auto simp: write_msg_to_server_def write_msg_def cs_write_loop_eq with_client_def
      rbind_assoc split: prod.split intro!: arg_cong2 [of _ _ _ _ rbind])
qed

section \<open>Messages under control\<close>

text \<open>
  The weaker invariant inside the loop that writes: a message may have used up its attempts. No
  receipt is ever under control, so that none is deleted while it is.
\<close>

definition dc_live :: "msg_heap \<Rightarrow> MsgDeliveryControl \<Rightarrow> bool" where
  "dc_live h dc \<longleftrightarrow> distinct (map di_msg (dc_items dc)) \<and> dc_size dc = int (length (dc_items dc))
     \<and> (\<forall>a \<in> di_msg ` set (dc_items dc). \<exists>m. h a = Some m \<and> msg_type m \<noteq> RECEIPT_MSG) \<and> 0 < dc_resend_cnt dc"

lemma dc_live_cong:
  assumes "dc_live h dc" "\<And>a m. h a = Some m \<Longrightarrow> a \<in> di_msg ` set (dc_items dc) \<Longrightarrow>
    \<exists>m'. h' a = Some m' \<and> msg_type m' = msg_type m"
  shows "dc_live h' dc"
  using assms by (fastforce simp: dc_live_def)

lemma dc_live_add:
  "dc_live h dc \<Longrightarrow> h a = Some m \<Longrightarrow> msg_type m \<noteq> RECEIPT_MSG \<Longrightarrow> dc_live h (dc_add now (Some a) dc)"
  by (auto simp: dc_live_def dc_add_def under_control_iff)

lemma dc_decrease_addresses:
  "map di_msg (dc_items (dc_decrease now msg dc)) = map di_msg (dc_items dc)"
  "dc_size (dc_decrease now msg dc) = dc_size dc" "dc_resend_cnt (dc_decrease now msg dc) = dc_resend_cnt dc"
proof -
  show "map di_msg (dc_items (dc_decrease now msg dc)) = map di_msg (dc_items dc)"
  proof (cases "dc_find dc msg")
    case (Some i)
    have "map di_msg (xs[i := x]) = map di_msg xs" if "i < length xs \<Longrightarrow> di_msg x = di_msg (xs ! i)" for xs :: "DeliveryItem list" and x
      using that by (cases "i < length xs") (auto simp: map_update list_update_same_conv list_update_beyond)
    then show ?thesis using Some by (simp add: dc_decrease_def Let_def del: map_update)
  qed (simp add: dc_decrease_def)
qed (simp_all add: dc_decrease_def split: option.splits)

lemma dc_decrease_set: "di_msg ` set (dc_items (dc_decrease now msg dc)) = di_msg ` set (dc_items dc)"
  using arg_cong [OF dc_decrease_addresses(1), of set] by simp

lemma dc_live_decrease: "dc_live h dc \<Longrightarrow> dc_live h (dc_decrease now msg dc)"
proof -
  have "length (dc_items (dc_decrease now msg dc)) = length (dc_items dc)"
    using arg_cong [OF dc_decrease_addresses(1), of length] by simp
  then show "dc_live h dc \<Longrightarrow> dc_live h (dc_decrease now msg dc)"
    unfolding dc_live_def by (simp add: dc_decrease_addresses dc_decrease_set)
qed

lemma dc_add_set: "di_msg ` set (dc_items (dc_add now (Some a) dc)) = insert a (di_msg ` set (dc_items dc))"
  by (auto simp: dc_add_def under_control_iff)

lemma dc_live_wf:
  assumes "dc_live h dc" "resend now q h dc = Inr (q', h', dc')"
  shows "dc_wf h' dc' \<and> h' = h \<and> dc' = dc \<and> set q' \<subseteq> set q \<union> di_msg ` set (dc_items dc)"
proof -
  have "0 < di_resend_cnt it" if "it \<in> set (dc_items dc)" for it
  proof (rule ccontr)
    assume "\<not> 0 < di_resend_cnt it"
    then have "\<exists>j. 0 \<le> j \<and> j < 0 + length (dc_items dc) \<and> di_resend_cnt (dc_items dc ! j) \<le> 0"
      using that by (auto simp: in_set_conv_nth not_less)
    from rm_exhausted_some [OF this] assms(2) show False
      by (simp add: resend_def rm_all_exhausted_def Let_def)
  qed
  then have wf: "dc_wf h dc" using assms(1) by (auto simp: dc_live_def dc_wf_def)
  then show ?thesis using assms(2) wf_resend [OF wf, of now q] by auto
qed

lemma write_loop_live:
  assumes "write_loop now wr k q n cl = Inr (out, n', cl')" "dc_live (cd_heap cl) (cd_delivery cl)"
  shows "dc_live (cd_heap cl') (cd_delivery cl') \<and> set (cd_to_send cl') \<subseteq> set q
    \<and> di_msg ` set (dc_items (cd_delivery cl')) \<subseteq> di_msg ` set (dc_items (cd_delivery cl)) \<union> set q"
  using assms
proof (induction q arbitrary: k n cl out n' cl')
  case (Cons a q)
  then obtain m where m: "cd_heap cl a = Some m" by (auto split: option.splits)
  define cl1 where "cl1 i = cl\<lparr>cd_heap := (cd_heap cl)(a := Some (m\<lparr>msg_id := i\<rparr>))\<rparr>" for i
  have live1: "dc_live ((cd_heap cl)(a := Some (m\<lparr>msg_id := i\<rparr>))) (cd_delivery cl)" for i
    by (rule dc_live_cong [OF Cons.prems(2)]) (use m in auto)
  show ?case
  proof (cases "wr k = get_type_data_size (msg_type m)")
    case False
    then show ?thesis using Cons.prems(1) m live1 by (auto simp: Let_def split: prod.splits)
  next
    case True
    define cl2 where "cl2 i = (if msg_type m = RECEIPT_MSG then (cl1 i)\<lparr>cd_heap := (cd_heap cl)(a := None)\<rparr>
      else if \<not> under_control (cd_delivery cl) (Some a)
      then (cl1 i)\<lparr>cd_delivery := dc_add now (Some a) (cd_delivery cl)\<rparr>
      else (cl1 i)\<lparr>cd_delivery := dc_decrease now (Some a) (cd_delivery cl)\<rparr>)" for i
    have live2: "dc_live (cd_heap (cl2 i)) (cd_delivery (cl2 i))" for i
    proof (cases "msg_type m = RECEIPT_MSG")
      case True
      have "dc_live ((cd_heap cl)(a := None)) (cd_delivery cl)"
        by (rule dc_live_cong [OF Cons.prems(2)]) (use m True Cons.prems(2) in \<open>auto simp: dc_live_def\<close>)
      then show ?thesis using True by (simp add: cl2_def cl1_def)
    next
      case False
      then show ?thesis
        using live1 dc_live_add [OF live1] dc_live_decrease [OF live1] by (simp add: cl2_def cl1_def)
    qed
    have sub2: "di_msg ` set (dc_items (cd_delivery (cl2 i)))
        \<subseteq> insert a (di_msg ` set (dc_items (cd_delivery cl)))" for i
      by (auto simp: cl2_def cl1_def dc_add_set dc_decrease_set)
    obtain i n1 out1 where run: "write_loop now wr (Suc k) q n1 (cl2 i) = Inr (out1, n', cl')"
    proof -
      obtain i n1 where num: "(if msg_id m = NO_ID then get_msg_num n else (msg_id m, n)) = (i, n1)"
        by fastforce
      have "write_loop now wr k (a # q) n cl = rbind (write_loop now wr (Suc k) q n1 (cl2 i))
          (\<lambda>(out, n, cl3). Inr (get_data (m\<lparr>msg_id := i\<rparr>) # out, n, cl3))"
        using m True by (simp add: Let_def cl2_def cl1_def num)
      then show ?thesis using Cons.prems(1) that by (auto simp: rbind_Inr_iff)
    qed
    have sub: "di_msg ` set (dc_items (cd_delivery (cl2 i))) \<union> set q
        \<subseteq> di_msg ` set (dc_items (cd_delivery cl)) \<union> set (a # q)"
      using sub2 [of i] by auto
    note ih = Cons.IH [OF run live2]
    show ?thesis using ih order_trans [OF conjunct2 [OF conjunct2 [OF ih]] sub] by (simp add: subset_insertI2)
  qed
qed auto

section \<open>The invariant of the client process\<close>

text \<open>
  The messages under control are alive and no receipts, every address in use has been handed out,
  and every message that came from a connection is well-formed.
\<close>

definition addresses_used :: "ClientServer \<Rightarrow> bool" where
  "addresses_used cs \<longleftrightarrow>
     (\<forall>a \<in> set (cs_to_server cs) \<union> di_msg ` set (dc_items (cs_delivery cs)). a < cs_next_msg cs)"

definition received_msgs :: "ClientServer \<Rightarrow> Message set" where
  "received_msgs cs = set (cs_from_server cs) \<union> set (cs_from_interface cs) \<union> set (cs_to_interface cs)
     \<union> set (mb_queue (cs_buf_from_server cs)) \<union> set (mb_queue (cs_buf_from_interface cs))"

definition cs_inv :: "ClientServer \<Rightarrow> bool" where
  "cs_inv cs \<longleftrightarrow> dc_wf (cs_heap cs) (cs_delivery cs) \<and> dc_live (cs_heap cs) (cs_delivery cs)
     \<and> addresses_used cs \<and> (\<forall>m \<in> received_msgs cs. wf_msg m)"

lemma cs_inv_start: "cs_inv (set_interface_fd fd (mk_client_server sock))"
  by (simp add: cs_inv_def set_interface_fd_def mk_client_server_def dc_wf_def dc_live_def mk_delivery_def
    DEFAULT_RESEND_CNT_def addresses_used_def received_msgs_def MsgBuffer_default_def)

lemma wf_status [simp]: "wf_msg (new_msg (ServerConnStatusMsg b))"
  by (simp add: wf_msg_def new_msg_def NO_ID_def fits_def)

lemma redirect_to_server_inv:
  assumes "cs_inv cs"
  shows "cs_inv (redirect_to_server m cs)"
proof -
  have "\<forall>it \<in> set (dc_items (cs_delivery cs)). di_msg it \<noteq> cs_next_msg cs"
    using assms unfolding cs_inv_def addresses_used_def by (metis UnI2 image_eqI less_irrefl)
  then have "dc_wf ((cs_heap cs)(cs_next_msg cs := Some m)) (cs_delivery cs)"
    "dc_live ((cs_heap cs)(cs_next_msg cs := Some m)) (cs_delivery cs)"
    using assms by (auto simp: cs_inv_def dc_wf_def dc_live_def)
  then show ?thesis
    using assms by (auto simp: cs_inv_def redirect_to_server_def addresses_used_def received_msgs_def less_Suc_eq)
qed

lemma redirect_to_interface_inv: "cs_inv cs \<Longrightarrow> wf_msg m \<Longrightarrow> cs_inv (redirect_to_interface m cs)"
  by (auto simp: cs_inv_def redirect_to_interface_def addresses_used_def received_msgs_def)

lemma send_receipt_inv: "cs_inv cs \<Longrightarrow> cs_inv (cs_send_receipt mid cs)"
  by (simp add: cs_send_receipt_def redirect_to_server_inv)

text \<open>The other parts of the state are free.\<close>

lemma cs_inv_frame:
  assumes "cs_inv cs" "cs_heap cs' = cs_heap cs" "cs_delivery cs' = cs_delivery cs"
    "cs_to_server cs' = cs_to_server cs" "cs_next_msg cs' = cs_next_msg cs"
    "\<And>m. m \<in> received_msgs cs' \<Longrightarrow> m \<in> received_msgs cs \<or> wf_msg m"
  shows "cs_inv cs'"
  using assms by (fastforce simp: cs_inv_def addresses_used_def)

lemma send_status_inv: "cs_inv cs \<Longrightarrow> cs_inv (send_server_conn_status cs)"
  by (simp add: send_server_conn_status_def redirect_to_interface_inv)

lemma broken_inv: "cs_inv cs \<Longrightarrow> cs_inv (on_broken_server_conn sock cs)"
  unfolding on_broken_server_conn_def
  by (rule send_status_inv, rule cs_inv_frame [of cs]) (auto simp: create_socket_def received_msgs_def)

lemma receipt_inv:
  assumes "cs_inv cs"
  shows "\<exists>h dc. cs_process_receipt_msg mid cs = Inr (cs\<lparr>cs_heap := h, cs_delivery := dc\<rparr>)
    \<and> cs_inv (cs\<lparr>cs_heap := h, cs_delivery := dc\<rparr>)
    \<and> (\<forall>a. a \<notin> di_msg ` set (dc_items (cs_delivery cs)) \<longrightarrow> h a = cs_heap cs a)
    \<and> set (dc_items dc) \<subseteq> set (dc_items (cs_delivery cs))"
proof -
  have wf: "dc_wf (cs_heap cs) (cs_delivery cs)" using assms by (simp add: cs_inv_def)
  obtain b h dc where r: "process_check (Some mid) (cs_heap cs) (cs_delivery cs) = Inr (b, h, dc)" "dc_wf h dc"
    "if b then \<exists>xs it ys. dc_items (cs_delivery cs) = xs @ it # ys \<and> dc_items dc = xs @ ys
         \<and> msg_id (the (cs_heap cs (di_msg it))) = mid \<and> h = (cs_heap cs)(di_msg it := None)
     else dc = cs_delivery cs \<and> h = cs_heap cs"
    using process_check_wf [OF wf, of mid] by blast
  have sub: "set (dc_items dc) \<subseteq> set (dc_items (cs_delivery cs))" using r(3) by (auto split: if_splits)
  have out: "\<forall>a. a \<notin> di_msg ` set (dc_items (cs_delivery cs)) \<longrightarrow> h a = cs_heap cs a"
    using r(3) by (auto split: if_splits)
  have keep: "h a = cs_heap cs a" if "h a \<noteq> None" for a using r(3) that by (auto split: if_splits)
  have "\<exists>m. h a = Some m \<and> msg_type m \<noteq> RECEIPT_MSG" if a: "a \<in> di_msg ` set (dc_items dc)" for a
  proof -
    have "h a \<noteq> None" using r(2) a by (auto simp: dc_wf_def)
    moreover have "a \<in> di_msg ` set (dc_items (cs_delivery cs))" using a sub by auto
    ultimately show ?thesis using keep assms unfolding cs_inv_def dc_live_def by metis
  qed
  then have "dc_live h dc" using r(2) by (auto simp: dc_live_def dc_wf_def)
  moreover have "\<forall>a \<in> set (cs_to_server cs) \<union> di_msg ` set (dc_items dc). a < cs_next_msg cs"
    using assms sub by (auto simp: cs_inv_def addresses_used_def)
  ultimately have "cs_inv (cs\<lparr>cs_heap := h, cs_delivery := dc\<rparr>)"
    using assms r(2) by (simp add: cs_inv_def addresses_used_def received_msgs_def)
  with sub out show ?thesis
    by (intro exI [of _ h] exI [of _ dc] conjI) (simp_all add: cs_process_receipt_msg_def r(1))
qed

end
