(* ===== verification/ClientRelay.thy ===== *)
theory ClientRelay
  imports ClientControl
begin

text \<open>
  The client process as a relay: every iteration of its main loop keeps its invariant, and what the
  two sides send goes to the other one in order.
\<close>

section \<open>From the server to the interface\<close>

fun for_interface :: "msg_body \<Rightarrow> bool" where
  "for_interface (GameStateMsg _) = True"
| "for_interface (GameFieldMsg _ _) = True"
| "for_interface (StartFieldReqMsg _) = True"
| "for_interface (ServerConnStatusMsg _) = True"
| "for_interface StopPreparationMsg = True"
| "for_interface (StartTurnMsg _ _) = True"
| "for_interface (StopTurnMsg _) = True"
| "for_interface (InfoMsg _) = True"
| "for_interface (ErrorMsg _) = True"
| "for_interface _ = False"

definition same_links :: "ClientServer \<Rightarrow> ClientServer \<Rightarrow> bool" where
  "same_links cs cs' \<longleftrightarrow> cs_server_fd cs' = cs_server_fd cs \<and> cs_connected cs' = cs_connected cs
     \<and> cs_quit cs' = cs_quit cs \<and> cs_interface_fd cs' = cs_interface_fd cs \<and> cs_msg_num cs' = cs_msg_num cs
     \<and> cs_buf_from_server cs' = cs_buf_from_server cs \<and> cs_buf_from_interface cs' = cs_buf_from_interface cs
     \<and> cs_from_interface cs' = cs_from_interface cs"

text \<open>
  What handling messages of the server does: those for the interface are passed on, every one but a
  receipt is acknowledged, and of the older messages only those under control may change.
\<close>

definition relays :: "Message list \<Rightarrow> ClientServer \<Rightarrow> ClientServer \<Rightarrow> bool" where
  "relays ms cs cs' \<longleftrightarrow>
     cs_to_interface cs' = cs_to_interface cs @ filter (for_interface \<circ> msg_body) ms
     \<and> (\<exists>as. cs_to_server cs' = cs_to_server cs @ as
          \<and> map (cs_heap cs') as = map (\<lambda>m. Some (new_receipt (msg_id m))) (filter (\<lambda>m. msg_type m \<noteq> RECEIPT_MSG) ms)
          \<and> (\<forall>a \<in> set as. cs_next_msg cs \<le> a \<and> a < cs_next_msg cs') \<and> distinct as)
     \<and> set (dc_items (cs_delivery cs')) \<subseteq> set (dc_items (cs_delivery cs)) \<and> cs_next_msg cs \<le> cs_next_msg cs'
     \<and> (\<forall>a < cs_next_msg cs. a \<notin> di_msg ` set (dc_items (cs_delivery cs)) \<longrightarrow> cs_heap cs' a = cs_heap cs a)
     \<and> same_links cs cs'"

lemma relays_Cons:
  assumes "relays [m] cs cs1" "relays ms cs1 cs2" "cs_inv cs"
  shows "relays (m # ms) cs cs2"
proof -
  obtain as where as: "cs_to_server cs1 = cs_to_server cs @ as"
    "map (cs_heap cs1) as = map (\<lambda>m. Some (new_receipt (msg_id m))) (filter (\<lambda>m. msg_type m \<noteq> RECEIPT_MSG) [m])"
    "\<forall>a \<in> set as. cs_next_msg cs \<le> a \<and> a < cs_next_msg cs1" "distinct as"
    using assms(1) unfolding relays_def by blast
  obtain bs where bs: "cs_to_server cs2 = cs_to_server cs1 @ bs"
    "map (cs_heap cs2) bs = map (\<lambda>m. Some (new_receipt (msg_id m))) (filter (\<lambda>m. msg_type m \<noteq> RECEIPT_MSG) ms)"
    "\<forall>a \<in> set bs. cs_next_msg cs1 \<le> a \<and> a < cs_next_msg cs2" "distinct bs"
    using assms(2) unfolding relays_def by blast
  have items: "set (dc_items (cs_delivery cs1)) \<subseteq> set (dc_items (cs_delivery cs))"
    "set (dc_items (cs_delivery cs2)) \<subseteq> set (dc_items (cs_delivery cs1))"
    and nxt: "cs_next_msg cs \<le> cs_next_msg cs1" "cs_next_msg cs1 \<le> cs_next_msg cs2"
    and heap: "\<forall>a < cs_next_msg cs. a \<notin> di_msg ` set (dc_items (cs_delivery cs)) \<longrightarrow> cs_heap cs1 a = cs_heap cs a"
      "\<forall>a < cs_next_msg cs1. a \<notin> di_msg ` set (dc_items (cs_delivery cs1)) \<longrightarrow> cs_heap cs2 a = cs_heap cs1 a"
    using assms(1,2) by (simp_all add: relays_def)
  have under: "\<forall>a \<in> di_msg ` set (dc_items (cs_delivery cs)). a < cs_next_msg cs"
    using assms(3) by (simp add: cs_inv_def addresses_used_def)
  have "a \<notin> di_msg ` set (dc_items (cs_delivery cs1))" if "a \<in> set as" for a
  proof -
    have "\<not> a < cs_next_msg cs" using as(3) that by (simp add: not_less)
    then show ?thesis using under items(1) by blast
  qed
  then have "map (cs_heap cs2) as = map (cs_heap cs1) as" using heap(2) as(3) by (intro map_cong) auto
  then have "map (cs_heap cs2) (as @ bs)
      = map (\<lambda>m. Some (new_receipt (msg_id m))) (filter (\<lambda>m. msg_type m \<noteq> RECEIPT_MSG) (m # ms))"
    using as(2) bs(2) by simp
  moreover have "\<forall>a \<in> set (as @ bs). cs_next_msg cs \<le> a \<and> a < cs_next_msg cs2"
    using as(3) bs(3) nxt by fastforce
  moreover have "distinct (as @ bs)" using as(3,4) bs(3,4) by fastforce
  moreover have "cs_heap cs2 a = cs_heap cs a"
    if "a < cs_next_msg cs" "a \<notin> di_msg ` set (dc_items (cs_delivery cs))" for a
    using heap that nxt items(1) by (metis image_mono less_le_trans subsetD)
  moreover have "same_links cs cs2" using assms(1,2) by (simp add: relays_def same_links_def)
  moreover have "cs_to_interface cs2 = cs_to_interface cs @ filter (for_interface \<circ> msg_body) (m # ms)"
    using assms(1,2) by (simp add: relays_def)
  ultimately show ?thesis
    unfolding relays_def using as(1) bs(1) items nxt by (intro conjI exI [of _ "as @ bs"]) auto
qed

lemma redirect_to_interface_relays:
  "for_interface (msg_body m) \<Longrightarrow> relays [m] cs (cs_send_receipt (msg_id m) (redirect_to_interface m cs))"
  by (cases "msg_body m")
    (auto simp: relays_def redirect_to_interface_def cs_send_receipt_def redirect_to_server_def same_links_def msg_type_def)

lemma ignored_relays:
  "\<not> for_interface (msg_body m) \<Longrightarrow> msg_type m \<noteq> RECEIPT_MSG \<Longrightarrow> relays [m] cs (cs_send_receipt (msg_id m) cs)"
  by (auto simp: relays_def cs_send_receipt_def redirect_to_server_def same_links_def)

lemma redirect_from_server [simp]:
  "cs_from_server (cs_send_receipt mid cs) = cs_from_server cs"
  "cs_from_server (redirect_to_interface m cs) = cs_from_server cs"
  by (simp_all add: cs_send_receipt_def redirect_to_interface_def redirect_to_server_def)

lemma process_server_msg_relays:
  assumes "cs_inv cs" "wf_msg m"
  shows "ok_with (\<lambda>cs'. cs_inv cs' \<and> relays [m] cs cs' \<and> cs_from_server cs' = cs_from_server cs) (process_server_msg m cs)"
proof (cases "msg_type m = RECEIPT_MSG")
  case True
  then obtain mid where b: "msg_body m = ReceiptMsg mid" by (cases "msg_body m") (auto simp: msg_type_def)
  obtain h dc where r: "cs_process_receipt_msg mid cs = Inr (cs\<lparr>cs_heap := h, cs_delivery := dc\<rparr>)"
    "cs_inv (cs\<lparr>cs_heap := h, cs_delivery := dc\<rparr>)"
    "\<forall>a. a \<notin> di_msg ` set (dc_items (cs_delivery cs)) \<longrightarrow> h a = cs_heap cs a"
    "set (dc_items dc) \<subseteq> set (dc_items (cs_delivery cs))"
    using receipt_inv [OF assms(1)] by blast
  have "relays [m] cs (cs\<lparr>cs_heap := h, cs_delivery := dc\<rparr>)"
    using r(3,4) b True by (simp add: relays_def same_links_def)
  then show ?thesis using r(1,2) b True by (simp add: process_server_msg_def)
next
  case False
  show ?thesis
  proof (cases "for_interface (msg_body m)")
    case True
    have "process_server_msg m cs = Inr (cs_send_receipt (msg_id m) (redirect_to_interface m cs))"
      using True False by (cases "msg_body m") (auto simp: process_server_msg_def)
    then show ?thesis
      using redirect_to_interface_relays [OF True] send_receipt_inv redirect_to_interface_inv assms by simp
  next
    case ignored: False
    have "process_server_msg m cs = Inr (cs_send_receipt (msg_id m) cs)"
      using ignored False by (cases "msg_body m") (auto simp: process_server_msg_def msg_type_def)
    then show ?thesis
      using ignored_relays [OF ignored False] send_receipt_inv assms by simp
  qed
qed

lemma server_msgs_loop_relays:
  assumes "cs_inv cs" "cs_from_server cs = ms"
  shows "ok_with (\<lambda>cs'. cs_inv cs' \<and> relays ms cs cs' \<and> cs_from_server cs' = []) (server_msgs_loop ms cs)"
  using assms
proof (induction ms arbitrary: cs)
  case Nil
  have "cs_inv (cs\<lparr>cs_from_server := []\<rparr>)" by (rule cs_inv_frame [OF Nil.prems(1)]) (auto simp: received_msgs_def)
  then show ?case by (simp add: relays_def same_links_def)
next
  case (Cons m ms)
  let ?cs = "cs\<lparr>cs_from_server := ms\<rparr>"
  have wf: "wf_msg m" using Cons.prems by (simp add: cs_inv_def received_msgs_def)
  have inv: "cs_inv ?cs" by (rule cs_inv_frame [OF Cons.prems(1)]) (auto simp: received_msgs_def Cons.prems(2))
  obtain cs1 where r: "process_server_msg m ?cs = Inr cs1" "cs_inv cs1" "relays [m] ?cs cs1" "cs_from_server cs1 = ms"
    using ok_withD [OF process_server_msg_relays [OF inv wf]] by auto
  obtain cs2 where r2: "server_msgs_loop ms cs1 = Inr cs2" "cs_inv cs2" "relays ms cs1 cs2" "cs_from_server cs2 = []"
    using ok_withD [OF Cons.IH [OF r(2,4)]] by auto
  have "relays [m] cs cs1" using r(3) by (simp add: relays_def same_links_def)
  then show ?case using r r2 relays_Cons [OF _ r2(3) Cons.prems(1)] by simp
qed

section \<open>From the interface to the server\<close>

fun for_server :: "msg_body \<Rightarrow> bool" where
  "for_server GameSessionReqMsg = True"
| "for_server (GameFieldMsg _ _) = True"
| "for_server (GameMoveMsg _) = True"
| "for_server _ = False"

lemma process_interface_cmd_inv:
  assumes "cs_inv cs"
  shows "cs_inv (process_interface_cmd ok m cs)"
proof -
  have "cs_inv (snd (connect_to_server ok cs))"
    by (rule cs_inv_frame [OF assms]) (auto simp: connect_to_server_def received_msgs_def split: if_splits)
  then show ?thesis
    using assms by (cases "msg_body m") (auto simp: process_interface_cmd_def redirect_to_server_inv
      process_server_conn_req_msg_def process_server_conn_status_req_msg_def send_status_inv)
qed

lemma interface_cmds_loop_inv:
  assumes "cs_inv cs" "cs_from_interface cs = ms"
  shows "cs_inv (interface_cmds_loop ok ms cs)"
  using assms
proof (induction ms arbitrary: cs)
  case Nil
  have "cs_inv (cs\<lparr>cs_from_interface := []\<rparr>)" by (rule cs_inv_frame [OF Nil.prems(1)]) (auto simp: received_msgs_def)
  then show ?case by simp
next
  case (Cons m ms)
  have "cs_inv (cs\<lparr>cs_from_interface := ms\<rparr>)"
    by (rule cs_inv_frame [OF Cons.prems(1)]) (auto simp: received_msgs_def Cons.prems(2))
  moreover have "cs_from_interface (process_interface_cmd ok m cs') = cs_from_interface cs'" for cs'
    by (cases "msg_body m") (simp_all add: process_interface_cmd_def redirect_to_server_def
      process_server_conn_req_msg_def process_server_conn_status_req_msg_def send_server_conn_status_def
      redirect_to_interface_def connect_to_server_def)
  ultimately show ?case using Cons.IH process_interface_cmd_inv by simp
qed

text \<open>Messages put on the heap from an address on.\<close>

definition heap_from :: "nat \<Rightarrow> Message list \<Rightarrow> msg_heap \<Rightarrow> msg_heap" where
  "heap_from n ms h = (\<lambda>a. if n \<le> a \<and> a < n + length ms then Some (ms ! (a - n)) else h a)"

lemma heap_from_simps [simp]:
  "heap_from n [] h = h" "heap_from (Suc n) ms (h(n := Some m)) = heap_from n (m # ms) h"
  "heap_from (Suc n) ms (\<lambda>a. if a = n then Some m else h a) = heap_from n (m # ms) h"
  by (auto simp: heap_from_def fun_eq_iff nth_Cons' not_less_eq_eq)

lemma map_heap_from: "map (heap_from n ms h) [n ..< n + length ms] = map Some ms"
  by (rule nth_equalityI) (simp_all add: heap_from_def)

lemma interface_cmds_loop_requests:
  assumes "\<forall>m \<in> set ms. for_server (msg_body m)"
  shows "interface_cmds_loop ok ms cs = cs\<lparr>cs_from_interface := [],
      cs_heap := heap_from (cs_next_msg cs) ms (cs_heap cs),
      cs_next_msg := cs_next_msg cs + length ms,
      cs_to_server := cs_to_server cs @ [cs_next_msg cs ..< cs_next_msg cs + length ms]\<rparr>"
  using assms
proof (induction ms arbitrary: cs)
  case Nil
  then show ?case by simp
next
  case (Cons m ms)
  let ?cs = "cs\<lparr>cs_from_interface := ms\<rparr>"
  have "process_interface_cmd ok m ?cs = redirect_to_server m ?cs"
    using Cons.prems by (cases "msg_body m") (simp_all add: process_interface_cmd_def)
  moreover have "n # [Suc n ..< Suc (n + length ms)] = [n ..< Suc (n + length ms)]" for n
    by (simp add: upt_conv_Cons del: upt_Suc)
  ultimately show ?case
    using Cons.IH [of "redirect_to_server m ?cs"] Cons.prems by (simp add: redirect_to_server_def del: upt_Suc)
qed

section \<open>One iteration of the client process\<close>

lemma read_from_server_inv:
  assumes "cs_inv cs"
  shows "res_with soft_faults cs_inv (read_msg_from_server inp cs)"
proof (cases "cs_connected cs")
  case True
  show ?thesis
  proof (cases "read_msg (cs_server_fd cs) (ci_read inp (cs_server_fd cs)) (cs_buf_from_server cs)")
    case (Inl e)
    then have "e \<in> soft_faults" using soft_read_msg soft_cases by metis
    then show ?thesis using True Inl by (simp add: read_msg_from_server_def)
  next
    case (Inr r)
    obtain err mb where r: "r = (err, mb)" by force
    obtain ms where ms: "mb_queue mb = mb_queue (cs_buf_from_server cs) @ ms" "\<forall>m \<in> set ms. wf_msg m"
      using read_queue Inr r by blast
    have "cs_inv (cs\<lparr>cs_buf_from_server := mb\<rparr>)"
      by (rule cs_inv_frame [OF assms]) (use ms in \<open>auto simp: received_msgs_def\<close>)
    moreover have "cs_inv (cs\<lparr>cs_buf_from_server := mb\<lparr>mb_queue := []\<rparr>, cs_from_server := cs_from_server cs @ mb_queue mb\<rparr>)"
      by (rule cs_inv_frame [OF assms]) (use ms in \<open>auto simp: received_msgs_def\<close>)
    ultimately show ?thesis
      using True Inr r by (simp add: read_msg_from_server_def extract_all_queue Let_def broken_inv del: extract_all.simps)
  qed
qed (simp add: read_msg_from_server_def assms)

lemma read_from_interface_inv:
  assumes "cs_inv cs"
  shows "res_with soft_faults cs_inv (read_msg_from_interface inp cs)"
proof (cases "read_msg (cs_interface_fd cs) (ci_read inp (cs_interface_fd cs)) (cs_buf_from_interface cs)")
  case (Inl e)
  then have "e \<in> soft_faults" using soft_read_msg soft_cases by metis
  then show ?thesis using Inl by (simp add: read_msg_from_interface_def)
next
  case (Inr r)
  obtain err mb where r: "r = (err, mb)" by force
  obtain ms where ms: "mb_queue mb = mb_queue (cs_buf_from_interface cs) @ ms" "\<forall>m \<in> set ms. wf_msg m"
    using read_queue Inr r by blast
  have "cs_inv (cs\<lparr>cs_buf_from_interface := mb\<rparr>)" "cs_inv (cs\<lparr>cs_buf_from_interface := mb, cs_quit := True\<rparr>)"
    "cs_inv (cs\<lparr>cs_buf_from_interface := mb\<lparr>mb_queue := []\<rparr>, cs_from_interface := cs_from_interface cs @ mb_queue mb\<rparr>)"
    by (rule cs_inv_frame [OF assms]; use ms in \<open>auto simp: received_msgs_def\<close>)+
  then show ?thesis
    using Inr r by (simp add: read_msg_from_interface_def extract_all_queue Let_def del: extract_all.simps)
qed

lemma write_to_server_inv:
  assumes "cs_inv cs"
  shows "res_with soft_faults (\<lambda>(out, cs'). cs_inv cs') (write_msg_to_server inp cs)"
proof (cases "cs_connected cs")
  case True
  let ?w = "write_loop (ci_now inp) (ci_write inp (cs_server_fd cs)) 0 (cs_to_server cs) (cs_msg_num cs) (as_client cs)"
  show ?thesis
  proof (cases ?w)
    case (Inl e)
    then have "e \<in> soft_faults" using soft_write_loop soft_cases by metis
    then show ?thesis using True Inl by (simp add: write_msg_to_server_def cs_write_loop_eq)
  next
    case (Inr r)
    obtain out n cl where r: "r = (out, n, cl)" by (cases r)
    have live: "dc_live (cd_heap cl) (cd_delivery cl)" "set (cd_to_send cl) \<subseteq> set (cs_to_server cs)"
      "di_msg ` set (dc_items (cd_delivery cl)) \<subseteq> di_msg ` set (dc_items (cs_delivery cs)) \<union> set (cs_to_server cs)"
      using write_loop_live Inr r assms by (fastforce simp: cs_inv_def)+
    show ?thesis
    proof (cases "resend (ci_now inp) (cd_to_send cl) (cd_heap cl) (cd_delivery cl)")
      case (Inl e)
      have "soft (resend (ci_now inp) (cd_to_send cl) (cd_heap cl) (cd_delivery cl))"
        by (auto simp: resend_def rm_all_exhausted_def Let_def intro!: soft_rbind soft_exhausted)
      then have "e \<in> soft_faults" using Inl soft_cases by metis
      then show ?thesis
        using True Inl \<open>?w = Inr r\<close> r by (simp add: write_msg_to_server_def cs_write_loop_eq with_client_def)
    next
      case re: (Inr r')
      obtain q h dc where r': "r' = (q, h, dc)" by (cases r')
      have wf: "dc_wf h dc" "h = cd_heap cl" "dc = cd_delivery cl"
        "set q \<subseteq> set (cd_to_send cl) \<union> di_msg ` set (dc_items (cd_delivery cl))"
        using dc_live_wf [OF live(1)] re r' by auto
      have "addresses_used (cs\<lparr>cs_to_server := q, cs_delivery := dc\<rparr>)"
      proof -
        have sub: "set q \<union> di_msg ` set (dc_items dc) \<subseteq> set (cs_to_server cs) \<union> di_msg ` set (dc_items (cs_delivery cs))"
          using live(2,3) wf(3,4) by blast
        have "a < cs_next_msg cs" if "a \<in> set q \<union> di_msg ` set (dc_items dc)" for a
          using subsetD [OF sub that] assms by (simp only: cs_inv_def addresses_used_def)
        then show ?thesis by (simp add: addresses_used_def)
      qed
      then have "cs_inv (cs\<lparr>cs_msg_num := n, cs_to_server := q, cs_heap := h, cs_delivery := dc\<rparr>)"
        using wf live assms by (simp add: cs_inv_def addresses_used_def received_msgs_def)
      then show ?thesis
        using True re r' \<open>?w = Inr r\<close> r by (simp add: write_msg_to_server_def cs_write_loop_eq with_client_def)
    qed
  qed
qed (simp add: write_msg_to_server_def assms)

lemma set_write_interface_loop: "set (snd (write_interface_loop wr k ms)) \<subseteq> set ms"
  by (induction ms arbitrary: k) (auto simp: Let_def split_beta)

lemma write_to_interface_inv:
  assumes "cs_inv cs"
  shows "cs_inv (snd (write_msg_to_interface inp cs))"
proof -
  let ?w = "write_interface_loop (ci_write inp (cs_interface_fd cs)) 0 (cs_to_interface cs)"
  have "cs_inv (cs\<lparr>cs_to_interface := snd ?w\<rparr>)"
    by (rule cs_inv_frame [OF assms])
      (use set_write_interface_loop [of "ci_write inp (cs_interface_fd cs)" 0 "cs_to_interface cs"] in
        \<open>auto simp: received_msgs_def\<close>)
  then show ?thesis by (simp add: write_msg_to_interface_def split_beta)
qed

lemma cs_fd_isset_soft: "res_with soft_faults (\<lambda>_. True) (cs_fd_isset fd ready fds)"
  by (simp add: cs_fd_isset_def soft_faults_def)

lemma cs_fd_actions_inv:
  assumes "cs_inv cs"
  shows "res_with soft_faults (\<lambda>(_, _, cs'). cs_inv cs') (cs_process_fd_actions inp fds cs)"
proof -
  have isset: "res_with soft_faults (\<lambda>_. True) (cs_fd_isset fd ready s)" for fd ready s
    by (rule cs_fd_isset_soft)
  have msgs: "res_with soft_faults cs_inv (process_msg_from_server cs')" if "cs_inv cs'" for cs'
    unfolding process_msg_from_server_def
    by (rule res_with_ok [OF server_msgs_loop_relays [OF that refl]]) simp
  have server: "res_with soft_faults (\<lambda>(_, cs'). cs_inv cs')
     (if cs_connected cs then
              rbind (cs_fd_isset (cs_server_fd cs) (ci_readable inp) (fst fds)) (\<lambda>readable.
              rbind (if readable then read_msg_from_server inp cs else Inr cs) (\<lambda>cs1.
              rbind (process_msg_from_server cs1) (\<lambda>cs2.
              rbind (cs_fd_isset (cs_server_fd cs2) (ci_writable inp) (snd fds)) (\<lambda>writable.
              if writable then write_msg_to_server inp cs2 else Inr ([], cs2)))))
            else Inr ([], cs))"
  proof (cases "cs_connected cs")
    case True
    have read: "res_with soft_faults cs_inv (if b then read_msg_from_server inp cs else Inr cs)" for b
      using read_from_server_inv assms by simp
    have "res_with soft_faults (\<lambda>(_, cs'). cs_inv cs')
        (if b then write_msg_to_server inp cs' else Inr ([], cs'))" if "cs_inv cs'" for b cs'
      using write_to_server_inv that by simp
    then show ?thesis
      using True by (simp add: res_with_rbind [OF isset] res_with_rbind [OF read] res_with_rbind [OF msgs])
  qed (simp add: assms)
  have input: "res_with soft_faults cs_inv (if b then read_msg_from_interface inp cs' else Inr cs')"
    if "cs_inv cs'" for b cs'
    using read_from_interface_inv that by simp
  have cmds: "cs_inv (process_cmd_from_interface inp cs')" if "cs_inv cs'" for cs'
    using interface_cmds_loop_inv [OF that refl] by (simp add: process_cmd_from_interface_def)
  show ?thesis
    unfolding cs_process_fd_actions_def
  proof (rule res_with_rbind [OF server], clarify)
    fix out cs3 assume i3: "cs_inv cs3"
    have end_part: "res_with soft_faults (\<lambda>(_, _, cs'). cs_inv cs')
      (rbind (cs_fd_isset (cs_interface_fd cs') (ci_writable inp) (snd fds)) (\<lambda>writable.
        let (to_interface, cs6) = (if writable then write_msg_to_interface inp cs' else ([], cs'))
        in Inr (out, to_interface, cs6)))" if "cs_inv cs'" for cs'
      by (rule res_with_rbind [OF isset]) (use write_to_interface_inv [OF that] that in \<open>simp add: split_beta\<close>)
    show "res_with soft_faults (\<lambda>(_, _, cs'). cs_inv cs')
     (rbind (cs_fd_isset (cs_interface_fd cs3) (ci_readable inp) (fst fds)) (\<lambda>readable.
     rbind (if readable then read_msg_from_interface inp cs3 else Inr cs3) (\<lambda>cs4.
     rbind (Inr (process_cmd_from_interface inp cs4)) (\<lambda>cs5.
     rbind (cs_fd_isset (cs_interface_fd cs5) (ci_writable inp) (snd fds)) (\<lambda>writable.
     (let (to_interface, cs6) = (if writable then write_msg_to_interface inp cs5 else ([], cs5))
      in Inr (out, to_interface, cs6)))))))"
      by (rule res_with_rbind [OF isset], rule res_with_rbind [OF input [OF i3]])
        (simp only: rbind.simps end_part cmds)
  qed
qed

lemma cs_iteration_inv:
  assumes "cs_inv cs"
  shows "res_with soft_faults (\<lambda>(_, _, cs'). cs_inv cs') (cs_run_iteration inp cs)"
proof -
  have set_fd: "res_with soft_faults (\<lambda>_. True) (cs_fd_set fd fds)" for fd fds
    by (simp add: cs_fd_set_def soft_faults_def)
  have "res_with soft_faults (\<lambda>_. True) (cs_fill_fd_sets cs)"
    unfolding cs_fill_fd_sets_def
    by (rule res_with_rbind [OF set_fd], rule res_with_rbind [where P = "\<lambda>_. True"])
      (auto simp: res_with_rbind [OF set_fd] set_fd intro!: res_with_rbind [OF set_fd] res_with_rbind [where P = "\<lambda>_. True"])
  then show ?thesis
    unfolding cs_run_iteration_def
    by (rule res_with_rbind) (simp add: cs_process_select_result_def cs_fd_actions_inv assms)
qed

section \<open>The client process as a system\<close>

definition cs_start :: "ClientServer \<Rightarrow> bool" where
  "cs_start cs \<longleftrightarrow> (\<exists>sock fd. cs = set_interface_fd fd (mk_client_server sock))"

text \<open>The loop of \<open>run\<close> ends when the interface has closed its connection.\<close>

definition cs_step :: "ClientInput \<Rightarrow> ClientServer \<Rightarrow> ClientServer res" where
  "cs_step inp cs = (if cs_quit cs then Inr cs else rbind (cs_run_iteration inp cs) (\<lambda>(_, _, cs'). Inr cs'))"

lemma cs_step_inv: "cs_inv cs \<Longrightarrow> res_with soft_faults cs_inv (cs_step inp cs)"
  using cs_iteration_inv [of cs inp] by (cases "cs_run_iteration inp cs") (auto simp: cs_step_def)

interpretation cs_sys: fault_system cs_start cs_step cs_inv soft_faults
  by unfold_locales (auto simp: cs_start_def cs_inv_start cs_step_inv)

section \<open>Two iterations\<close>

text \<open>A connected client process that has nothing left to do.\<close>

definition idle_client :: "ClientServer \<Rightarrow> bool" where
  "idle_client cs \<longleftrightarrow> cs_connected cs \<and> cs_to_server cs = [] \<and> cs_to_interface cs = []
     \<and> cs_from_server cs = [] \<and> cs_from_interface cs = []
     \<and> idle_buf (cs_buf_from_server cs) \<and> mb_queue (cs_buf_from_server cs) = []
     \<and> idle_buf (cs_buf_from_interface cs) \<and> mb_queue (cs_buf_from_interface cs) = []
     \<and> 0 \<le> cs_server_fd cs \<and> cs_server_fd cs < FD_SETSIZE \<and> 0 \<le> cs_interface_fd cs \<and> cs_interface_fd cs < FD_SETSIZE
     \<and> cs_server_fd cs \<noteq> cs_interface_fd cs"

text \<open>The bytes of these messages, and nothing else, can be read from a descriptor.\<close>

definition delivers :: "ClientInput \<Rightarrow> int \<Rightarrow> Message list \<Rightarrow> bool" where
  "delivers inp fd ms \<longleftrightarrow> ci_readable inp fd = (ms \<noteq> []) \<and> (\<forall>m \<in> set ms. wf_msg m)
     \<and> length (concat (map get_data ms)) < 4096
     \<and> (ms \<noteq> [] \<longrightarrow> ci_read inp fd 4096 = Some (concat (map get_data ms)))"

text \<open>A descriptor takes these messages in full.\<close>

definition takes :: "ClientInput \<Rightarrow> int \<Rightarrow> Message list \<Rightarrow> bool" where
  "takes inp fd ms \<longleftrightarrow> ci_writable inp fd
     \<and> (\<forall>i < length ms. ci_write inp fd i = get_type_data_size (msg_type (ms ! i)))"

definition receipts_for :: "Message list \<Rightarrow> Message list" where
  "receipts_for ms = map (\<lambda>m. new_receipt (msg_id m)) (filter (\<lambda>m. msg_type m \<noteq> RECEIPT_MSG) ms)"

lemma read_server_delivers:
  assumes "delivers inp (cs_server_fd cs) ms" "idle_client cs"
  shows "\<exists>mb. (if ci_readable inp (cs_server_fd cs) then read_msg_from_server inp cs else Inr cs)
      = Inr (cs\<lparr>cs_buf_from_server := mb, cs_from_server := ms\<rparr>) \<and> idle_buf mb \<and> mb_queue mb = []"
proof (cases "ms = []")
  case True
  then show ?thesis using assms
    by (intro exI [of _ "cs_buf_from_server cs"]) (cases cs, simp add: delivers_def idle_client_def)
next
  case False
  have "read_msg (cs_server_fd cs) (ci_read inp (cs_server_fd cs)) (cs_buf_from_server cs)
      = Inr (BUFF_OK, (cs_buf_from_server cs)\<lparr>mb_queue := mb_queue (cs_buf_from_server cs) @ ms, mb_is_too_small := False\<rparr>)"
    by (rule read_plain_messages) (use assms False in \<open>auto simp: delivers_def idle_client_def\<close>)
  then show ?thesis
    using assms False
    by (auto simp: read_msg_from_server_def idle_client_def delivers_def Let_def extract_all_queue idle_buf_def simp del: extract_all.simps)
qed

lemma read_interface_delivers:
  assumes "delivers inp (cs_interface_fd cs) ms" "idle_buf (cs_buf_from_interface cs)"
    "mb_queue (cs_buf_from_interface cs) = []" "cs_from_interface cs = []" "0 \<le> cs_interface_fd cs"
  shows "\<exists>mb. (if ci_readable inp (cs_interface_fd cs) then read_msg_from_interface inp cs else Inr cs)
      = Inr (cs\<lparr>cs_buf_from_interface := mb, cs_from_interface := ms\<rparr>) \<and> idle_buf mb \<and> mb_queue mb = []"
proof (cases "ms = []")
  case True
  then show ?thesis using assms
    by (intro exI [of _ "cs_buf_from_interface cs"]) (cases cs, simp add: delivers_def)
next
  case False
  have "read_msg (cs_interface_fd cs) (ci_read inp (cs_interface_fd cs)) (cs_buf_from_interface cs)
      = Inr (BUFF_OK, (cs_buf_from_interface cs)\<lparr>mb_queue := mb_queue (cs_buf_from_interface cs) @ ms, mb_is_too_small := False\<rparr>)"
    by (rule read_plain_messages) (use assms False in \<open>auto simp: delivers_def\<close>)
  then show ?thesis
    using assms False
    by (auto simp: read_msg_from_interface_def delivers_def Let_def extract_all_queue idle_buf_def simp del: extract_all.simps)
qed

lemma write_interface_loop_all:
  assumes "\<forall>i < length ms. wr (k + i) = get_type_data_size (msg_type (ms ! i))"
  shows "write_interface_loop wr k ms = (map get_data ms, [])"
  using assms
proof (induction ms arbitrary: k)
  case (Cons m ms)
  have "wr k = get_type_data_size (msg_type m)" using Cons.prems [rule_format, of 0] by simp
  moreover have "wr (Suc k + i) = get_type_data_size (msg_type (ms ! i))" if "i < length ms" for i
    using Cons.prems [rule_format, of "Suc i"] that by simp
  ultimately show ?case using Cons.IH [of "Suc k"] by (simp add: Let_def)
qed simp

text \<open>The first iteration reads from both sides and hands everything over.\<close>

lemma first_iteration:
  assumes "cs_inv cs" "idle_client cs" "ci_result inp \<noteq> -1"
    and srv: "delivers inp (cs_server_fd cs) ms" and itf: "delivers inp (cs_interface_fd cs) ns"
    and req: "\<forall>m \<in> set ns. for_server (msg_body m)"
  shows "\<exists>cs1. cs_run_iteration inp cs = Inr ([], [], cs1)
    \<and> fresh_queue (cs_to_server cs1) (as_client cs1)
    \<and> map (the \<circ> cs_heap cs1) (cs_to_server cs1) = receipts_for ms @ ns
    \<and> cs_to_interface cs1 = filter (for_interface \<circ> msg_body) ms
    \<and> idle_client (cs1\<lparr>cs_to_server := [], cs_to_interface := []\<rparr>)
    \<and> cs_server_fd cs1 = cs_server_fd cs \<and> cs_interface_fd cs1 = cs_interface_fd cs
    \<and> cs_msg_num cs1 = cs_msg_num cs \<and> cs_inv cs1"
proof -
  have idle: "cs_connected cs" "cs_to_server cs = []" "cs_to_interface cs = []" "cs_from_interface cs = []"
    "idle_buf (cs_buf_from_interface cs)" "mb_queue (cs_buf_from_interface cs) = []"
    "0 \<le> cs_server_fd cs" "cs_server_fd cs < FD_SETSIZE" "0 \<le> cs_interface_fd cs" "cs_interface_fd cs < FD_SETSIZE"
    "cs_server_fd cs \<noteq> cs_interface_fd cs"
    using assms(2) by (simp_all add: idle_client_def)
  have fill: "cs_fill_fd_sets cs = Inr ({cs_server_fd cs, cs_interface_fd cs}, {})"
    using idle by (simp add: cs_fill_fd_sets_def cs_fd_set_def)
  obtain mb where rd: "(if ci_readable inp (cs_server_fd cs) then read_msg_from_server inp cs else Inr cs)
      = Inr (cs\<lparr>cs_buf_from_server := mb, cs_from_server := ms\<rparr>)" "idle_buf mb" "mb_queue mb = []"
    using read_server_delivers [OF srv assms(2)] by auto
  let ?cs1 = "cs\<lparr>cs_buf_from_server := mb, cs_from_server := ms\<rparr>"
  have inv1: "cs_inv ?cs1"
    by (rule cs_inv_frame [OF assms(1)]) (use srv rd(3) in \<open>auto simp: received_msgs_def delivers_def\<close>)
  obtain cs2 where l: "server_msgs_loop ms ?cs1 = Inr cs2" "cs_inv cs2" "relays ms ?cs1 cs2" "cs_from_server cs2 = []"
    using ok_withD [OF server_msgs_loop_relays [OF inv1, of ms]] by auto
  have links: "same_links ?cs1 cs2" using l(3) by (simp add: relays_def)
  then have f2: "cs_server_fd cs2 = cs_server_fd cs" "cs_interface_fd cs2 = cs_interface_fd cs" "cs_connected cs2"
    "cs_from_interface cs2 = []" "cs_buf_from_interface cs2 = cs_buf_from_interface cs" "cs_msg_num cs2 = cs_msg_num cs"
    "cs_buf_from_server cs2 = mb"
    using idle by (simp_all add: same_links_def)
  obtain as where as: "cs_to_server cs2 = as"
    "map (cs_heap cs2) as = map Some (receipts_for ms)" "\<forall>a \<in> set as. cs_next_msg cs \<le> a \<and> a < cs_next_msg cs2"
    "distinct as" "cs_to_interface cs2 = filter (for_interface \<circ> msg_body) ms"
    "set (dc_items (cs_delivery cs2)) \<subseteq> set (dc_items (cs_delivery cs))" "cs_next_msg cs \<le> cs_next_msg cs2"
    using l(3) idle by (auto simp: relays_def receipts_for_def comp_def)
  obtain mb' where rd': "(if ci_readable inp (cs_interface_fd cs2) then read_msg_from_interface inp cs2 else Inr cs2)
      = Inr (cs2\<lparr>cs_buf_from_interface := mb', cs_from_interface := ns\<rparr>)" "idle_buf mb'" "mb_queue mb' = []"
    using read_interface_delivers [of inp cs2 ns] itf idle f2 by auto
  let ?n = "cs_next_msg cs2"
  let ?q = "[?n ..< ?n + length ns]"
  define cs5 where "cs5 = cs2\<lparr>cs_buf_from_interface := mb', cs_from_interface := [],
    cs_heap := heap_from ?n ns (cs_heap cs2), cs_next_msg := ?n + length ns, cs_to_server := as @ ?q\<rparr>"
  have cmds: "process_cmd_from_interface inp (cs2\<lparr>cs_buf_from_interface := mb', cs_from_interface := ns\<rparr>) = cs5"
    using interface_cmds_loop_requests [OF req, of "ci_connect inp" "cs2\<lparr>cs_buf_from_interface := mb', cs_from_interface := ns\<rparr>"]
    by (simp add: process_cmd_from_interface_def cs5_def as(1) del: upt_Suc)
  have f5: "cs_interface_fd cs5 = cs_interface_fd cs" by (simp add: cs5_def f2)
  have run: "cs_run_iteration inp cs = Inr ([], [], cs5)"
    using assms(3) idle fill rd(1) rd'(1) l(1) cmds f2 f5
    by (simp add: cs_run_iteration_def cs_process_select_result_def cs_process_fd_actions_def cs_fd_isset_def
      process_msg_from_server_def del: interface_cmds_loop.simps server_msgs_loop.simps)
  have inv5: "cs_inv cs5" using cs_iteration_inv [OF assms(1), of inp] run by simp
  have "heap_from ?n ns (cs_heap cs2) a = cs_heap cs2 a" if "a \<in> set as" for a
    using bspec [OF as(3) that] by (simp add: heap_from_def)
  then have "map (cs_heap cs5) as = map (cs_heap cs2) as" by (simp add: cs5_def)
  then have heap5: "map (cs_heap cs5) (cs_to_server cs5) = map Some (receipts_for ms @ ns)"
    using as(2) map_heap_from [of ?n ns "cs_heap cs2"] by (simp add: cs5_def)
  have alive: "cs_heap cs5 a \<noteq> None" if "a \<in> set (cs_to_server cs5)" for a
  proof -
    have "cs_heap cs5 a \<in> set (map (cs_heap cs5) (cs_to_server cs5))" using that by simp
    then show ?thesis unfolding heap5 by auto
  qed
  have "a \<notin> di_msg ` set (dc_items (cs_delivery cs5))" if "a \<in> set (cs_to_server cs5)" for a
  proof -
    have "cs_next_msg cs \<le> a" using that as(3,7) by (auto simp: cs5_def)
    moreover have "\<forall>b \<in> di_msg ` set (dc_items (cs_delivery cs)). b < cs_next_msg cs"
      using assms(1) by (simp add: cs_inv_def addresses_used_def)
    moreover have "di_msg ` set (dc_items (cs_delivery cs5)) \<subseteq> di_msg ` set (dc_items (cs_delivery cs))"
      using as(6) by (auto simp: cs5_def)
    ultimately show ?thesis by (meson not_less subsetD)
  qed
  then have "fresh_queue (cs_to_server cs5) (as_client cs5)"
    using alive inv5 as(3,4) by (auto simp: fresh_queue_def cs_inv_def) (auto simp: cs5_def)
  moreover have "map (the \<circ> cs_heap cs5) (cs_to_server cs5) = receipts_for ms @ ns"
    using arg_cong [OF heap5, of "map the"] by (simp add: comp_def)
  moreover have "idle_client (cs5\<lparr>cs_to_server := [], cs_to_interface := []\<rparr>)"
    using idle f2 rd rd' l(4) by (simp add: idle_client_def cs5_def)
  ultimately show ?thesis
    using run inv5 f2 as(5) by (intro exI [of _ cs5]) (simp add: cs5_def)
qed

text \<open>The second one writes everything, as both sides are ready and nothing new arrives.\<close>

lemma second_iteration:
  assumes inv: "cs_inv cs" and fresh: "fresh_queue (cs_to_server cs) (as_client cs)"
    and idle: "idle_client (cs\<lparr>cs_to_server := [], cs_to_interface := []\<rparr>)"
    and inp: "ci_result inp \<noteq> -1" "\<not> ci_readable inp (cs_server_fd cs)" "\<not> ci_readable inp (cs_interface_fd cs)"
    and srv: "takes inp (cs_server_fd cs) (map (the \<circ> cs_heap cs) (cs_to_server cs))"
    and itf: "takes inp (cs_interface_fd cs) (cs_to_interface cs)"
  shows "\<exists>cs'. cs_run_iteration inp cs
      = Inr (map get_data (number_msgs (cs_msg_num cs) (map (the \<circ> cs_heap cs) (cs_to_server cs))),
          map get_data (cs_to_interface cs), cs')
    \<and> cs_inv cs' \<and> idle_client (cs'\<lparr>cs_to_server := []\<rparr>) \<and> cs_server_fd cs' = cs_server_fd cs
    \<and> cs_interface_fd cs' = cs_interface_fd cs"
proof -
  let ?out = "map get_data (number_msgs (cs_msg_num cs) (map (the \<circ> cs_heap cs) (cs_to_server cs)))"
  have i: "cs_connected cs" "cs_from_server cs = []" "cs_from_interface cs = []"
    "0 \<le> cs_server_fd cs" "cs_server_fd cs < FD_SETSIZE" "0 \<le> cs_interface_fd cs" "cs_interface_fd cs < FD_SETSIZE"
    "cs_server_fd cs \<noteq> cs_interface_fd cs"
    using idle by (simp_all add: idle_client_def)
  define wf where "wf = (if cs_to_server cs = [] then {} else {cs_server_fd cs})
    \<union> (if cs_to_interface cs = [] then {} else {cs_interface_fd cs})"
  have fill: "cs_fill_fd_sets cs = Inr ({cs_server_fd cs, cs_interface_fd cs}, wf)"
    "cs_server_fd cs \<in> wf \<longleftrightarrow> cs_to_server cs \<noteq> []" "cs_interface_fd cs \<in> wf \<longleftrightarrow> cs_to_interface cs \<noteq> []"
    using i by (cases "cs_to_server cs = []"; cases "cs_to_interface cs = []";
      simp add: cs_fill_fd_sets_def cs_fd_set_def wf_def)+
  have same: "cs\<lparr>cs_from_server := []\<rparr> = cs" using i(2) by (cases cs) simp
  have same': "c\<lparr>cs_from_interface := []\<rparr> = c" if "cs_from_interface c = []" for c :: ClientServer
    using that by (cases c) simp
  obtain cs3 where w: "(if cs_to_server cs \<noteq> [] then write_msg_to_server inp cs else Inr ([], cs)) = Inr (?out, cs3)"
    "cs_to_interface cs3 = cs_to_interface cs" "cs_from_interface cs3 = []"
    "cs_interface_fd cs3 = cs_interface_fd cs" "cs_server_fd cs3 = cs_server_fd cs"
    "idle_client (cs3\<lparr>cs_to_server := [], cs_to_interface := []\<rparr>)"
  proof (cases "cs_to_server cs = []")
    case True
    then show ?thesis using that [of cs] i(3) idle by simp
  next
    case False
    have "cs_server_fd cs \<noteq> -1" using i(4) by simp
    from write_msg_to_server_eq [OF i(1) this, of inp]
    have eq: "write_msg_to_server inp cs
      = rbind (write_msg (ci_now inp) (ci_write inp (cs_server_fd cs)) (cs_msg_num cs) (as_client cs))
          (\<lambda>(out, n, cl). Inr (out, with_client cs n cl))" .
    obtain n' cl where l: "write_loop (ci_now inp) (ci_write inp (cs_server_fd cs)) 0 (cs_to_server cs) (cs_msg_num cs) (as_client cs)
        = Inr (?out, n', cl)" "dc_wf (cd_heap cl) (cd_delivery cl)"
      using write_loop_succeeds [OF fresh, of "ci_write inp (cs_server_fd cs)" 0 "ci_now inp" "cs_msg_num cs"] srv
      by (auto simp: takes_def)
    obtain q h dc where "resend (ci_now inp) (cd_to_send cl) (cd_heap cl) (cd_delivery cl) = Inr (q, h, dc)"
      using wf_resend [OF l(2)] by blast
    then have "\<exists>cl'. write_msg_to_server inp cs = Inr (?out, with_client cs n' cl')"
      using l(1) i(4) unfolding eq by (auto simp: write_msg_def)
    then obtain cl' where "write_msg_to_server inp cs = Inr (?out, with_client cs n' cl')" by blast
    moreover have "idle_client ((with_client cs n' cl')\<lparr>cs_to_server := [], cs_to_interface := []\<rparr>)"
      using idle by (simp add: idle_client_def with_client_def)
    ultimately show ?thesis using that [of "with_client cs n' cl'"] False i(3) by (simp add: with_client_def)
  qed
  have w2: "(if cs_to_interface cs \<noteq> [] then write_msg_to_interface inp cs3 else ([], cs3))
      = (map get_data (cs_to_interface cs), cs3\<lparr>cs_to_interface := []\<rparr>)"
  proof (cases "cs_to_interface cs = []")
    case True
    then show ?thesis using w(2) by (cases cs3) simp
  next
    case False
    have "write_interface_loop (ci_write inp (cs_interface_fd cs)) 0 (cs_to_interface cs) = (map get_data (cs_to_interface cs), [])"
      by (rule write_interface_loop_all) (use itf in \<open>simp add: takes_def\<close>)
    then show ?thesis using False w(2,4) by (simp add: write_msg_to_interface_def)
  qed
  have a1: "(if cs_server_fd cs \<in> wf \<and> ci_writable inp (cs_server_fd cs) then write_msg_to_server inp cs
      else Inr ([], cs)) = Inr (?out, cs3)"
    using w(1) fill(2) srv by (simp add: takes_def)
  have a2: "(if cs_interface_fd cs \<in> wf \<and> ci_writable inp (cs_interface_fd cs) then write_msg_to_interface inp cs3
      else ([], cs3)) = (map get_data (cs_to_interface cs), cs3\<lparr>cs_to_interface := []\<rparr>)"
    using w2 fill(3) itf by (simp add: takes_def)
  have isset: "cs_fd_isset (cs_server_fd cs) r fds = Inr (cs_server_fd cs \<in> fds \<and> r (cs_server_fd cs))"
    "cs_fd_isset (cs_interface_fd cs) r fds = Inr (cs_interface_fd cs \<in> fds \<and> r (cs_interface_fd cs))" for r fds
    using i by (simp_all add: cs_fd_isset_def)
  have "cs_process_fd_actions inp ({cs_server_fd cs, cs_interface_fd cs}, wf) cs
      = Inr (?out, map get_data (cs_to_interface cs), cs3\<lparr>cs_to_interface := []\<rparr>)"
    unfolding cs_process_fd_actions_def
    by (simp add: isset i inp same same' process_msg_from_server_def process_cmd_from_interface_def a1 w(3,4))
      (use a2 in \<open>auto split: if_splits\<close>)
  then have run: "cs_run_iteration inp cs = Inr (?out, map get_data (cs_to_interface cs), cs3\<lparr>cs_to_interface := []\<rparr>)"
    using fill(1) inp(1) by (simp add: cs_run_iteration_def cs_process_select_result_def)
  have "cs_inv (cs3\<lparr>cs_to_interface := []\<rparr>)" using cs_iteration_inv [OF inv, of inp] run by simp
  moreover have "idle_client (cs3\<lparr>cs_to_interface := [], cs_to_server := []\<rparr>)"
    using w(6) by (simp add: idle_client_def)
  ultimately show ?thesis using run w(4,5) by (intro exI [of _ "cs3\<lparr>cs_to_interface := []\<rparr>"]) simp
qed

text \<open>Both iterations, one after the other.\<close>

lemma relay_two_iterations:
  assumes "cs_inv cs" and "idle_client cs" and "ci_result inp1 \<noteq> -1" and "ci_result inp2 \<noteq> -1"
    and "delivers inp1 (cs_server_fd cs) ms" and "delivers inp1 (cs_interface_fd cs) ns"
    and "list_all (for_server \<circ> msg_body) ns"
    and "\<not> ci_readable inp2 (cs_server_fd cs)" and "\<not> ci_readable inp2 (cs_interface_fd cs)"
    and "takes inp2 (cs_server_fd cs) (receipts_for ms @ ns)"
    and "takes inp2 (cs_interface_fd cs) (filter (for_interface \<circ> msg_body) ms)"
  shows "\<exists>cs1 cs2. cs_run_iteration inp1 cs = Inr ([], [], cs1)
    \<and> cs_run_iteration inp2 cs1
      = Inr (map get_data (receipts_for ms @ number_msgs (cs_msg_num cs) ns),
          map get_data (filter (for_interface \<circ> msg_body) ms), cs2)
    \<and> cs_inv cs2 \<and> idle_client (cs2\<lparr>cs_to_server := []\<rparr>) \<and> cs_server_fd cs2 = cs_server_fd cs
    \<and> cs_interface_fd cs2 = cs_interface_fd cs"
proof -
  have req: "\<forall>m \<in> set ns. for_server (msg_body m)" using assms(7) by (simp add: list_all_iff)
  obtain cs1 where r1: "cs_run_iteration inp1 cs = Inr ([], [], cs1)"
    "fresh_queue (cs_to_server cs1) (as_client cs1)"
    "map (the \<circ> cs_heap cs1) (cs_to_server cs1) = receipts_for ms @ ns"
    "cs_to_interface cs1 = filter (for_interface \<circ> msg_body) ms"
    "idle_client (cs1\<lparr>cs_to_server := [], cs_to_interface := []\<rparr>)"
    "cs_server_fd cs1 = cs_server_fd cs" "cs_interface_fd cs1 = cs_interface_fd cs"
    "cs_msg_num cs1 = cs_msg_num cs" "cs_inv cs1"
    using first_iteration [OF assms(1,2,3,5,6) req] by blast
  have "number_msgs n (receipts_for ms' @ ns) = receipts_for ms' @ number_msgs n ns" for n ms'
    by (induction ms') (simp_all add: receipts_for_def new_receipt_def NO_REQ_ID_def NO_ID_def)
  then show ?thesis
    using second_iteration [OF r1(9,2,5), of inp2] assms(4,8-11) r1 by auto
qed

section \<open>Properties\<close>

text \<open>
  C17. Every state the client process reaches has its invariant: the messages under control are alive,
  their number is the one that is counted and none is a receipt, every address in use has been
  handed out, and all messages that came from outside are well-formed. No iteration uses a null
  pointer or loops, and the handling of the messages of the server never faults.
\<close>

theorem client_process_invariant:
  assumes "reach cs_start cs_step cs"
  shows "cs_inv cs \<and> cs_run_iteration inp cs \<noteq> Inl NullDeref \<and> cs_run_iteration inp cs \<noteq> Inl Diverges
    \<and> ok_with cs_inv (process_msg_from_server cs)"
proof -
  have inv: "cs_inv cs" using cs_sys.reach_inv [OF assms] .
  have "ok_with cs_inv (process_msg_from_server cs)"
    unfolding process_msg_from_server_def
    by (rule ok_with_mono [OF server_msgs_loop_relays [OF inv refl]]) simp
  then show ?thesis
    using inv cs_iteration_inv [OF inv, of inp] by (auto simp: soft_faults_def)
qed

definition sample_link :: ClientServer where
  "sample_link = (set_interface_fd 5 (mk_client_server 4))\<lparr>cs_connected := True\<rparr>"

lemma sample_link_ok: "cs_inv sample_link \<and> idle_client sample_link"
proof
  show "cs_inv sample_link"
    unfolding sample_link_def
    by (rule cs_inv_frame [OF cs_inv_start]) (auto simp: received_msgs_def)
  show "idle_client sample_link"
    by (simp add: idle_client_def sample_link_def set_interface_fd_def mk_client_server_def FD_SETSIZE_def)
      (simp add: MsgBuffer_default_def)
qed

lemma sample_link_sel:
  "cs_server_fd sample_link = 4" "cs_interface_fd sample_link = 5" "cs_msg_num sample_link = 1"
  by (simp_all add: sample_link_def set_interface_fd_def mk_client_server_def START_REG_NUM_def)

definition conn_req :: Message where
  "conn_req = new_msg ServerConnReqMsg"

definition no_input :: ClientInput where
  "no_input = \<lparr>ci_result = 1, ci_readable = (\<lambda>_. False), ci_writable = (\<lambda>_. True), ci_read = (\<lambda>_ _. None),
     ci_write = (\<lambda>_ _. 13), ci_socket = 7, ci_connect = 0, ci_now = 100\<rparr>"

lemma connecting:
  "cs_run_iteration (no_input\<lparr>ci_readable := (\<lambda>fd. fd = 5), ci_read := (\<lambda>_ _. Some (get_data conn_req))\<rparr>)
     (set_interface_fd 5 (mk_client_server 4))
   = Inr ([], [], sample_link\<lparr>cs_to_interface := [new_msg (ServerConnStatusMsg True)],
        cs_buf_from_interface := MsgBuffer_default\<lparr>mb_is_too_small := False\<rparr>\<rparr>)"
proof -
  have wf: "\<forall>m \<in> set [conn_req]. wf_msg m"
    by (simp add: conn_req_def new_msg_def wf_msg_def fits_def NO_ID_def)
  have len: "length (get_data conn_req) < 4096"
    using length_get_data_bounds [of conn_req] wf by simp
  have "read_msg 5 (\<lambda>_. Some (get_data conn_req)) MsgBuffer_default
      = Inr (BUFF_OK, MsgBuffer_default\<lparr>mb_queue := [conn_req], mb_is_too_small := False\<rparr>)"
    using read_plain_messages [OF idle_default wf, of "\<lambda>_. Some (get_data conn_req)" 5] len
    by (simp add: MsgBuffer_default_def)
  then show ?thesis
    by (simp add: cs_run_iteration_def cs_fill_fd_sets_def cs_fd_set_def FD_SETSIZE_def cs_process_select_result_def
      cs_process_fd_actions_def cs_fd_isset_def no_input_def set_interface_fd_def mk_client_server_def
      read_msg_from_interface_def extract_all_queue Let_def process_cmd_from_interface_def sample_link_def
      process_interface_cmd_def conn_req_def new_msg_def process_server_conn_req_msg_def connect_to_server_def
      send_server_conn_status_def redirect_to_interface_def MsgBuffer_default_def del: extract_all.simps)
qed

theorem client_process_invariant_witness:
  "\<exists>cs. reach cs_start cs_step cs \<and> cs_connected cs \<and> cs_to_interface cs = [new_msg (ServerConnStatusMsg True)]
    \<and> ok_with cs_inv (process_msg_from_server cs)"
proof -
  let ?i = "no_input\<lparr>ci_readable := (\<lambda>fd. fd = 5), ci_read := (\<lambda>_ _. Some (get_data conn_req))\<rparr>"
  let ?cs = "sample_link\<lparr>cs_to_interface := [new_msg (ServerConnStatusMsg True)],
        cs_buf_from_interface := MsgBuffer_default\<lparr>mb_is_too_small := False\<rparr>\<rparr>"
  have "reach cs_start cs_step (set_interface_fd 5 (mk_client_server 4))"
    by (rule reach_init) (auto simp: cs_start_def)
  moreover have "cs_step ?i (set_interface_fd 5 (mk_client_server 4)) = Inr ?cs"
    using connecting by (simp add: cs_step_def set_interface_fd_def mk_client_server_def)
  ultimately have r: "reach cs_start cs_step ?cs" by (rule reach_step)
  show ?thesis
    using client_process_invariant [OF r] r
    by (intro exI [of _ ?cs]) (simp add: sample_link_def set_interface_fd_def mk_client_server_def)
qed

text \<open>
  C7. The client process relays in both directions, in order and without loss. When the server and
  the interface each send some messages to an idle client, and both sides are then ready to take
  what it writes, two iterations of its main loop send a receipt for every message of the server but
  the receipts, followed by the requests of the interface with the next free numbers, to the server,
  and exactly the messages of the server that are meant for the interface, unchanged, to the interface.
\<close>

theorem client_relays_both_ways:
  assumes "cs_inv cs" and "idle_client cs" and "ci_result inp1 \<noteq> -1" and "ci_result inp2 \<noteq> -1"
    and "delivers inp1 (cs_server_fd cs) ms" and "delivers inp1 (cs_interface_fd cs) ns"
    and "list_all (for_server \<circ> msg_body) ns"
    and "\<not> ci_readable inp2 (cs_server_fd cs)" and "\<not> ci_readable inp2 (cs_interface_fd cs)"
    and "takes inp2 (cs_server_fd cs) (receipts_for ms @ ns)"
    and "takes inp2 (cs_interface_fd cs) (filter (for_interface \<circ> msg_body) ms)"
  shows "\<exists>cs1 cs2. cs_run_iteration inp1 cs = Inr ([], [], cs1)
    \<and> cs_run_iteration inp2 cs1
      = Inr (map get_data (receipts_for ms @ number_msgs (cs_msg_num cs) ns),
          map get_data (filter (for_interface \<circ> msg_body) ms), cs2)
    \<and> cs_inv cs2 \<and> idle_client (cs2\<lparr>cs_to_server := []\<rparr>)"
  using relay_two_iterations [OF assms] by blast

theorem client_relays_both_ways_witness:
  "\<exists>inp1 inp2 cs1 cs2. cs_run_iteration inp1 sample_link = Inr ([], [], cs1)
    \<and> cs_run_iteration inp2 cs1
      = Inr ([get_data (new_receipt 8), get_data \<lparr>msg_id = 1, msg_body = GameSessionReqMsg\<rparr>],
          [get_data \<lparr>msg_id = 8, msg_body = StopPreparationMsg\<rparr>], cs2)"
proof -
  let ?m = "\<lparr>msg_id = 8, msg_body = StopPreparationMsg\<rparr>" and ?n = "new_msg GameSessionReqMsg"
  define inp1 where "inp1 = no_input\<lparr>ci_readable := (\<lambda>_. True),
    ci_read := (\<lambda>fd _. Some (get_data (if fd = 4 then ?m else ?n)))\<rparr>"
  define inp2 where "inp2 = no_input\<lparr>ci_write := (\<lambda>fd i. if fd = 4 \<and> i = 0 then 21 else 13)\<rparr>"
  have wf: "wf_msg ?m" "wf_msg ?n" by (simp_all add: wf_msg_def new_msg_def fits_def NO_ID_def)
  have len: "length (get_data ?m) < 4096" "length (get_data ?n) < 4096"
    using length_get_data_bounds [OF wf(1)] length_get_data_bounds [OF wf(2)] by simp_all
  have rc: "receipts_for [?m] = [new_receipt 8]" by (simp add: receipts_for_def msg_type_def)
  have inv: "cs_inv sample_link" and idle: "idle_client sample_link" using sample_link_ok by blast+
  note fd = sample_link_sel
  have d: "delivers inp1 4 [?m]" "delivers inp1 5 [?n]"
    using wf len by (simp_all add: delivers_def inp1_def no_input_def)
  have t: "takes inp2 4 [new_receipt 8, ?n]" "takes inp2 5 [?m]"
    by (auto simp: takes_def inp2_def no_input_def less_Suc_eq msg_type_def new_msg_def new_receipt_def wire_simps)
  have "\<exists>cs1 cs2. cs_run_iteration inp1 sample_link = Inr ([], [], cs1)
    \<and> cs_run_iteration inp2 cs1
      = Inr (map get_data (receipts_for [?m] @ number_msgs (cs_msg_num sample_link) [?n]),
          map get_data (filter (for_interface \<circ> msg_body) [?m]), cs2)
    \<and> cs_inv cs2 \<and> idle_client (cs2\<lparr>cs_to_server := []\<rparr>)"
    by (rule client_relays_both_ways [OF inv idle])
      (use d t in \<open>simp_all add: fd rc, simp_all add: inp1_def inp2_def no_input_def new_msg_def\<close>)
  then show ?thesis by (auto simp: rc fd new_msg_def NO_ID_def)
qed

end
