(* ===== verification/Cursor.thy ===== *)
theory Cursor
  imports Geometry
begin

text \<open>
  The cursor of the terminal interface (\<^verbatim>\<open>src/client/ncurses/cursor.h\<close>, \<^verbatim>\<open>cursor.cpp\<close>), and the
  calls of the curses library the interface makes. An operation that draws returns its calls in
  their order.
\<close>

section \<open>Calls of the library\<close>

datatype curses_call =
    Move int int
  | AddCh int
  | AddStr string
  | MvAddCh int int int
  | Refresh
  | CursSet int
  | AttrOn nat
  | AttrOff nat
  | InitScr
  | Cbreak
  | Keypad bool
  | NoEcho
  | StartColor
  | InitPair nat nat nat
  | EndWin
  | SetTimeout int

section \<open>The cursor\<close>

text \<open>\<open>cu_min\<close> is the upper left corner, \<open>cu_max\<close> the lower right one, which does not belong to the area.\<close>

record Cursor =
  cu_pos :: Point
  cu_min :: Point
  cu_max :: Point

definition Cursor_default :: Cursor where
  "Cursor_default = \<lparr>cu_pos = Point_default, cu_min = Point_default, cu_max = Point_default\<rparr>"

definition is_valid_boundary :: "Point \<Rightarrow> Point \<Rightarrow> bool" where
  "is_valid_boundary p_min p_max =
     (if px p_min \<ge> px p_max \<or> py p_min \<ge> py p_max then False else True)"

definition mk_cursor :: "Point \<Rightarrow> Point \<Rightarrow> Cursor" where
  "mk_cursor p_min p_max =
     (if \<not> is_valid_boundary p_min p_max
      then \<lparr>cu_pos = Point_default, cu_min = Point_default, cu_max = Point_default\<rparr>
      else \<lparr>cu_pos = p_min, cu_min = p_min, cu_max = p_max\<rparr>)"

text \<open>The four tests of \<open>_check_pos\<close>, one after the other.\<close>

definition check_pos :: "Cursor \<Rightarrow> Cursor" where
  "check_pos c =
     (let p = cu_pos c;
          p1 = (if px p < px (cu_min c) then Point (px (cu_max c) - 1) (py p) else p);
          p2 = (if py p1 < py (cu_min c) then Point (px p1) (py (cu_max c) - 1) else p1);
          p3 = (if px p2 \<ge> px (cu_max c) then Point (px (cu_min c)) (py p2) else p2);
          p4 = (if py p3 \<ge> py (cu_max c) then Point (px p3) (py (cu_min c)) else p3)
      in c\<lparr>cu_pos := p4\<rparr>)"

definition get_pos :: "Cursor \<Rightarrow> Point" where
  "get_pos c = cu_pos c"

definition set_pos :: "Point \<Rightarrow> Cursor \<Rightarrow> Cursor" where
  "set_pos p_pos c = check_pos (c\<lparr>cu_pos := p_pos\<rparr>)"

definition set_related_pos :: "Point \<Rightarrow> Cursor \<Rightarrow> Cursor" where
  "set_related_pos p_pos c = check_pos (c\<lparr>cu_pos := p_pos + cu_min c\<rparr>)"

definition get_related_pos :: "Cursor \<Rightarrow> Point" where
  "get_related_pos c = cu_pos c - cu_min c"

definition return_to_pos :: "Cursor \<Rightarrow> curses_call list" where
  "return_to_pos c = [Move (py (cu_pos c)) (px (cu_pos c))]"

definition cursor_move :: "Point \<Rightarrow> Cursor \<Rightarrow> Cursor \<times> curses_call list" where
  "cursor_move offset c =
     (let c' = check_pos (c\<lparr>cu_pos := cu_pos c + offset\<rparr>) in (c', return_to_pos c'))"

definition cursor_show :: "Cursor \<Rightarrow> curses_call list" where
  "cursor_show c = [Move (py (cu_pos c)) (px (cu_pos c)), CursSet 1]"

definition cursor_hide :: "curses_call list" where
  "cursor_hide = [CursSet 0]"

definition set_boundary :: "Point \<Rightarrow> Point \<Rightarrow> Cursor \<Rightarrow> Cursor \<times> curses_call list" where
  "set_boundary p_min p_max c =
     (let c' = (if is_valid_boundary p_min p_max
                then c\<lparr>cu_min := p_min, cu_max := p_max, cu_pos := p_min\<rparr> else c)
      in (c', return_to_pos c'))"

section \<open>The area\<close>

definition cursor_ok :: "Cursor \<Rightarrow> bool" where
  "cursor_ok c \<longleftrightarrow> px (cu_min c) \<le> px (cu_pos c) \<and> px (cu_pos c) < px (cu_max c)
     \<and> py (cu_min c) \<le> py (cu_pos c) \<and> py (cu_pos c) < py (cu_max c)"

lemma is_valid_boundary_iff: "is_valid_boundary p q \<longleftrightarrow> px p < px q \<and> py p < py q"
  by (auto simp: is_valid_boundary_def)

lemma check_pos_frame [simp]: "cu_min (check_pos c) = cu_min c" "cu_max (check_pos c) = cu_max c"
  by (simp_all add: check_pos_def Let_def)

lemma check_pos_ok: "is_valid_boundary (cu_min c) (cu_max c) \<Longrightarrow> cursor_ok (check_pos c)"
  by (auto simp: check_pos_def Let_def cursor_ok_def is_valid_boundary_iff)

lemma check_pos_inside: "cursor_ok c \<Longrightarrow> check_pos c = c"
  by (cases c) (auto simp: check_pos_def Let_def cursor_ok_def)

lemma set_pos_ok: "is_valid_boundary (cu_min c) (cu_max c) \<Longrightarrow> cursor_ok (check_pos (c\<lparr>cu_pos := p\<rparr>))"
  by (rule check_pos_ok) simp

lemma set_boundary_ok: "cursor_ok c \<Longrightarrow> cursor_ok (fst (set_boundary p q c))"
  by (auto simp: set_boundary_def Let_def cursor_ok_def is_valid_boundary_iff)

lemma cursor_ok_boundary: "cursor_ok c \<Longrightarrow> is_valid_boundary (cu_min c) (cu_max c)"
  by (auto simp: cursor_ok_def is_valid_boundary_iff)

text \<open>One step to the side, on the torus of the area.\<close>

definition torus :: "int \<Rightarrow> int \<Rightarrow> int \<Rightarrow> int" where
  "torus lo hi x = lo + (x - lo) mod (hi - lo)"

lemma torus_step:
  fixes lo hi x d :: int
  assumes "lo \<le> x" "x < hi" "d = -1 \<or> d = 0 \<or> d = 1"
  shows "torus lo hi (x + d) = (if x + d < lo then hi - 1 else if x + d \<ge> hi then lo else x + d)"
proof -
  consider "x + d < lo" | "x + d \<ge> hi" | "lo \<le> x + d" "x + d < hi" by linarith
  then show ?thesis
  proof cases
    case 1
    then have "x = lo" "d = -1" using assms by auto
    moreover have "(-1) mod (hi - lo) = hi - lo - 1" using assms by (simp add: zmod_minus1)
    ultimately show ?thesis by (simp add: torus_def)
  next
    case 2
    then have "x + d - lo = hi - lo" using assms by auto
    then show ?thesis using 2 assms by (simp add: torus_def)
  next
    case 3
    then have "(x + d - lo) mod (hi - lo) = x + d - lo" by (intro mod_pos_pos_trivial) auto
    then show ?thesis using 3 by (simp add: torus_def)
  qed
qed

lemma check_pos_pos:
  assumes "is_valid_boundary (cu_min c) (cu_max c)"
  shows "cu_pos (check_pos c)
    = Point (if px (cu_pos c) < px (cu_min c) then px (cu_max c) - 1
             else if px (cu_pos c) \<ge> px (cu_max c) then px (cu_min c) else px (cu_pos c))
        (if py (cu_pos c) < py (cu_min c) then py (cu_max c) - 1
         else if py (cu_pos c) \<ge> py (cu_max c) then py (cu_min c) else py (cu_pos c))"
  using assms by (cases "cu_pos c") (auto simp: check_pos_def Let_def is_valid_boundary_iff)

text \<open>
  The cursor never leaves its area: every operation that sets or moves it ends inside, moves by
  one cell go around the area as on a torus, and a valid new boundary puts it into the upper left
  corner while an invalid one changes nothing.
\<close>

lemma cursor_stays_inside:
  assumes "cursor_ok c" "px d \<in> {-1, 0, 1}" "py d \<in> {-1, 0, 1}"
  shows "cursor_ok (fst (cursor_move d c)) \<and> cursor_ok (set_pos p c) \<and> cursor_ok (set_related_pos p c)
    \<and> cu_pos (fst (cursor_move d c)) = Point (torus (px (cu_min c)) (px (cu_max c)) (px (cu_pos c + d)))
        (torus (py (cu_min c)) (py (cu_max c)) (py (cu_pos c + d)))
    \<and> cursor_ok (fst (set_boundary p q c))
    \<and> (if is_valid_boundary p q then cu_pos (fst (set_boundary p q c)) = p else fst (set_boundary p q c) = c)"
proof -
  have v: "is_valid_boundary (cu_min c) (cu_max c)" by (rule cursor_ok_boundary [OF assms(1)])
  have t: "px d = -1 \<or> px d = 0 \<or> px d = 1" "py d = -1 \<or> py d = 0 \<or> py d = 1" using assms(2,3) by auto
  have "cu_pos (fst (cursor_move d c)) = Point (torus (px (cu_min c)) (px (cu_max c)) (px (cu_pos c + d)))
        (torus (py (cu_min c)) (py (cu_max c)) (py (cu_pos c + d)))"
    using assms(1) v torus_step [of "px (cu_min c)" "px (cu_pos c)" "px (cu_max c)" "px d", OF _ _ t(1)]
      torus_step [of "py (cu_min c)" "py (cu_pos c)" "py (cu_max c)" "py d", OF _ _ t(2)]
    by (simp add: cursor_move_def Let_def check_pos_pos cursor_ok_def)
  moreover have "if is_valid_boundary p q then cu_pos (fst (set_boundary p q c)) = p else fst (set_boundary p q c) = c"
    by (simp add: set_boundary_def Let_def)
  ultimately show ?thesis
    using set_pos_ok [OF v] set_boundary_ok [OF assms(1), of p q]
    by (simp add: cursor_move_def set_pos_def set_related_pos_def Let_def)
qed

lemma cursor_stays_inside_example:
  "cu_pos (fst (cursor_move (Point 0 (-1)) (mk_cursor (Point 1 3) (Point 11 13)))) = Point 1 12"
  using cursor_stays_inside [of "mk_cursor (Point 1 3) (Point 11 13)" "Point 0 (-1)"]
  by (simp add: mk_cursor_def is_valid_boundary_def cursor_ok_def torus_def)

end
