(* ===== verification/NcursesInterface.thy ===== *)
theory NcursesInterface
  imports Cursor Timing Const FieldShots
begin

text \<open>
  The interface of the game: its state (\<^verbatim>\<open>src/client/interface/game_interface.h\<close>,
  \<^verbatim>\<open>game_interface.cpp\<close>) and its implementation on a terminal
  (\<^verbatim>\<open>src/client/ncurses/ncurses_interface.h\<close>, \<^verbatim>\<open>ncurses_interface.cpp\<close>). The derived class is an
  extension of the record of the base class. What is drawn is the list of the calls of the curses
  library; the key read, the time, the contents of the background file and the answer of
  \<^verbatim>\<open>has_colors\<close> are arguments.
\<close>

section \<open>The base class\<close>

datatype InterfaceMode = IDLE_MODE | WAIT_MODE | PREPARATION_MODE | OWN_TURN_MODE | ENEMY_TURN_MODE

text \<open>The state is the number a message carries, which need not be one of the enumeration.\<close>

record GameInterface =
  gi_server_conn :: bool
  gi_own_field :: GameField
  gi_enemy_field :: GameField
  gi_state :: int
  gi_mode :: InterfaceMode
  gi_last_shot :: Point

definition set_own_field :: "GameField \<Rightarrow> 'a GameInterface_scheme \<Rightarrow> 'a GameInterface_scheme" where
  "set_own_field f gi = gi\<lparr>gi_own_field := f\<rparr>"

definition get_own_field :: "'a GameInterface_scheme \<Rightarrow> GameField" where
  "get_own_field gi = gi_own_field gi"

definition set_enemy_field :: "GameField \<Rightarrow> 'a GameInterface_scheme \<Rightarrow> 'a GameInterface_scheme" where
  "set_enemy_field f gi = gi\<lparr>gi_enemy_field := f\<rparr>"

definition get_enemy_field :: "'a GameInterface_scheme \<Rightarrow> GameField" where
  "get_enemy_field gi = gi_enemy_field gi"

definition get_mode :: "'a GameInterface_scheme \<Rightarrow> InterfaceMode" where
  "get_mode gi = gi_mode gi"

definition set_mode :: "InterfaceMode \<Rightarrow> 'a GameInterface_scheme \<Rightarrow> 'a GameInterface_scheme" where
  "set_mode m gi = gi\<lparr>gi_mode := m\<rparr>"

definition gi_get_last_shot :: "'a GameInterface_scheme \<Rightarrow> Point" where
  "gi_get_last_shot gi = gi_last_shot gi"

definition gi_set_last_shot :: "Point \<Rightarrow> 'a GameInterface_scheme \<Rightarrow> 'a GameInterface_scheme" where
  "gi_set_last_shot shot gi = gi\<lparr>gi_last_shot := shot\<rparr>"

section \<open>The terminal interface\<close>

record NcursesInterface = GameInterface +
  ni_loaded :: bool
  ni_background :: "int \<Rightarrow> int \<Rightarrow> int"
  ni_has_color :: bool
  ni_cursor :: Cursor
  ni_timer :: Timer

definition WIDTH :: int where "WIDTH = 25"
definition HEIGHT :: int where "HEIGHT = 21"
definition OWN_FIELD_START_Y :: int where "OWN_FIELD_START_Y = 3"
definition OWN_FIELD_START_X :: int where "OWN_FIELD_START_X = 1"
definition ENEMY_FIELD_START_Y :: int where "ENEMY_FIELD_START_Y = 3"
definition ENEMY_FIELD_START_X :: int where "ENEMY_FIELD_START_X = 14"
definition FIELD_SIZE :: int where "FIELD_SIZE = 10"
definition SERVER_STATE_Y :: int where "SERVER_STATE_Y = 19"
definition SERVER_STATE_X :: int where "SERVER_STATE_X = 12"
definition GAME_STATUS_Y :: int where "GAME_STATUS_Y = 14"
definition GAME_STATUS_X :: int where "GAME_STATUS_X = 3"
definition GAME_STATUS_WIDTH :: int where "GAME_STATUS_WIDTH = 20"
definition TIMER_Y :: int where "TIMER_Y = 15"
definition TIMER_X :: int where "TIMER_X = 3"
definition TIMER_WIDTH :: int where "TIMER_WIDTH = 20"
definition USER_MSG_Y :: int where "USER_MSG_Y = 16"
definition USER_MSG_X :: int where "USER_MSG_X = 3"
definition USER_MSG_WIDTH :: int where "USER_MSG_WIDTH = 20"

definition ERROR_COL_PAIR :: nat where "ERROR_COL_PAIR = 0"
definition OK_COL_PAIR :: nat where "OK_COL_PAIR = 1"

text \<open>The keys of the library, and the codes of the characters the input is compared with.\<close>

definition KEY_DOWN :: int where "KEY_DOWN = 258"
definition KEY_UP :: int where "KEY_UP = 259"
definition KEY_LEFT :: int where "KEY_LEFT = 260"
definition KEY_RIGHT :: int where "KEY_RIGHT = 261"
definition ERR :: int where "ERR = -1"

definition char_code :: "char \<Rightarrow> int" where
  "char_code c = of_char c"

section \<open>Clearing\<close>

text \<open>\<open>n\<close> spaces from a position on.\<close>

definition blanks :: "int \<Rightarrow> int \<Rightarrow> int \<Rightarrow> curses_call list" where
  "blanks y x n = Move y x # replicate (nat n) (AddCh (char_code CHR '' ''))"

definition clear_own_field :: "curses_call list" where
  "clear_own_field =
     concat (map (\<lambda>i. blanks (OWN_FIELD_START_Y + i) OWN_FIELD_START_X FIELD_SIZE) [0..FIELD_SIZE - 1]) @ [Refresh]"

definition clear_enemy_field :: "curses_call list" where
  "clear_enemy_field =
     concat (map (\<lambda>i. blanks (ENEMY_FIELD_START_Y + i) ENEMY_FIELD_START_X FIELD_SIZE) [0..FIELD_SIZE - 1]) @ [Refresh]"

definition clear_server_state :: "curses_call list" where
  "clear_server_state = blanks SERVER_STATE_Y SERVER_STATE_X FIELD_SIZE @ [Refresh]"

definition clear_game_state :: "curses_call list" where
  "clear_game_state = blanks GAME_STATUS_Y GAME_STATUS_X GAME_STATUS_WIDTH @ [Refresh]"

definition clear_user_msg :: "curses_call list" where
  "clear_user_msg = blanks USER_MSG_Y USER_MSG_X USER_MSG_WIDTH @ [Refresh]"

definition clear_timer :: "curses_call list" where
  "clear_timer = blanks TIMER_Y TIMER_X TIMER_WIDTH @ [Refresh]"

definition clear_all :: "curses_call list" where
  "clear_all = clear_own_field @ clear_enemy_field @ clear_server_state @ clear_game_state
     @ clear_user_msg @ clear_timer"

section \<open>Drawing\<close>

definition on_color :: "nat \<Rightarrow> curses_call list" where "on_color cp = [AttrOn cp]"
definition off_color :: "nat \<Rightarrow> curses_call list" where "off_color cp = [AttrOff cp]"

definition draw_server_conn_state :: "NcursesInterface \<Rightarrow> curses_call list" where
  "draw_server_conn_state ni =
     (let (status, col_pair) = (if gi_server_conn ni then (''ON'', OK_COL_PAIR) else (''OFF'', ERROR_COL_PAIR))
      in clear_server_state @ [Move SERVER_STATE_Y SERVER_STATE_X] @ on_color col_pair @ [AddStr status]
         @ off_color col_pair @ return_to_pos (ni_cursor ni))"

definition state_text :: "int \<Rightarrow> string" where
  "state_text st =
     (if st = GameState_code NO_VACANT_GAME then ''No game''
      else if st = GameState_code WAIT_PLAYER then ''Wait opponent''
      else if st = GameState_code WAIT_PREPARATION then ''Wait preparation''
      else if st = GameState_code PREPARATION then ''Preparation''
      else if st = GameState_code WAIT_START then ''Wait start''
      else if st = GameState_code GAME_TURN then ''In game''
      else if st = GameState_code PROCESS_TURN then ''Process turn''
      else if st = GameState_code OWN_TURN then ''Your turn''
      else if st = GameState_code ENEMY_TURN then ''Enemies turn''
      else if st = GameState_code WIN_GAME then ''You win!''
      else if st = GameState_code LOSE_GAME then ''You lose''
      else [])"

definition draw_game_state :: "NcursesInterface \<Rightarrow> curses_call list" where
  "draw_game_state ni =
     clear_game_state @ [Move GAME_STATUS_Y GAME_STATUS_X, AddStr (state_text (gi_state ni))]
     @ return_to_pos (ni_cursor ni)"

text \<open>\<^verbatim>\<open>%02d\<close> of an \<^verbatim>\<open>int\<close>, and the buffer of six characters with its zero.\<close>

fun decimal :: "nat \<Rightarrow> string" where
  "decimal n = (if n < 10 then [char_of (48 + n)] else decimal (n div 10) @ [char_of (48 + n mod 10)])"

declare decimal.simps [simp del]

definition two_digits :: "int \<Rightarrow> string" where
  "two_digits n =
     (if n < 0 then CHR ''-'' # decimal (nat (- n))
      else if n < 10 then CHR ''0'' # decimal (nat n)
      else decimal (nat n))"

text \<open>
  \<^verbatim>\<open>int min = sec / 60\<close> cuts the quotient to 32 bits, and the product \<^verbatim>\<open>min * 60\<close> is one of 32 bits; from
  35791395 minutes on it leaves the range, where C++ does not say what happens and the bits that are
  left are taken here.
\<close>

definition to_int :: "int \<Rightarrow> int" where
  "to_int n = sint (word_of_int n :: 32 word)"

definition timer_text :: "int \<Rightarrow> string" where
  "timer_text sec =
     (let mins = to_int (sec div 60); sec' = sec - to_int (mins * 60) in
      take 5 (two_digits mins @ '':'' @ two_digits sec'))"

definition draw_timer :: "int \<Rightarrow> NcursesInterface \<Rightarrow> curses_call list" where
  "draw_timer now ni =
     (if \<not> timer_is_active (ni_timer ni) then []
      else
        (let sec = timer_remain now (ni_timer ni) in
         if sec = 0 then []
         else clear_timer @ [Move TIMER_Y TIMER_X, AddStr (timer_text sec)] @ return_to_pos (ni_cursor ni)))"

definition draw_background :: "NcursesInterface \<Rightarrow> curses_call list" where
  "draw_background ni =
     concat (map (\<lambda>y. map (\<lambda>x. MvAddCh y x (ni_background ni x y)) [0..WIDTH - 1]) [0..HEIGHT - 1])"

text \<open>The two fields are drawn in the same way, each at its place.\<close>

definition draw_field_at :: "int \<Rightarrow> int \<Rightarrow> GameField \<Rightarrow> curses_call list" where
  "draw_field_at start_y start_x f =
     (let offset = Point start_x start_y in
      concat (map (\<lambda>i. map (\<lambda>j.
        (let pos = Point (start_x + j) (start_y + i) in
         MvAddCh (py pos) (px pos) (char_code (get_cell_char (get_state f (pos - offset))))))
        [0..FIELD_SIZE - 1]) [0..FIELD_SIZE - 1]))"

definition draw_own_field :: "NcursesInterface \<Rightarrow> curses_call list" where
  "draw_own_field ni =
     draw_field_at OWN_FIELD_START_Y OWN_FIELD_START_X (gi_own_field ni) @ return_to_pos (ni_cursor ni)"

definition draw_enemy_field :: "NcursesInterface \<Rightarrow> curses_call list" where
  "draw_enemy_field ni =
     draw_field_at ENEMY_FIELD_START_Y ENEMY_FIELD_START_X (gi_enemy_field ni) @ return_to_pos (ni_cursor ni)"

definition show_interface :: "int \<Rightarrow> NcursesInterface \<Rightarrow> curses_call list" where
  "show_interface now ni =
     draw_background ni @ draw_own_field ni @ draw_enemy_field ni @ draw_game_state ni
     @ draw_server_conn_state ni @ draw_timer now ni @ [Refresh]"

section \<open>Setting up\<close>

definition move_cursor_to_own_field :: "NcursesInterface \<Rightarrow> NcursesInterface \<times> curses_call list" where
  "move_cursor_to_own_field ni =
     (let (c, out) = set_boundary (Point OWN_FIELD_START_X OWN_FIELD_START_Y)
            (Point (OWN_FIELD_START_X + FIELD_SIZE) (OWN_FIELD_START_Y + FIELD_SIZE)) (ni_cursor ni)
      in (ni\<lparr>ni_cursor := c\<rparr>, out))"

definition move_cursor_to_enemy_field :: "NcursesInterface \<Rightarrow> NcursesInterface \<times> curses_call list" where
  "move_cursor_to_enemy_field ni =
     (let (c, out) = set_boundary (Point ENEMY_FIELD_START_X ENEMY_FIELD_START_Y)
            (Point (ENEMY_FIELD_START_X + FIELD_SIZE) (ENEMY_FIELD_START_Y + FIELD_SIZE)) (ni_cursor ni)
      in (ni\<lparr>ni_cursor := c\<rparr>, out))"

text \<open>
  The loops of \<open>_load\<close> over the places \<open>(x, y)\<close>, row by row: one character for each of them, with one
  line end before it skipped. \<open>None\<close> is a file that cannot be opened.
\<close>

definition fgetc :: "int list \<Rightarrow> int \<times> int list" where
  "fgetc file = (case file of [] \<Rightarrow> (-1, []) | c # cs \<Rightarrow> (c, cs))"

fun load_walk :: "(int \<times> int) list \<Rightarrow> int list \<Rightarrow> (int \<Rightarrow> int \<Rightarrow> int) \<Rightarrow> bool \<times> (int \<Rightarrow> int \<Rightarrow> int)" where
  "load_walk [] file img = (True, img)"
| "load_walk ((x, y) # ps) file img =
     (let (c, file1) = fgetc file;
          (c', file2) = (if c = 10 then fgetc file1 else (c, file1))
      in if c' = -1 then (False, img)
         else load_walk ps file2 (img(x := (img x)(y := c'))))"

definition load_background :: "int list option \<Rightarrow> (int \<Rightarrow> int \<Rightarrow> int) \<Rightarrow> bool \<times> (int \<Rightarrow> int \<Rightarrow> int)" where
  "load_background file img =
     (case file of
        None \<Rightarrow> (False, img)
      | Some cs \<Rightarrow> load_walk (concat (map (\<lambda>y. map (\<lambda>x. (x, y)) [0..WIDTH - 1]) [0..HEIGHT - 1])) cs img)"

definition init_color_pairs :: "curses_call list" where
  "init_color_pairs = [InitPair ERROR_COL_PAIR 1 0, InitPair OK_COL_PAIR 2 0]"

definition init_curses_mode :: "bool \<Rightarrow> NcursesInterface \<Rightarrow> NcursesInterface \<times> curses_call list" where
  "init_curses_mode has_colors ni =
     (if has_colors then (ni\<lparr>ni_has_color := True\<rparr>,
        [InitScr, Cbreak, Keypad True, NoEcho] @ cursor_hide @ [StartColor] @ init_color_pairs)
      else (ni, [InitScr, Cbreak, Keypad True, NoEcho] @ cursor_hide))"

definition mk_interface :: "int list option \<Rightarrow> bool \<Rightarrow> (int \<Rightarrow> int \<Rightarrow> int) \<Rightarrow> NcursesInterface \<times> curses_call list" where
  "mk_interface file has_colors img =
     (let (ok, img') = load_background file img;
          ni = \<lparr>gi_server_conn = False, gi_own_field = GameField_default, gi_enemy_field = GameField_default,
                gi_state = GameState_code NO_VACANT_GAME, gi_mode = IDLE_MODE, gi_last_shot = Point 0 0,
                ni_loaded = ok, ni_background = img', ni_has_color = False, ni_cursor = Cursor_default,
                ni_timer = mk_timer 0\<rparr>;
          (ni1, out1) = (if ok then init_curses_mode has_colors ni else (ni, []));
          (ni2, out2) = move_cursor_to_own_field ni1
      in (ni2, out1 @ out2))"

text \<open>The destructor.\<close>

definition interface_end :: "curses_call list" where
  "interface_end = [EndWin]"

definition is_valid_interface :: "NcursesInterface \<Rightarrow> bool" where
  "is_valid_interface ni = ni_loaded ni"

section \<open>Input\<close>

definition process_enter_input :: "NcursesInterface \<Rightarrow> InputResult \<times> NcursesInterface" where
  "process_enter_input ni =
     (if gi_mode ni = PREPARATION_MODE then
        (let pos_on_field = get_related_pos (ni_cursor ni) in
         if \<not> field_contains pos_on_field then (INVALID_IN, ni)
         else
           (let ni1 = gi_set_last_shot pos_on_field ni;
                f = gi_own_field ni1;
                f' = (if get_state f pos_on_field = CELL_EMPTY then set_point f pos_on_field CELL_UNHARMED
                      else set_point f pos_on_field CELL_EMPTY)
            in (PREPARE_FIELD_IN, ni1\<lparr>gi_own_field := f'\<rparr>)))
      else if gi_mode ni = OWN_TURN_MODE then
        (let shot_pos = get_related_pos (ni_cursor ni) in
         if get_state (gi_enemy_field ni) shot_pos \<noteq> CELL_EMPTY then (INVALID_IN, ni)
         else (SHOT_IN, (gi_set_last_shot shot_pos ni)\<lparr>gi_mode := WAIT_MODE\<rparr>))
      else (INVALID_IN, ni))"

definition process_move_input :: "int \<Rightarrow> NcursesInterface \<Rightarrow> InputResult \<times> NcursesInterface \<times> curses_call list" where
  "process_move_input key ni =
     (let step = (\<lambda>d. let (c, out) = cursor_move d (ni_cursor ni) in (CURSOR_MOVE_IN, ni\<lparr>ni_cursor := c\<rparr>, out)) in
      if gi_mode ni \<noteq> PREPARATION_MODE \<and> gi_mode ni \<noteq> OWN_TURN_MODE then (INVALID_IN, ni, [])
      else if key = KEY_UP then step (Point 0 (-1))
      else if key = KEY_DOWN then step (Point 0 1)
      else if key = KEY_LEFT then step (Point (-1) 0)
      else if key = KEY_RIGHT then step (Point 1 0)
      else (INVALID_IN, ni, []))"

definition process_input :: "int \<Rightarrow> NcursesInterface \<Rightarrow> InputResult \<times> NcursesInterface \<times> curses_call list" where
  "process_input key ni =
     (let (r, ni', out) =
        (if key = KEY_UP \<or> key = KEY_DOWN \<or> key = KEY_LEFT \<or> key = KEY_RIGHT then process_move_input key ni
         else if key = char_code CHR '' '' then (let (r, ni') = process_enter_input ni in (r, ni', []))
         else if key = char_code CHR ''s'' then (REQ_GAME_SESSION_IN, ni, [])
         else if key = char_code CHR ''c'' then (REQ_SERVER_CONN_IN, ni, [])
         else if key = char_code CHR ''q'' then (QUIT_IN, ni, [])
         else (INVALID_IN, ni, []))
      in (r, ni', SetTimeout 100 # out))"

section \<open>States and modes\<close>

definition interface_set_state :: "int \<Rightarrow> NcursesInterface \<Rightarrow> NcursesInterface \<times> curses_call list" where
  "interface_set_state p_state ni = (let ni' = ni\<lparr>gi_state := p_state\<rparr> in (ni', draw_game_state ni'))"

definition set_server_conn_state :: "bool \<Rightarrow> NcursesInterface \<Rightarrow> NcursesInterface \<times> curses_call list" where
  "set_server_conn_state connected ni =
     (let ni' = ni\<lparr>gi_server_conn := connected\<rparr> in (ni', draw_server_conn_state ni'))"

text \<open>The timer runs for the time that is left until \<open>end_time\<close>.\<close>

definition start_timer_until :: "int \<Rightarrow> int \<Rightarrow> NcursesInterface \<Rightarrow> NcursesInterface" where
  "start_timer_until now end_time ni =
     ni\<lparr>ni_timer := timer_start now (timer_set_duration (end_time - now) (ni_timer ni))\<rparr>"

definition activate_preparation_mode :: "int \<Rightarrow> int \<Rightarrow> NcursesInterface \<Rightarrow> NcursesInterface \<times> curses_call list" where
  "activate_preparation_mode now end_time ni =
     (let (ni1, out) = move_cursor_to_own_field (set_mode PREPARATION_MODE ni)
      in (start_timer_until now end_time ni1, out @ cursor_show (ni_cursor ni1)))"

definition stop_preparation_mode :: "NcursesInterface \<Rightarrow> NcursesInterface \<times> curses_call list" where
  "stop_preparation_mode ni =
     (if gi_mode ni \<noteq> PREPARATION_MODE then (ni, [])
      else (gi_set_last_shot (Point 0 0) (set_mode WAIT_MODE (ni\<lparr>ni_timer := timer_stop (ni_timer ni)\<rparr>)), cursor_hide))"

definition activate_own_turn_mode :: "int \<Rightarrow> int \<Rightarrow> NcursesInterface \<Rightarrow> NcursesInterface \<times> curses_call list" where
  "activate_own_turn_mode now end_time ni =
     (let (ni1, out) = move_cursor_to_enemy_field (set_mode OWN_TURN_MODE ni);
          ni2 = ni1\<lparr>ni_cursor := set_related_pos (gi_get_last_shot ni1) (ni_cursor ni1)\<rparr>
      in (start_timer_until now end_time ni2, out @ cursor_show (ni_cursor ni2)))"

definition stop_own_turn_mode :: "NcursesInterface \<Rightarrow> NcursesInterface \<times> curses_call list" where
  "stop_own_turn_mode ni =
     ((set_mode WAIT_MODE ni)\<lparr>ni_timer := timer_stop (ni_timer ni)\<rparr>, cursor_hide)"

definition activate_enemy_turn_mode :: "int \<Rightarrow> int \<Rightarrow> NcursesInterface \<Rightarrow> NcursesInterface \<times> curses_call list" where
  "activate_enemy_turn_mode now end_time ni =
     (start_timer_until now end_time (set_mode ENEMY_TURN_MODE ni), cursor_hide)"

definition stop_enemy_turn_mode :: "NcursesInterface \<Rightarrow> NcursesInterface \<times> curses_call list" where
  "stop_enemy_turn_mode ni =
     ((set_mode WAIT_MODE ni)\<lparr>ni_timer := timer_stop (ni_timer ni)\<rparr>, [])"

end
