(* ===== verification/BattleshipGame.thy ===== *)
theory BattleshipGame
  imports NcursesInterface ClientServer
begin

text \<open>
  The interface process (\<^verbatim>\<open>src/client/game/bs_game.h\<close>, \<^verbatim>\<open>bs_game.cpp\<close>): its main loop takes a key
  from the interface, talks to the client process over the socket pair and draws the interface. The
  key, the clock and the answers of the operating system in an iteration are a \<open>GameInput\<close>. The
  results have the calls of the curses library, in their order, and the bytes written.
\<close>

section \<open>Data\<close>

record BattleshipGame =
  bg_interface :: NcursesInterface
  bg_client_fd :: int
  bg_buf :: MsgBuffer
  bg_from_server :: "Message list"
  bg_to_server :: "Message list"
  bg_quit :: bool

record GameInput =
  gn_key :: int
  gn_result :: int
  gn_readable :: "int \<Rightarrow> bool"
  gn_writable :: "int \<Rightarrow> bool"
  gn_read :: "nat \<Rightarrow> byte list option"
  gn_write :: "nat \<Rightarrow> int"
  gn_now :: int

definition mk_game :: "NcursesInterface \<Rightarrow> BattleshipGame" where
  "mk_game ni = \<lparr>bg_interface = ni, bg_client_fd = -1, bg_buf = MsgBuffer_default,
     bg_from_server = [], bg_to_server = [], bg_quit = False\<rparr>"

definition set_client_fd :: "int \<Rightarrow> BattleshipGame \<Rightarrow> BattleshipGame" where
  "set_client_fd p_fd bg = bg\<lparr>bg_client_fd := p_fd\<rparr>"

text \<open>The interface acts and draws.\<close>

definition on_interface :: "(NcursesInterface \<Rightarrow> NcursesInterface \<times> curses_call list) \<Rightarrow> BattleshipGame
    \<Rightarrow> BattleshipGame \<times> curses_call list" where
  "on_interface f bg = (let (ni, out) = f (bg_interface bg) in (bg\<lparr>bg_interface := ni\<rparr>, out))"

text \<open>Two actions of the interface, one after the other.\<close>

definition and_then :: "(NcursesInterface \<Rightarrow> NcursesInterface \<times> curses_call list)
    \<Rightarrow> (NcursesInterface \<Rightarrow> NcursesInterface \<times> curses_call list)
    \<Rightarrow> NcursesInterface \<Rightarrow> NcursesInterface \<times> curses_call list" where
  "and_then f g ni = (let (ni1, out1) = f ni; (ni2, out2) = g ni1 in (ni2, out1 @ out2))"

definition put_to_server :: "msg_body \<Rightarrow> BattleshipGame \<Rightarrow> BattleshipGame" where
  "put_to_server b bg = bg\<lparr>bg_to_server := bg_to_server bg @ [new_msg b]\<rparr>"

section \<open>Requests\<close>

definition req_server_conn_status :: "BattleshipGame \<Rightarrow> BattleshipGame" where
  "req_server_conn_status bg = put_to_server ServerConnStatusReqMsg bg"

definition req_server_conn :: "BattleshipGame \<Rightarrow> BattleshipGame" where
  "req_server_conn bg = put_to_server ServerConnReqMsg bg"

definition req_game_session :: "BattleshipGame \<Rightarrow> BattleshipGame" where
  "req_game_session bg = put_to_server GameSessionReqMsg bg"

definition send_shot_pos :: "BattleshipGame \<Rightarrow> BattleshipGame \<times> curses_call list" where
  "send_shot_pos bg =
     (let (bg1, out) = on_interface stop_own_turn_mode bg
      in (put_to_server (GameMoveMsg (gi_get_last_shot (bg_interface bg1))) bg1, out))"

text \<open>The \<^verbatim>\<open>switch\<close> of \<open>run\<close>; \<open>QUIT_IN\<close> leaves the function and is handled by the iteration.\<close>

definition dispatch_input :: "InputResult \<Rightarrow> BattleshipGame \<Rightarrow> BattleshipGame \<times> curses_call list" where
  "dispatch_input r bg =
     (case r of
        REQ_SERVER_CONN_STATUS_IN \<Rightarrow> (req_server_conn_status bg, [])
      | REQ_SERVER_CONN_IN \<Rightarrow> (req_server_conn bg, [])
      | REQ_GAME_SESSION_IN \<Rightarrow> (req_game_session bg, [])
      | SHOT_IN \<Rightarrow> send_shot_pos bg
      | _ \<Rightarrow> (bg, []))"

section \<open>Messages\<close>

definition process_start_turn_msg :: "int \<Rightarrow> int \<Rightarrow> bool \<Rightarrow> BattleshipGame \<Rightarrow> BattleshipGame \<times> curses_call list" where
  "process_start_turn_msg now end_time is_own bg =
     (if is_own then
        on_interface (and_then (activate_own_turn_mode now end_time) (interface_set_state (GameState_code OWN_TURN))) bg
      else
        on_interface (and_then (activate_enemy_turn_mode now end_time) (interface_set_state (GameState_code ENEMY_TURN))) bg)"

definition process_stop_turn_msg :: "bool \<Rightarrow> BattleshipGame \<Rightarrow> BattleshipGame \<times> curses_call list" where
  "process_stop_turn_msg is_own bg =
     on_interface (and_then (if is_own then stop_own_turn_mode else stop_enemy_turn_mode)
       (interface_set_state (GameState_code PROCESS_TURN))) bg"

definition process_start_field_req_msg :: "int \<Rightarrow> int \<Rightarrow> BattleshipGame \<Rightarrow> BattleshipGame \<times> curses_call list" where
  "process_start_field_req_msg now end_time bg =
     on_interface (and_then (activate_preparation_mode now end_time)
       (interface_set_state (GameState_code PREPARATION))) bg"

definition process_stop_preparation_msg :: "BattleshipGame \<Rightarrow> BattleshipGame \<times> curses_call list" where
  "process_stop_preparation_msg bg =
     (let (bg1, out) = on_interface (and_then stop_preparation_mode
            (interface_set_state (GameState_code WAIT_START))) bg
      in (put_to_server (GameFieldMsg (get_own_field (bg_interface bg1)) True) bg1, out))"

definition process_game_state_msg :: "int \<Rightarrow> BattleshipGame \<Rightarrow> BattleshipGame \<times> curses_call list" where
  "process_game_state_msg st bg = on_interface (interface_set_state st) bg"

definition process_field_msg :: "GameField \<Rightarrow> bool \<Rightarrow> BattleshipGame \<Rightarrow> BattleshipGame \<times> curses_call list" where
  "process_field_msg f is_own_field bg =
     on_interface (\<lambda>ni. (if is_own_field then set_own_field f ni else set_enemy_field f ni, [])) bg"

definition process_server_conn_status_msg :: "bool \<Rightarrow> BattleshipGame \<Rightarrow> BattleshipGame \<times> curses_call list" where
  "process_server_conn_status_msg connected bg = on_interface (set_server_conn_state connected) bg"

definition game_process_msg :: "int \<Rightarrow> Message \<Rightarrow> BattleshipGame \<Rightarrow> BattleshipGame \<times> curses_call list" where
  "game_process_msg now m bg =
     (case msg_body m of
        GameStateMsg st \<Rightarrow> process_game_state_msg st bg
      | GameFieldMsg f own \<Rightarrow> process_field_msg f own bg
      | ServerConnStatusMsg connected \<Rightarrow> process_server_conn_status_msg connected bg
      | StartFieldReqMsg end_time \<Rightarrow> process_start_field_req_msg now end_time bg
      | StopPreparationMsg \<Rightarrow> process_stop_preparation_msg bg
      | StartTurnMsg end_time own \<Rightarrow> process_start_turn_msg now end_time own bg
      | StopTurnMsg own \<Rightarrow> process_stop_turn_msg own bg
      | _ \<Rightarrow> (bg, []))"

fun game_msgs_loop :: "int \<Rightarrow> Message list \<Rightarrow> BattleshipGame \<Rightarrow> BattleshipGame \<times> curses_call list" where
  "game_msgs_loop now [] bg = (bg\<lparr>bg_from_server := []\<rparr>, [])"
| "game_msgs_loop now (m # ms) bg =
     (let (bg1, out1) = game_process_msg now m (bg\<lparr>bg_from_server := ms\<rparr>);
          (bg2, out2) = game_msgs_loop now ms bg1
      in (bg2, out1 @ out2))"

definition game_process_msgs :: "int \<Rightarrow> BattleshipGame \<Rightarrow> BattleshipGame \<times> curses_call list" where
  "game_process_msgs now bg = game_msgs_loop now (bg_from_server bg) bg"

section \<open>The socket pair\<close>

text \<open>The loops are those of the client process.\<close>

definition game_read_msg :: "(nat \<Rightarrow> byte list option) \<Rightarrow> BattleshipGame \<Rightarrow> BattleshipGame res" where
  "game_read_msg rd bg =
     rbind (read_msg (bg_client_fd bg) rd (bg_buf bg)) (\<lambda>(err, mb).
       if err = BUFF_OK then
         (let (mb', ms) = extract_all (Suc (length (mb_queue mb))) mb (bg_from_server bg)
          in Inr (bg\<lparr>bg_buf := mb', bg_from_server := ms\<rparr>))
       else
         (let bg1 = bg\<lparr>bg_buf := mb\<rparr> in
          if err = CONN_BROKEN then Inr (bg1\<lparr>bg_quit := True\<rparr>) else Inr bg1))"

definition write_msg_for_server :: "(nat \<Rightarrow> int) \<Rightarrow> BattleshipGame \<Rightarrow> byte list list \<times> BattleshipGame" where
  "write_msg_for_server wr bg =
     (let (out, rest) = write_interface_loop wr 0 (bg_to_server bg) in (out, bg\<lparr>bg_to_server := rest\<rparr>))"

section \<open>The main loop\<close>

definition game_fill_fd_sets :: "BattleshipGame \<Rightarrow> (int set \<times> int set) res" where
  "game_fill_fd_sets bg =
     rbind (cs_fd_set (bg_client_fd bg) {}) (\<lambda>readfds.
     rbind (if length (bg_to_server bg) \<noteq> 0 then cs_fd_set (bg_client_fd bg) {} else Inr {}) (\<lambda>writefds.
     Inr (readfds, writefds)))"

definition game_process_fd_actions :: "GameInput \<Rightarrow> int set \<times> int set \<Rightarrow> BattleshipGame
    \<Rightarrow> (curses_call list \<times> byte list list \<times> BattleshipGame) res" where
  "game_process_fd_actions inp fds bg =
     rbind (cs_fd_isset (bg_client_fd bg) (gn_readable inp) (fst fds)) (\<lambda>readable.
     rbind (if readable then game_read_msg (gn_read inp) bg else Inr bg) (\<lambda>bg1.
     (let (bg2, calls) = game_process_msgs (gn_now inp) bg1 in
      rbind (cs_fd_isset (bg_client_fd bg2) (gn_writable inp) (snd fds)) (\<lambda>writable.
      (let (out, bg3) = (if writable then write_msg_for_server (gn_write inp) bg2 else ([], bg2))
       in Inr (calls, out, bg3))))))"

definition game_process_select_result :: "GameInput \<Rightarrow> int set \<times> int set \<Rightarrow> BattleshipGame
    \<Rightarrow> (curses_call list \<times> byte list list \<times> BattleshipGame) res" where
  "game_process_select_result inp fds bg =
     (if gn_result inp = -1 then Inr ([], [], bg) else game_process_fd_actions inp fds bg)"

text \<open>The first component of the result is true when \<open>run\<close> returns from the iteration.\<close>

definition game_iteration :: "GameInput \<Rightarrow> BattleshipGame \<Rightarrow> (bool \<times> curses_call list \<times> byte list list \<times> BattleshipGame) res" where
  "game_iteration inp bg =
     (let (r, ni, out1) = process_input (gn_key inp) (bg_interface bg);
          bg1 = bg\<lparr>bg_interface := ni\<rparr>
      in if r = QUIT_IN then Inr (True, out1, [], bg1)
         else
           (let (bg2, out2) = dispatch_input r bg1 in
            rbind (game_fill_fd_sets bg2) (\<lambda>fds.
            rbind (game_process_select_result inp fds bg2) (\<lambda>(out3, written, bg3).
            Inr (bg_quit bg3, out1 @ out2 @ out3 @ show_interface (gn_now inp) (bg_interface bg3), written, bg3)))))"

text \<open>The loop of \<open>run\<close> over the inputs of its iterations; it ends early when it returns.\<close>

fun game_loop :: "GameInput list \<Rightarrow> BattleshipGame \<Rightarrow> (bool \<times> curses_call list \<times> byte list list \<times> BattleshipGame) res" where
  "game_loop [] bg = Inr (False, [], [], bg)"
| "game_loop (inp # inps) bg =
     rbind (game_iteration inp bg) (\<lambda>(ended, out, written, bg1).
       if ended then Inr (True, out, written, bg1)
       else rbind (game_loop inps bg1) (\<lambda>(ended', out', written', bg2).
              Inr (ended', out @ out', written @ written', bg2)))"

text \<open>\<open>run\<close>: its code, and the rest as for the loop.\<close>

definition game_run :: "int \<Rightarrow> GameInput list \<Rightarrow> BattleshipGame
    \<Rightarrow> (int \<times> curses_call list \<times> byte list list \<times> BattleshipGame) res" where
  "game_run now inps bg =
     (if \<not> is_valid_interface (bg_interface bg) then Inr (1, [], [], bg)
      else
        rbind (game_loop inps (bg\<lparr>bg_quit := False\<rparr>)) (\<lambda>(ended, out, written, bg1).
          Inr (0, show_interface now (bg_interface bg) @ out, written, bg1)))"

end
