(* ===== verification/GameProcess.thy ===== *)
theory GameProcess
  imports BattleshipGame ClientFaults ServerGame
begin

text \<open>
  What the interface process keeps: the cursor is in the field the player works on, the shots it
  offers are shots that count on the server, and it never shoots without having been given a turn.
\<close>

section \<open>The invariant of the interface\<close>

definition own_area :: "Cursor \<Rightarrow> bool" where
  "own_area c \<longleftrightarrow> cu_min c = Point OWN_FIELD_START_X OWN_FIELD_START_Y
     \<and> cu_max c = Point (OWN_FIELD_START_X + FIELD_SIZE) (OWN_FIELD_START_Y + FIELD_SIZE)"

definition enemy_area :: "Cursor \<Rightarrow> bool" where
  "enemy_area c \<longleftrightarrow> cu_min c = Point ENEMY_FIELD_START_X ENEMY_FIELD_START_Y
     \<and> cu_max c = Point (ENEMY_FIELD_START_X + FIELD_SIZE) (ENEMY_FIELD_START_Y + FIELD_SIZE)"

definition interface_ok :: "NcursesInterface \<Rightarrow> bool" where
  "interface_ok ni \<longleftrightarrow> cursor_ok (ni_cursor ni) \<and> (own_area (ni_cursor ni) \<or> enemy_area (ni_cursor ni))
     \<and> (gi_mode ni = PREPARATION_MODE \<longrightarrow> own_area (ni_cursor ni))
     \<and> (gi_mode ni = OWN_TURN_MODE \<longrightarrow> enemy_area (ni_cursor ni))
     \<and> wf_field (gi_own_field ni) \<and> wf_field (gi_enemy_field ni) \<and> field_contains (gi_last_shot ni)"

lemmas area_defs = own_area_def enemy_area_def OWN_FIELD_START_X_def OWN_FIELD_START_Y_def
  ENEMY_FIELD_START_X_def ENEMY_FIELD_START_Y_def FIELD_SIZE_def

lemma related_in_field:
  assumes "cursor_ok c" "own_area c \<or> enemy_area c"
  shows "field_contains (get_related_pos c)"
  using assms by (cases "cu_pos c") (auto simp: cursor_ok_def area_defs get_related_pos_def field_contains_iff)

lemma move_to_own:
  "cursor_ok (ni_cursor (fst (move_cursor_to_own_field ni))) \<and> own_area (ni_cursor (fst (move_cursor_to_own_field ni)))"
  by (simp add: move_cursor_to_own_field_def set_boundary_def Let_def is_valid_boundary_iff cursor_ok_def area_defs)

lemma move_to_enemy:
  "cursor_ok (ni_cursor (fst (move_cursor_to_enemy_field ni))) \<and> enemy_area (ni_cursor (fst (move_cursor_to_enemy_field ni)))"
  by (simp add: move_cursor_to_enemy_field_def set_boundary_def Let_def is_valid_boundary_iff cursor_ok_def area_defs)

lemma move_frame [simp]:
  "gi_mode (fst (move_cursor_to_own_field ni)) = gi_mode ni"
  "gi_mode (fst (move_cursor_to_enemy_field ni)) = gi_mode ni"
  "gi_own_field (fst (move_cursor_to_own_field ni)) = gi_own_field ni"
  "gi_own_field (fst (move_cursor_to_enemy_field ni)) = gi_own_field ni"
  "gi_enemy_field (fst (move_cursor_to_own_field ni)) = gi_enemy_field ni"
  "gi_enemy_field (fst (move_cursor_to_enemy_field ni)) = gi_enemy_field ni"
  "gi_last_shot (fst (move_cursor_to_own_field ni)) = gi_last_shot ni"
  "gi_last_shot (fst (move_cursor_to_enemy_field ni)) = gi_last_shot ni"
  by (simp_all add: move_cursor_to_own_field_def move_cursor_to_enemy_field_def split_beta)

lemma cursor_move_ok:
  "cursor_ok c \<Longrightarrow> cursor_ok (fst (cursor_move d c))"
  "own_area (fst (cursor_move d c)) = own_area c" "enemy_area (fst (cursor_move d c)) = enemy_area c"
  by (simp_all add: cursor_move_def Let_def own_area_def enemy_area_def set_pos_ok cursor_ok_boundary)

lemma related_pos_ok:
  "cursor_ok c \<Longrightarrow> cursor_ok (set_related_pos p c)" "enemy_area (set_related_pos p c) = enemy_area c"
  "own_area (set_related_pos p c) = own_area c"
  by (simp_all add: set_related_pos_def enemy_area_def own_area_def set_pos_ok cursor_ok_boundary)

lemma init_curses_frame [simp]:
  "gi_mode (fst (init_curses_mode b ni)) = gi_mode ni" "gi_own_field (fst (init_curses_mode b ni)) = gi_own_field ni"
  "gi_enemy_field (fst (init_curses_mode b ni)) = gi_enemy_field ni" "gi_last_shot (fst (init_curses_mode b ni)) = gi_last_shot ni"
  by (simp_all add: init_curses_mode_def)

lemma mk_interface_ok: "interface_ok (fst (mk_interface file b img))"
proof -
  obtain ni1 where e: "fst (mk_interface file b img) = fst (move_cursor_to_own_field ni1)" "gi_mode ni1 = IDLE_MODE"
    "gi_own_field ni1 = GameField_default" "gi_enemy_field ni1 = GameField_default" "gi_last_shot ni1 = Point 0 0"
    by (simp add: mk_interface_def Let_def split_beta init_curses_mode_def)
  then show ?thesis using move_to_own [of ni1] by (simp add: interface_ok_def field_contains_iff)
qed

section \<open>Input\<close>

lemma enter_input_ok:
  assumes "interface_ok ni" "process_enter_input ni = (r, ni')"
  shows "interface_ok ni' \<and> (gi_mode ni' = OWN_TURN_MODE \<longrightarrow> gi_mode ni = OWN_TURN_MODE)
    \<and> (r = SHOT_IN \<longrightarrow> gi_mode ni = OWN_TURN_MODE \<and> gi_mode ni' = WAIT_MODE \<and> field_contains (gi_last_shot ni')
         \<and> get_state (gi_enemy_field ni) (gi_last_shot ni') = CELL_EMPTY)"
proof -
  have "field_contains (get_related_pos (ni_cursor ni))"
    if "gi_mode ni = PREPARATION_MODE \<or> gi_mode ni = OWN_TURN_MODE"
    using assms(1) that by (intro related_in_field) (auto simp: interface_ok_def)
  then show ?thesis
    using assms by (auto simp: process_enter_input_def interface_ok_def gi_set_last_shot_def Let_def split: if_splits)
qed

lemma move_input_ok:
  assumes "interface_ok ni" "process_move_input key ni = (r, ni', out)"
  shows "interface_ok ni' \<and> gi_mode ni' = gi_mode ni \<and> r \<noteq> SHOT_IN \<and> gi_enemy_field ni' = gi_enemy_field ni"
  using assms
  by (auto simp: process_move_input_def Let_def split_beta interface_ok_def cursor_move_ok split: if_splits)

lemma process_input_ok:
  assumes "interface_ok ni" "process_input key ni = (r, ni', out)"
  shows "interface_ok ni' \<and> (gi_mode ni' = OWN_TURN_MODE \<longrightarrow> gi_mode ni = OWN_TURN_MODE)
    \<and> (r = SHOT_IN \<longrightarrow> gi_mode ni = OWN_TURN_MODE \<and> gi_mode ni' = WAIT_MODE \<and> field_contains (gi_last_shot ni')
         \<and> get_state (gi_enemy_field ni) (gi_last_shot ni') = CELL_EMPTY)"
proof -
  consider (move) o' where "process_move_input key ni = (r, ni', o')" | (enter) "process_enter_input ni = (r, ni')"
    | (other) "ni' = ni" "r \<noteq> SHOT_IN"
    using assms(2) by (auto simp: process_input_def split: if_splits prod.splits)
  then show ?thesis
  proof cases
    case move
    then show ?thesis using move_input_ok [OF assms(1)] by auto
  next
    case enter
    then show ?thesis using enter_input_ok [OF assms(1)] by auto
  next
    case other
    then show ?thesis using assms(1) by simp
  qed
qed

section \<open>The actions on the interface\<close>

lemma set_modes_ok:
  assumes "interface_ok ni"
  shows "interface_ok (fst (interface_set_state st ni))" "interface_ok (fst (set_server_conn_state b ni))"
    "interface_ok (fst (stop_preparation_mode ni))" "interface_ok (fst (stop_own_turn_mode ni))"
    "interface_ok (fst (stop_enemy_turn_mode ni))" "interface_ok (fst (activate_enemy_turn_mode now t ni))"
  using assms
  by (simp_all add: interface_ok_def interface_set_state_def set_server_conn_state_def stop_preparation_mode_def
    stop_own_turn_mode_def stop_enemy_turn_mode_def activate_enemy_turn_mode_def start_timer_until_def
    set_mode_def gi_set_last_shot_def Let_def field_contains_iff)

lemma activate_preparation_ok:
  assumes "interface_ok ni"
  shows "interface_ok (fst (activate_preparation_mode now t ni))"
  using assms move_to_own [of "set_mode PREPARATION_MODE ni"]
  by (auto simp: activate_preparation_mode_def split_beta start_timer_until_def interface_ok_def set_mode_def)

lemma activate_own_turn_ok:
  assumes "interface_ok ni"
  shows "interface_ok (fst (activate_own_turn_mode now t ni))"
  using assms move_to_enemy [of "set_mode OWN_TURN_MODE ni"]
  by (auto simp: activate_own_turn_mode_def Let_def split_beta start_timer_until_def interface_ok_def set_mode_def
    related_pos_ok)

lemma and_then_ok:
  assumes "\<And>ni. interface_ok ni \<Longrightarrow> interface_ok (fst (f ni))" "\<And>ni. interface_ok ni \<Longrightarrow> interface_ok (fst (g ni))"
  shows "interface_ok ni \<Longrightarrow> interface_ok (fst (and_then f g ni))"
  using assms by (simp add: and_then_def split_beta)

lemma fst_and_then: "fst (and_then f g ni) = fst (g (fst (f ni)))"
  by (simp add: and_then_def split_beta)

lemma on_interface_sel [simp]:
  "bg_interface (fst (on_interface f bg)) = fst (f (bg_interface bg))"
  "bg_to_server (fst (on_interface f bg)) = bg_to_server bg" "bg_quit (fst (on_interface f bg)) = bg_quit bg"
  "bg_from_server (fst (on_interface f bg)) = bg_from_server bg" "bg_buf (fst (on_interface f bg)) = bg_buf bg"
  "bg_client_fd (fst (on_interface f bg)) = bg_client_fd bg"
  by (simp_all add: on_interface_def split_beta)

lemma put_to_server_sel [simp]:
  "bg_interface (put_to_server b bg) = bg_interface bg" "bg_to_server (put_to_server b bg) = bg_to_server bg @ [new_msg b]"
  "bg_quit (put_to_server b bg) = bg_quit bg" "bg_from_server (put_to_server b bg) = bg_from_server bg"
  "bg_buf (put_to_server b bg) = bg_buf bg" "bg_client_fd (put_to_server b bg) = bg_client_fd bg"
  by (simp_all add: put_to_server_def)

text \<open>The modes after each action.\<close>

lemma mode_after [simp]:
  "gi_mode (fst (interface_set_state st ni)) = gi_mode ni" "gi_mode (fst (set_server_conn_state b ni)) = gi_mode ni"
  "gi_mode (fst (stop_own_turn_mode ni)) = WAIT_MODE" "gi_mode (fst (stop_enemy_turn_mode ni)) = WAIT_MODE"
  "gi_mode (fst (activate_own_turn_mode now t ni)) = OWN_TURN_MODE"
  "gi_mode (fst (activate_enemy_turn_mode now t ni)) = ENEMY_TURN_MODE"
  "gi_mode (fst (activate_preparation_mode now t ni)) = PREPARATION_MODE"
  "gi_mode (fst (stop_preparation_mode ni)) = (if gi_mode ni = PREPARATION_MODE then WAIT_MODE else gi_mode ni)"
  by (simp_all add: interface_set_state_def set_server_conn_state_def stop_own_turn_mode_def stop_enemy_turn_mode_def
    activate_own_turn_mode_def activate_enemy_turn_mode_def activate_preparation_mode_def stop_preparation_mode_def
    start_timer_until_def set_mode_def gi_set_last_shot_def Let_def split_beta)

section \<open>The invariant of the process\<close>

definition game_ok :: "BattleshipGame \<Rightarrow> bool" where
  "game_ok bg \<longleftrightarrow> interface_ok (bg_interface bg)
     \<and> (\<forall>m \<in> set (bg_from_server bg) \<union> set (mb_queue (bg_buf bg)). wf_msg m)"

lemma game_process_msg_ok:
  assumes "interface_ok (bg_interface bg)" "wf_msg m"
  shows "interface_ok (bg_interface (fst (game_process_msg now m bg)))"
  using assms
  by (cases "msg_body m")
    (auto simp: game_process_msg_def process_game_state_msg_def process_field_msg_def process_server_conn_status_msg_def
      process_start_field_req_msg_def process_stop_preparation_msg_def process_start_turn_msg_def
      process_stop_turn_msg_def fst_and_then set_modes_ok activate_preparation_ok activate_own_turn_ok split_beta
      set_own_field_def set_enemy_field_def wf_msg_def, auto simp: interface_ok_def)

lemma game_process_msg_frame [simp]:
  "bg_from_server (fst (game_process_msg now m bg)) = bg_from_server bg"
  "bg_buf (fst (game_process_msg now m bg)) = bg_buf bg" "bg_client_fd (fst (game_process_msg now m bg)) = bg_client_fd bg"
  "bg_quit (fst (game_process_msg now m bg)) = bg_quit bg"
  by (cases "msg_body m"; simp add: game_process_msg_def process_game_state_msg_def process_field_msg_def
    process_server_conn_status_msg_def process_start_field_req_msg_def process_stop_preparation_msg_def
    process_start_turn_msg_def process_stop_turn_msg_def split_beta)+

lemma game_msgs_loop_ok:
  assumes "game_ok bg" "bg_from_server bg = ms"
  shows "game_ok (fst (game_msgs_loop now ms bg)) \<and> bg_from_server (fst (game_msgs_loop now ms bg)) = []"
  using assms
proof (induction ms arbitrary: bg)
  case Nil
  then show ?case by (simp add: game_ok_def)
next
  case (Cons m ms)
  let ?bg = "fst (game_process_msg now m (bg\<lparr>bg_from_server := ms\<rparr>))"
  have "game_ok ?bg" using Cons.prems game_process_msg_ok [of "bg\<lparr>bg_from_server := ms\<rparr>" m now]
    by (simp add: game_ok_def)
  then show ?case using Cons.IH [of ?bg] by (simp add: split_beta)
qed

lemma game_read_ok:
  assumes "game_ok bg"
  shows "res_with soft_faults game_ok (game_read_msg rd bg)"
proof (cases "read_msg (bg_client_fd bg) rd (bg_buf bg)")
  case (Inl e)
  then have "e \<in> soft_faults" using soft_read_msg soft_cases by metis
  then show ?thesis using Inl by (simp add: game_read_msg_def)
next
  case (Inr r)
  obtain err mb where r: "r = (err, mb)" by force
  obtain ms where ms: "mb_queue mb = mb_queue (bg_buf bg) @ ms" "\<forall>m \<in> set ms. wf_msg m"
    using read_queue Inr r by blast
  then show ?thesis
    using Inr r assms by (auto simp: game_read_msg_def game_ok_def extract_all_queue Let_def simp del: extract_all.simps)
qed

lemma write_msg_for_server_sel [simp]:
  "bg_interface (snd (write_msg_for_server wr bg)) = bg_interface bg"
  "bg_from_server (snd (write_msg_for_server wr bg)) = bg_from_server bg"
  "bg_buf (snd (write_msg_for_server wr bg)) = bg_buf bg" "bg_quit (snd (write_msg_for_server wr bg)) = bg_quit bg"
  by (simp_all add: write_msg_for_server_def split_beta)

lemma dispatch_sel [simp]:
  "bg_from_server (fst (dispatch_input r bg)) = bg_from_server bg" "bg_buf (fst (dispatch_input r bg)) = bg_buf bg"
  "bg_client_fd (fst (dispatch_input r bg)) = bg_client_fd bg" "bg_quit (fst (dispatch_input r bg)) = bg_quit bg"
  by (cases r; simp add: dispatch_input_def req_server_conn_status_def req_server_conn_def req_game_session_def
    send_shot_pos_def split_beta)+

lemma dispatch_ok: "game_ok bg \<Longrightarrow> game_ok (fst (dispatch_input r bg))"
  by (cases r; simp add: dispatch_input_def req_server_conn_status_def req_server_conn_def req_game_session_def
    send_shot_pos_def split_beta game_ok_def set_modes_ok)

text \<open>What an iteration does after the input, up to the drawing.\<close>

lemma game_fd_actions_ok:
  assumes "game_ok bg"
  shows "res_with soft_faults (\<lambda>(_, _, bg'). game_ok bg') (game_process_fd_actions inp fds bg)"
  unfolding game_process_fd_actions_def
proof (rule res_with_rbind [where P = "\<lambda>_. True"], simp add: cs_fd_isset_def soft_faults_def)
  fix b :: bool
  have "res_with soft_faults game_ok (if b then game_read_msg (gn_read inp) bg else Inr bg)"
    using game_read_ok assms by simp
  then show "res_with soft_faults (\<lambda>(_, _, bg'). game_ok bg')
     (rbind (if b then game_read_msg (gn_read inp) bg else Inr bg) (\<lambda>bg1.
       (let (bg2, calls) = game_process_msgs (gn_now inp) bg1 in
        rbind (cs_fd_isset (bg_client_fd bg2) (gn_writable inp) (snd fds)) (\<lambda>writable.
        (let (out, bg3) = (if writable then write_msg_for_server (gn_write inp) bg2 else ([], bg2))
         in Inr (calls, out, bg3))))))"
  proof (rule res_with_rbind)
    fix bg1 assume ok: "game_ok bg1"
    let ?bg2 = "fst (game_process_msgs (gn_now inp) bg1)"
    have ok2: "game_ok ?bg2" using game_msgs_loop_ok [OF ok refl] by (simp add: game_process_msgs_def)
    then have "game_ok (snd (write_msg_for_server (gn_write inp) ?bg2))" by (simp add: game_ok_def)
    with ok2 show "res_with soft_faults (\<lambda>(_, _, bg'). game_ok bg')
       (let (bg2, calls) = game_process_msgs (gn_now inp) bg1 in
        rbind (cs_fd_isset (bg_client_fd bg2) (gn_writable inp) (snd fds)) (\<lambda>writable.
        (let (out, bg3) = (if writable then write_msg_for_server (gn_write inp) bg2 else ([], bg2))
         in Inr (calls, out, bg3))))"
      by (simp add: split_beta Let_def cs_fd_isset_def soft_faults_def)
  qed
qed

lemma game_fill_soft: "res_with soft_faults (\<lambda>_. True) (game_fill_fd_sets bg)"
  by (simp add: game_fill_fd_sets_def cs_fd_set_def soft_faults_def)

lemma game_iteration_ok:
  assumes "game_ok bg"
  shows "res_with soft_faults (\<lambda>(_, _, _, bg'). game_ok bg') (game_iteration inp bg)"
proof -
  obtain r ni out where p: "process_input (gn_key inp) (bg_interface bg) = (r, ni, out)" by (cases "process_input (gn_key inp) (bg_interface bg)")
  have ok1: "game_ok (bg\<lparr>bg_interface := ni\<rparr>)"
    using process_input_ok [OF _ p] assms by (simp add: game_ok_def)
  let ?bg2 = "fst (dispatch_input r (bg\<lparr>bg_interface := ni\<rparr>))"
  have ok2: "game_ok ?bg2" by (rule dispatch_ok [OF ok1])
  have sel: "res_with soft_faults (\<lambda>(_, _, bg'). game_ok bg') (game_process_select_result inp fds ?bg2)" for fds
    using game_fd_actions_ok [OF ok2] ok2 by (simp add: game_process_select_result_def)
  have "res_with soft_faults (\<lambda>(_, _, _, bg'). game_ok bg')
     (rbind (game_fill_fd_sets ?bg2) (\<lambda>fds. rbind (game_process_select_result inp fds ?bg2) (\<lambda>(out3, written, bg3).
        Inr (bg_quit bg3, out @ snd (dispatch_input r (bg\<lparr>bg_interface := ni\<rparr>)) @ out3
          @ show_interface (gn_now inp) (bg_interface bg3), written, bg3))))"
    by (rule res_with_rbind [OF game_fill_soft], rule res_with_rbind [OF sel]) auto
  then show ?thesis using ok1 by (simp add: game_iteration_def p split_beta Let_def)
qed

section \<open>The interface process as a system\<close>

text \<open>The state of the loop of \<open>run\<close>: whether it has been left, and the process.\<close>

definition game_start :: "bool \<times> BattleshipGame \<Rightarrow> bool" where
  "game_start s \<longleftrightarrow> (\<exists>file b img fd. s = (False, set_client_fd fd (mk_game (fst (mk_interface file b img)))))"

definition game_step :: "GameInput \<Rightarrow> bool \<times> BattleshipGame \<Rightarrow> (bool \<times> BattleshipGame) res" where
  "game_step inp s = (if fst s then Inr s else rbind (game_iteration inp (snd s)) (\<lambda>(ended, _, _, bg'). Inr (ended, bg')))"

definition game_state_ok :: "bool \<times> BattleshipGame \<Rightarrow> bool" where
  "game_state_ok s \<longleftrightarrow> game_ok (snd s)"

lemma game_start_ok: "game_start s \<Longrightarrow> game_state_ok s"
  by (auto simp: game_start_def game_state_ok_def game_ok_def set_client_fd_def mk_game_def mk_interface_ok MsgBuffer_default_def)

lemma game_step_ok: "game_state_ok s \<Longrightarrow> res_with soft_faults game_state_ok (game_step inp s)"
  using game_iteration_ok [of "snd s" inp]
  by (cases "game_iteration inp (snd s)") (auto simp: game_step_def game_state_ok_def)

interpretation game_sys: fault_system game_start game_step game_state_ok soft_faults
  by unfold_locales (auto simp: game_start_ok game_step_ok)

section \<open>Turns and moves\<close>

definition moves :: "Message list \<Rightarrow> nat" where
  "moves ms = length (filter (\<lambda>m. msg_type m = GAME_MOVE_MSG) ms)"

definition moves_sent :: "byte list list \<Rightarrow> nat" where
  "moves_sent bss = length (filter (\<lambda>bs. read_type bs = Some GAME_MOVE_MSG) bss)"

definition own_turns :: "Message list \<Rightarrow> nat" where
  "own_turns ms = length (filter (\<lambda>m. \<exists>t. msg_body m = StartTurnMsg t True) ms)"

text \<open>A move that may still be made.\<close>

definition may_move :: "BattleshipGame \<Rightarrow> nat" where
  "may_move bg = (if gi_mode (bg_interface bg) = OWN_TURN_MODE then 1 else 0)"

lemma moves_simps [simp]:
  "moves [] = 0" "moves (m # ms) = (if msg_type m = GAME_MOVE_MSG then 1 else 0) + moves ms"
  "moves (ms @ ns) = moves ms + moves ns"
  "moves_sent [] = 0" "moves_sent (b # bs) = (if read_type b = Some GAME_MOVE_MSG then 1 else 0) + moves_sent bs"
  "moves_sent (bs @ cs) = moves_sent bs + moves_sent cs"
  "own_turns [] = 0" "own_turns (m # ms) = (if \<exists>t. msg_body m = StartTurnMsg t True then 1 else 0) + own_turns ms"
  by (simp_all add: moves_def moves_sent_def own_turns_def)

lemma msg_type_new [simp]: "msg_type (new_msg b) = body_type b"
  by (simp add: msg_type_def new_msg_def)

lemma msg_moves:
  "moves (bg_to_server (fst (game_process_msg now m bg))) = moves (bg_to_server bg)
   \<and> may_move (fst (game_process_msg now m bg)) \<le> may_move bg + own_turns [m]"
  by (cases "msg_body m")
    (auto simp: game_process_msg_def process_game_state_msg_def process_field_msg_def process_server_conn_status_msg_def
      process_start_field_req_msg_def process_stop_preparation_msg_def process_start_turn_msg_def
      process_stop_turn_msg_def fst_and_then split_beta may_move_def set_own_field_def set_enemy_field_def)

lemma msgs_moves:
  "moves (bg_to_server (fst (game_msgs_loop now ms bg))) = moves (bg_to_server bg)
   \<and> may_move (fst (game_msgs_loop now ms bg)) \<le> may_move bg + own_turns ms"
proof (induction ms arbitrary: bg)
  case Nil
  then show ?case by (simp add: may_move_def)
next
  case (Cons m ms)
  let ?bg = "bg\<lparr>bg_from_server := ms\<rparr>"
  have "may_move ?bg = may_move bg" by (simp add: may_move_def)
  then show ?case
    using Cons.IH [of "fst (game_process_msg now m ?bg)"] msg_moves [of now m ?bg] by (simp add: split_beta)
qed

lemma write_loop_moves:
  "moves_sent (fst (write_interface_loop wr k ms)) + moves (snd (write_interface_loop wr k ms)) = moves ms"
proof (induction ms arbitrary: k)
  case (Cons m ms)
  have "read_type (get_data m) = Some (msg_type m)" using read_type_get_data [of m "[]"] by simp
  then show ?case using Cons.IH [of "Suc k"] by (auto simp: Let_def split_beta)
qed simp

text \<open>The messages of the server an iteration handles, and the own turns a run is given.\<close>

definition received :: "GameInput \<Rightarrow> BattleshipGame \<Rightarrow> Message list" where
  "received inp bg =
     (if fst (process_input (gn_key inp) (bg_interface bg)) = QUIT_IN \<or> gn_result inp = -1 then []
      else if gn_readable inp (bg_client_fd bg) then
        (case game_read_msg (gn_read inp) bg of Inl _ \<Rightarrow> [] | Inr bg1 \<Rightarrow> bg_from_server bg1)
      else bg_from_server bg)"

fun turns_given :: "GameInput list \<Rightarrow> BattleshipGame \<Rightarrow> nat" where
  "turns_given [] bg = 0"
| "turns_given (inp # inps) bg = own_turns (received inp bg) +
     (case game_iteration inp bg of Inr (False, _, _, bg1) \<Rightarrow> turns_given inps bg1 | _ \<Rightarrow> 0)"

lemma game_read_frame:
  "game_read_msg rd bg = Inr bg1 \<Longrightarrow> bg_interface bg1 = bg_interface bg \<and> bg_to_server bg1 = bg_to_server bg"
  by (auto simp: game_read_msg_def rbind_Inr_iff Let_def split: if_splits prod.splits)

lemma game_read_cong:
  assumes "game_read_msg rd bg1 = Inr bg1'" "bg_client_fd bg = bg_client_fd bg1" "bg_buf bg = bg_buf bg1"
    "bg_from_server bg = bg_from_server bg1"
  shows "\<exists>bg'. game_read_msg rd bg = Inr bg' \<and> bg_from_server bg' = bg_from_server bg1'"
proof -
  obtain err mb where "read_msg (bg_client_fd bg1) rd (bg_buf bg1) = Inr (err, mb)"
    using assms(1) by (auto simp: game_read_msg_def rbind_Inr_iff)
  then show ?thesis using assms by (auto simp: game_read_msg_def Let_def split_beta split: if_splits)
qed

lemma dispatch_moves:
  assumes "interface_ok (bg_interface bg)" "process_input key (bg_interface bg) = (r, ni, out)"
  shows "moves (bg_to_server (fst (dispatch_input r (bg\<lparr>bg_interface := ni\<rparr>))))
      + may_move (fst (dispatch_input r (bg\<lparr>bg_interface := ni\<rparr>))) \<le> moves (bg_to_server bg) + may_move bg"
  using process_input_ok [OF assms]
  by (cases r) (auto simp: dispatch_input_def req_server_conn_status_def req_server_conn_def req_game_session_def
    send_shot_pos_def split_beta may_move_def)

lemma fd_actions_moves:
  assumes "game_process_fd_actions inp ({bg_client_fd bg}, wfds) bg = Inr (calls, written, bg')"
  shows "\<exists>ms. (if gn_readable inp (bg_client_fd bg) then \<exists>bg1. game_read_msg (gn_read inp) bg = Inr bg1 \<and> bg_from_server bg1 = ms
        else bg_from_server bg = ms)
    \<and> moves_sent written + moves (bg_to_server bg') + may_move bg' \<le> moves (bg_to_server bg) + may_move bg + own_turns ms"
proof -
  let ?r = "gn_readable inp (bg_client_fd bg)"
  obtain bg1 where r: "(if ?r then game_read_msg (gn_read inp) bg else Inr bg) = Inr bg1"
    and rest: "(let (bg2, calls) = game_process_msgs (gn_now inp) bg1 in
        rbind (cs_fd_isset (bg_client_fd bg2) (gn_writable inp) wfds) (\<lambda>writable.
        (let (out, bg3) = (if writable then write_msg_for_server (gn_write inp) bg2 else ([], bg2))
         in Inr (calls, out, bg3)))) = Inr (calls, written, bg')"
    using assms by (auto simp: game_process_fd_actions_def cs_fd_isset_def rbind_Inr_iff simp del: Let_def split: if_splits)
  let ?bg2 = "fst (game_process_msgs (gn_now inp) bg1)"
  have b: "write_msg_for_server (gn_write inp) ?bg2 = (written, bg') \<or> written = [] \<and> bg' = ?bg2"
    using rest by (auto simp: rbind_Inr_iff split_beta Let_def split: if_splits)
  have "moves_sent written + moves (bg_to_server bg') = moves (bg_to_server ?bg2)" "may_move bg' = may_move ?bg2"
    using b write_loop_moves [of "gn_write inp" 0 "bg_to_server ?bg2"]
    by (auto simp: write_msg_for_server_def split_beta may_move_def split: if_splits)
  moreover have "moves (bg_to_server ?bg2) = moves (bg_to_server bg1)"
    "may_move ?bg2 \<le> may_move bg1 + own_turns (bg_from_server bg1)"
    using msgs_moves [of "gn_now inp" "bg_from_server bg1" bg1] by (simp_all add: game_process_msgs_def)
  moreover have "moves (bg_to_server bg1) = moves (bg_to_server bg)" "may_move bg1 = may_move bg"
    using r game_read_frame by (auto simp: may_move_def split: if_splits)
  ultimately have "moves_sent written + moves (bg_to_server bg') + may_move bg'
      \<le> moves (bg_to_server bg) + may_move bg + own_turns (bg_from_server bg1)" by linarith
  moreover have "if ?r then \<exists>bg'. game_read_msg (gn_read inp) bg = Inr bg' \<and> bg_from_server bg' = bg_from_server bg1
      else bg_from_server bg = bg_from_server bg1"
    using r by (cases ?r) simp_all
  ultimately show ?thesis by blast
qed

lemma iteration_moves:
  assumes "game_iteration inp bg = Inr (ended, out, written, bg')" "game_ok bg"
  shows "moves_sent written + moves (bg_to_server bg') + may_move bg'
    \<le> moves (bg_to_server bg) + may_move bg + own_turns (received inp bg)"
proof -
  obtain r ni out1 where p: "process_input (gn_key inp) (bg_interface bg) = (r, ni, out1)"
    by (cases "process_input (gn_key inp) (bg_interface bg)")
  have iok: "interface_ok (bg_interface bg)" using assms(2) by (simp add: game_ok_def)
  let ?bg2 = "fst (dispatch_input r (bg\<lparr>bg_interface := ni\<rparr>))"
  note d = dispatch_moves [OF iok p]
  show ?thesis
  proof (cases "r = QUIT_IN")
    case True
    then have "written = []" "bg' = bg\<lparr>bg_interface := ni\<rparr>" using assms(1) p by (simp_all add: game_iteration_def)
    moreover have "gi_mode ni = OWN_TURN_MODE \<longrightarrow> gi_mode (bg_interface bg) = OWN_TURN_MODE"
      using process_input_ok [OF iok p] by simp
    ultimately show ?thesis by (simp add: may_move_def)
  next
    case False
    obtain fds out3 where f: "game_fill_fd_sets ?bg2 = Inr fds"
      "game_process_select_result inp fds ?bg2 = Inr (out3, written, bg')"
      using assms(1) p False by (auto simp: game_iteration_def Let_def split_beta rbind_Inr_iff)
    have fds: "fst fds = {bg_client_fd bg}"
      using f(1) by (auto simp: game_fill_fd_sets_def rbind_Inr_iff cs_fd_set_def split: if_splits)
    show ?thesis
    proof (cases "gn_result inp = -1")
      case True
      then show ?thesis using f(2) d by (simp add: game_process_select_result_def)
    next
      case ran: False
      have "game_process_fd_actions inp ({bg_client_fd ?bg2}, snd fds) ?bg2 = Inr (out3, written, bg')"
        using f(2) ran fds by (cases fds) (simp add: game_process_select_result_def)
      from fd_actions_moves [OF this] obtain ms where ms:
        "if gn_readable inp (bg_client_fd bg) then \<exists>bg1. game_read_msg (gn_read inp) ?bg2 = Inr bg1 \<and> bg_from_server bg1 = ms
         else bg_from_server bg = ms"
        "moves_sent written + moves (bg_to_server bg') + may_move bg' \<le> moves (bg_to_server ?bg2) + may_move ?bg2 + own_turns ms"
        by (auto split: if_splits)
      have "received inp bg = ms"
      proof (cases "gn_readable inp (bg_client_fd bg)")
        case True
        then obtain bg1 where "game_read_msg (gn_read inp) ?bg2 = Inr bg1" "bg_from_server bg1 = ms" using ms(1) by auto
        then obtain bg'' where "game_read_msg (gn_read inp) bg = Inr bg''" "bg_from_server bg'' = ms"
          using game_read_cong [of "gn_read inp" ?bg2 bg1 bg] by auto
        then show ?thesis using True False ran p by (simp add: received_def)
      next
        case no: False
        then show ?thesis using ms(1) False ran p by (simp add: received_def)
      qed
      then show ?thesis using ms(2) d by simp
    qed
  qed
qed

lemma game_iteration_keeps: "game_iteration inp bg = Inr (ended, out, written, bg') \<Longrightarrow> game_ok bg \<Longrightarrow> game_ok bg'"
  using game_iteration_ok [of bg inp] by simp

lemma loop_moves:
  assumes "game_loop inps bg = Inr (ended, out, written, bg')" "game_ok bg"
  shows "moves_sent written + moves (bg_to_server bg') + may_move bg'
    \<le> moves (bg_to_server bg) + may_move bg + turns_given inps bg"
  using assms
proof (induction inps arbitrary: bg ended out written)
  case (Cons inp inps)
  obtain e o1 w1 bg1 where it: "game_iteration inp bg = Inr (e, o1, w1, bg1)"
    using Cons.prems(1) by (cases "game_iteration inp bg") auto
  note m = iteration_moves [OF it Cons.prems(2)]
  show ?case
  proof (cases e)
    case True
    then show ?thesis using Cons.prems(1) it m by simp
  next
    case False
    then obtain e2 o2 w2 where l: "game_loop inps bg1 = Inr (e2, o2, w2, bg')" "written = w1 @ w2"
      using Cons.prems(1) it by (auto simp: rbind_Inr_iff)
    then show ?thesis
      using Cons.IH [OF l(1) game_iteration_keeps [OF it Cons.prems(2)]] m it False by simp
  qed
qed simp

section \<open>A sample run\<close>

text \<open>The rows of \<^verbatim>\<open>src/client/ncurses/files/background\<close>.\<close>

definition background_rows :: "string list" where
  "background_rows = [
     ''#########################'',
     ''#   You    ### Opponent #'',
     ''#########################'',
     ''#          ###          #'',
     ''#          ###          #'',
     ''#          ###          #'',
     ''#          ###          #'',
     ''#          ###          #'',
     ''#          ###          #'',
     ''#          ###          #'',
     ''#          ###          #'',
     ''#          ###          #'',
     ''#          ###          #'',
     ''#########################'',
     ''#:                      #'',
     ''#:                      #'',
     ''#:                      #'',
     ''#:                      #'',
     ''#########################'',
     ''# [SERVER]:             #'',
     ''#########################'']"

definition background_file :: "int list" where
  "background_file = concat (map (\<lambda>r. map char_code r @ [10]) background_rows)"

text \<open>The server gives the turn, then the player presses the space bar.\<close>

definition turn_msg :: Message where
  "turn_msg = \<lparr>msg_id = 9, msg_body = StartTurnMsg 160 True\<rparr>"

definition sample_game :: BattleshipGame where
  "sample_game = set_client_fd 3 (mk_game (fst (mk_interface (Some background_file) True (\<lambda>_ _. 0))))"

definition turn_arrives :: GameInput where
  "turn_arrives = \<lparr>gn_key = ERR, gn_result = 1, gn_readable = (\<lambda>_. True), gn_writable = (\<lambda>_. True),
     gn_read = (\<lambda>_. Some (get_data turn_msg)), gn_write = (\<lambda>_. 21), gn_now = 100\<rparr>"

definition space_pressed :: GameInput where
  "space_pressed = turn_arrives\<lparr>gn_key := char_code CHR '' '', gn_readable := (\<lambda>_. False)\<rparr>"

definition first_shot :: Message where
  "first_shot = new_msg (GameMoveMsg (Point 0 0))"

lemma sample_interface:
  "gi_mode (bg_interface sample_game) = IDLE_MODE" "gi_last_shot (bg_interface sample_game) = Point 0 0"
  "gi_enemy_field (bg_interface sample_game) = GameField_default" "bg_client_fd sample_game = 3"
  "bg_to_server sample_game = []" "bg_from_server sample_game = []" "bg_buf sample_game = MsgBuffer_default"
  "bg_quit sample_game = False"
proof -
  obtain ni1 where "fst (mk_interface (Some background_file) True (\<lambda>_ _. 0)) = fst (move_cursor_to_own_field ni1)"
    "gi_mode ni1 = IDLE_MODE" "gi_enemy_field ni1 = GameField_default" "gi_last_shot ni1 = Point 0 0"
    by (simp add: mk_interface_def Let_def split_beta init_curses_mode_def)
  then show "gi_mode (bg_interface sample_game) = IDLE_MODE" "gi_last_shot (bg_interface sample_game) = Point 0 0"
    "gi_enemy_field (bg_interface sample_game) = GameField_default"
    by (simp_all add: sample_game_def set_client_fd_def mk_game_def)
qed (simp_all add: sample_game_def set_client_fd_def mk_game_def)

lemma sample_start: "game_start (False, sample_game)"
  unfolding game_start_def sample_game_def by blast

lemmas key_defs = KEY_UP_def KEY_DOWN_def KEY_LEFT_def KEY_RIGHT_def ERR_def char_code_def

lemma read_turn:
  "read_msg 3 (\<lambda>_. Some (get_data turn_msg)) MsgBuffer_default
    = Inr (BUFF_OK, MsgBuffer_default\<lparr>mb_queue := [turn_msg], mb_is_too_small := False\<rparr>)"
proof -
  have wf: "\<forall>m \<in> set [turn_msg]. wf_msg m" by (simp add: turn_msg_def wf_msg_def fits_def)
  have "length (get_data turn_msg) < 4096" using length_get_data_bounds [of turn_msg] wf by simp
  then show ?thesis
    using read_plain_messages [OF idle_default wf, of "\<lambda>_. Some (get_data turn_msg)" 3]
    by (simp add: MsgBuffer_default_def)
qed

definition after_turn :: BattleshipGame where
  "after_turn = (fst (process_start_turn_msg 100 160 True sample_game))\<lparr>bg_buf := MsgBuffer_default\<lparr>mb_is_too_small := False\<rparr>\<rparr>"

lemma turn_iteration:
  "\<exists>out. game_iteration turn_arrives sample_game = Inr (False, out, [], after_turn)"
  "received turn_arrives sample_game = [turn_msg]"
proof -
  have k: "process_input ERR (bg_interface sample_game) = (INVALID_IN, bg_interface sample_game, [SetTimeout 100])"
    by (simp add: process_input_def key_defs)
  have rd: "game_read_msg (\<lambda>_. Some (get_data turn_msg)) sample_game
      = Inr (sample_game\<lparr>bg_buf := MsgBuffer_default\<lparr>mb_is_too_small := False\<rparr>, bg_from_server := [turn_msg]\<rparr>)"
    using read_turn by (simp add: game_read_msg_def sample_interface extract_all_queue MsgBuffer_default_def del: extract_all.simps)
  show "received turn_arrives sample_game = [turn_msg]"
    using rd by (simp add: received_def turn_arrives_def k)
  have "sample_game\<lparr>bg_interface := bg_interface sample_game\<rparr> = sample_game" by (cases sample_game) simp
  moreover have "bg_client_fd (fst (process_start_turn_msg 100 160 True sample_game)) = 3" 
    "bg_from_server (fst (process_start_turn_msg 100 160 True sample_game)) = []"
    by (simp_all add: process_start_turn_msg_def sample_interface)
  ultimately show "\<exists>out. game_iteration turn_arrives sample_game = Inr (False, out, [], after_turn)"
    using rd
    by (simp add: game_iteration_def turn_arrives_def k dispatch_input_def game_fill_fd_sets_def cs_fd_set_def
      FD_SETSIZE_def sample_interface game_process_select_result_def game_process_fd_actions_def cs_fd_isset_def
      game_process_msgs_def turn_msg_def game_process_msg_def process_start_turn_msg_def on_interface_def
      split_beta Let_def after_turn_def)
qed

lemma after_turn_reached: "reach game_start game_step (False, after_turn)"
proof -
  have "reach game_start game_step (False, sample_game)" by (rule reach_init) (rule sample_start)
  moreover have "game_step turn_arrives (False, sample_game) = Inr (False, after_turn)"
    using turn_iteration(1) by (auto simp: game_step_def)
  ultimately show ?thesis by (rule reach_step)
qed

lemma own_turn_cursor:
  assumes "field_contains (gi_last_shot ni)"
  shows "get_related_pos (ni_cursor (fst (activate_own_turn_mode now t ni))) = gi_last_shot ni"
  using assms
  by (cases "gi_last_shot ni") (auto simp: activate_own_turn_mode_def split_beta start_timer_until_def
    move_cursor_to_enemy_field_def set_boundary_def set_mode_def gi_get_last_shot_def set_related_pos_def check_pos_def
    get_related_pos_def Let_def is_valid_boundary_iff area_defs field_contains_iff)

lemma activate_own_frame [simp]:
  "gi_enemy_field (fst (activate_own_turn_mode now t ni)) = gi_enemy_field ni"
  "gi_enemy_field (fst (interface_set_state st ni)) = gi_enemy_field ni"
  "ni_cursor (fst (interface_set_state st ni)) = ni_cursor ni"
  by (simp_all add: activate_own_turn_mode_def split_beta start_timer_until_def set_mode_def interface_set_state_def Let_def)

lemma after_turn_sel:
  "gi_mode (bg_interface after_turn) = OWN_TURN_MODE" "get_related_pos (ni_cursor (bg_interface after_turn)) = Point 0 0"
  "gi_enemy_field (bg_interface after_turn) = GameField_default" "bg_client_fd after_turn = 3"
  "bg_to_server after_turn = []" "bg_from_server after_turn = []" "bg_quit after_turn = False"
  using own_turn_cursor [of "bg_interface sample_game" 100 160]
  by (simp_all add: after_turn_def process_start_turn_msg_def sample_interface fst_and_then field_contains_iff)

definition shot_taken :: NcursesInterface where
  "shot_taken = (gi_set_last_shot (Point 0 0) (bg_interface after_turn))\<lparr>gi_mode := WAIT_MODE\<rparr>"

lemma shot_input:
  "process_input (char_code CHR '' '') (bg_interface after_turn) = (SHOT_IN, shot_taken, [SetTimeout 100])"
proof -
  have "get_state GameField_default (Point 0 0) = CELL_EMPTY"
    by (simp add: get_state_def GameField_default_def cell_def field_contains_iff)
  then have "process_enter_input (bg_interface after_turn) = (SHOT_IN, shot_taken)"
    using after_turn_sel by (simp add: process_enter_input_def shot_taken_def Let_def)
  then show ?thesis by (simp add: process_input_def key_defs)
qed

lemma shot_iteration:
  "\<exists>out bg'. game_iteration space_pressed after_turn = Inr (False, out, [get_data first_shot], bg') \<and> bg_to_server bg' = []"
  "received space_pressed after_turn = []"
proof -
  define bg2 where "bg2 = fst (dispatch_input SHOT_IN (after_turn\<lparr>bg_interface := shot_taken\<rparr>))"
  have q: "bg_to_server bg2 = [first_shot]" "bg_client_fd bg2 = 3" "bg_from_server bg2 = []" "bg_quit bg2 = False"
    by (simp_all add: bg2_def dispatch_input_def send_shot_pos_def split_beta after_turn_sel shot_taken_def
      gi_set_last_shot_def gi_get_last_shot_def first_shot_def stop_own_turn_mode_def set_mode_def)
  have key: "gn_key space_pressed = char_code CHR '' ''" by (simp add: space_pressed_def)
  have bg2: "bg2\<lparr>bg_from_server := []\<rparr> = bg2" using q(3) by (cases bg2) simp
  have "game_fill_fd_sets bg2 = Inr ({3}, {3})" by (simp add: game_fill_fd_sets_def q cs_fd_set_def FD_SETSIZE_def)
  moreover have "game_process_select_result space_pressed ({3}, {3}) bg2
      = Inr ([], [get_data first_shot], bg2\<lparr>bg_to_server := []\<rparr>)"
    by (simp add: game_process_select_result_def game_process_fd_actions_def q cs_fd_isset_def FD_SETSIZE_def
      space_pressed_def turn_arrives_def game_process_msgs_def bg2 write_msg_for_server_def first_shot_def wire_simps)
  ultimately show "\<exists>out bg'. game_iteration space_pressed after_turn = Inr (False, out, [get_data first_shot], bg') \<and> bg_to_server bg' = []"
    using q(4) by (simp add: game_iteration_def key shot_input Let_def split_beta bg2_def [symmetric])
  show "received space_pressed after_turn = []"
    by (simp add: received_def key shot_input after_turn_sel) (simp add: space_pressed_def turn_arrives_def)
qed

section \<open>A shot\<close>

lemma shot_dispatch:
  assumes "interface_ok (bg_interface bg)" "process_input key (bg_interface bg) = (SHOT_IN, ni, out)"
  shows "gi_mode (bg_interface bg) = OWN_TURN_MODE
    \<and> (let bg' = fst (dispatch_input SHOT_IN (bg\<lparr>bg_interface := ni\<rparr>)); p = get_related_pos (ni_cursor (bg_interface bg)) in
        bg_to_server bg' = bg_to_server bg @ [new_msg (GameMoveMsg p)] \<and> gi_mode (bg_interface bg') = WAIT_MODE
        \<and> field_contains p
        \<and> (\<forall>f. wf_field f \<longrightarrow> gi_enemy_field (bg_interface bg) = get_for_enemy f \<longrightarrow> fst (register_shot f p) \<noteq> CELL_EMPTY)
        \<and> bg_from_server bg' = bg_from_server bg \<and> bg_client_fd bg' = bg_client_fd bg)"
proof -
  note i = process_input_ok [OF assms]
  have "process_enter_input (bg_interface bg) = (SHOT_IN, ni)"
    using assms(2) move_input_ok [OF assms(1)] by (auto simp: process_input_def split: if_splits prod.splits)
  then have p: "gi_last_shot ni = get_related_pos (ni_cursor (bg_interface bg))"
    using i by (auto simp: process_enter_input_def gi_set_last_shot_def Let_def split: if_splits)
  let ?p = "get_related_pos (ni_cursor (bg_interface bg))"
  have "fst (register_shot f ?p) \<noteq> CELL_EMPTY"
    if "wf_field f" "gi_enemy_field (bg_interface bg) = get_for_enemy f" for f
    using i p that get_state_for_enemy [OF that(1), of ?p]
    by (auto simp: register_fresh fresh_cell_def split: if_splits)
  then show ?thesis
    using i p
    by (simp add: Let_def dispatch_input_def send_shot_pos_def split_beta stop_own_turn_mode_def set_mode_def
      gi_get_last_shot_def)
qed

section \<open>Properties\<close>

text \<open>
  C18. Every state the interface process reaches has its invariant: the cursor is inside its area, which
  is the own field while the ships are placed and the field of the enemy during an own turn, both
  fields have all their cells, and the last shot is a place of the field. No iteration uses a null
  pointer or loops, whatever keys are pressed and whatever the server sends.
\<close>

theorem game_process_invariant:
  assumes "reach game_start game_step s"
  shows "game_state_ok s \<and> game_iteration inp (snd s) \<noteq> Inl NullDeref \<and> game_iteration inp (snd s) \<noteq> Inl Diverges"
proof -
  have ok: "game_state_ok s" using game_sys.reach_inv [OF assms] .
  then show ?thesis
    using game_iteration_ok [of "snd s" inp] by (auto simp: game_state_ok_def soft_faults_def)
qed

theorem game_process_invariant_witness:
  "\<exists>s. reach game_start game_step s \<and> gi_mode (bg_interface (snd s)) = OWN_TURN_MODE
    \<and> enemy_area (ni_cursor (bg_interface (snd s)))"
proof -
  note r = after_turn_reached
  then show ?thesis
    using game_process_invariant [OF r] after_turn_sel(1)
    by (intro exI [of _ "(False, after_turn)"]) (auto simp: game_state_ok_def game_ok_def interface_ok_def)
qed

text \<open>
  C8. No move without a turn. Over any run of the interface process from its start, the moves written
  to the client process, those still in the queue and the one that may still be made are together
  at most as many as the messages of the server that gave the player the turn.
\<close>

theorem moves_need_turns:
  assumes "game_start (False, bg)" and "game_loop inps bg = Inr (ended, out, written, bg')"
  shows "moves_sent written + moves (bg_to_server bg') + may_move bg' \<le> turns_given inps bg"
proof -
  have "game_ok bg" using game_start_ok [OF assms(1)] by (simp add: game_state_ok_def)
  moreover obtain f b img fd where "bg = set_client_fd fd (mk_game (fst (mk_interface f b img)))"
    using assms(1) by (auto simp: game_start_def)
  then have "moves (bg_to_server bg) + may_move bg = 0"
    by (simp add: set_client_fd_def mk_game_def may_move_def mk_interface_def Let_def split_beta init_curses_mode_def)
  ultimately show ?thesis using loop_moves [OF assms(2)] by simp
qed

theorem moves_need_turns_witness:
  "\<exists>out bg'. game_loop [turn_arrives, space_pressed] sample_game = Inr (False, out, [get_data first_shot], bg')
    \<and> moves_sent [get_data first_shot] = 1 \<and> 1 \<le> turns_given [turn_arrives, space_pressed] sample_game"
proof -
  obtain out1 where i1: "game_iteration turn_arrives sample_game = Inr (False, out1, [], after_turn)"
    using turn_iteration(1) by blast
  obtain out2 bg' where i2: "game_iteration space_pressed after_turn = Inr (False, out2, [get_data first_shot], bg')"
    using shot_iteration(1) by blast
  have l: "game_loop [turn_arrives, space_pressed] sample_game = Inr (False, out1 @ out2, [get_data first_shot], bg')"
    by (simp add: i1 i2)
  have "moves_sent [get_data first_shot] = 1"
    using read_type_get_data [of first_shot "[]"] by (simp add: first_shot_def)
  then show ?thesis using moves_need_turns [OF sample_start l] l by auto
qed

end
