(* ===== verification/GameScreen.thy ===== *)
theory GameScreen
  imports GameProcess
begin

text \<open>
  What the player sees: the calls of the curses library that draw the interface are run on a window,
  and every place of the window has the character it should have. The library is not part of the
  model; it is a parameter, a record of what a call does to a window, where the cursor of a window is
  and which characters it has, and \<open>documented\<close> collects what its manual pages say of the calls the
  program makes. Nothing is assumed of calls outside the window and of other than printable
  characters.
\<close>

section \<open>The library\<close>

record 'w curses_lib =
  lib_call :: "curses_call \<Rightarrow> 'w \<Rightarrow> 'w"
  lib_at :: "'w \<Rightarrow> int \<times> int"
  lib_char :: "'w \<Rightarrow> int \<times> int \<Rightarrow> int"
  lib_rows :: int
  lib_cols :: int


definition lib_run :: "'w curses_lib \<Rightarrow> curses_call list \<Rightarrow> 'w \<Rightarrow> 'w" where
  "lib_run lib = fold (lib_call lib)"




lemma lib_run_simps [simp]: "lib_run lib [] w = w" "lib_run lib (c # cs) w = lib_run lib cs (lib_call lib c w)"
  "lib_run lib (cs @ ds) w = lib_run lib ds (lib_run lib cs w)"
  by (simp_all add: lib_run_def)






section \<open>Drawing\<close>

text \<open>The characters a list of calls leaves, in any window.\<close>

definition overlay :: "(int \<times> int \<rightharpoonup> int) \<Rightarrow> (int \<times> int \<Rightarrow> int) \<Rightarrow> int \<times> int \<Rightarrow> int" where
  "overlay p c = (\<lambda>i. case p i of None \<Rightarrow> c i | Some v \<Rightarrow> v)"

definition draws :: "'w curses_lib \<Rightarrow> curses_call list \<Rightarrow> (int \<times> int \<rightharpoonup> int) \<Rightarrow> bool" where
  "draws lib cs p \<longleftrightarrow> (\<forall>w. lib_char lib (lib_run lib cs w) = overlay p (lib_char lib w))"

lemma overlay_simps [simp]: "overlay Map.empty c = c" "overlay q (overlay p c) = overlay (p ++ q) c"
  by (auto simp: overlay_def map_add_def fun_eq_iff split: option.splits)


lemma draws_nil [simp]: "draws lib [] Map.empty"
  by (simp add: draws_def)














section \<open>The parts of the interface\<close>





















section \<open>The whole window\<close>





section \<open>The background\<close>








section \<open>Property\<close>









end
