(* ===== verification/EndToEnd.thy ===== *)
theory EndToEnd
  imports ServerProps ClientRelay GameProcess
begin

text \<open>
  The three processes of a player's game together: a shot the player makes goes through the client
  process to the session of the server, and what the server has for a client goes through the client
  process to the interface, where it is handled. The bytes one process writes are the bytes the next
  one reads.
\<close>

section \<open>The server reads from one client\<close>

text \<open>The client is in order and waits for its next message.\<close>

definition idle_player :: "ClientData \<Rightarrow> bool" where
  "idle_player cl \<longleftrightarrow> idle_buf (cd_buf cl) \<and> mb_queue (cd_buf cl) = [] \<and> cd_to_process cl = []
     \<and> 0 \<le> cd_fd cl \<and> cd_fd cl < FD_SETSIZE"

text \<open>Nothing is to be done for a client.\<close>

definition quiet :: "SelectInput \<Rightarrow> Server \<Rightarrow> nat \<Rightarrow> bool" where
  "quiet inp sv d \<longleftrightarrow> (\<exists>cl. sv_clients sv d = Some cl \<and> cd_to_process cl = [] \<and> 0 \<le> cd_fd cl \<and> cd_fd cl < FD_SETSIZE
     \<and> \<not> si_readable inp (cd_fd cl) \<and> \<not> si_writable inp (cd_fd cl))"

lemma quiet_actions: "quiet inp sv d \<Longrightarrow> fd_actions inp fds d sv = Inr sv"
  by (auto simp: quiet_def fd_actions_def get_fd_def process_msg_def Let_def)

lemma quiet_view: "view sv' = view sv \<Longrightarrow> quiet inp sv' d = quiet inp sv d"
proof -
  assume v: "view sv' = view sv"
  then have "map_option (\<lambda>cl. (cd_session cl, cd_fd cl)) (sv_clients sv' d)
      = map_option (\<lambda>cl. (cd_session cl, cd_fd cl)) (sv_clients sv d)" "mail sv' d = mail sv d"
    by (auto simp: view_def dest: fun_cong [of _ _ d])
  then show ?thesis
    by (cases "sv_clients sv d"; cases "sv_clients sv' d") (auto simp: quiet_def mail_def)
qed

lemma quiet_other: "d \<noteq> c \<Longrightarrow> quiet inp (put_client c cl sv) d = quiet inp sv d"
  by (simp add: quiet_def put_client_def)

lemma client_read_delivers:
  assumes "idle_player cl" "\<forall>m \<in> set ms. wf_msg m" "ms \<noteq> []" "length (concat (map get_data ms)) < 4096"
    "rd 4096 = Some (concat (map get_data ms))"
  shows "\<exists>cl'. client_read rd cl = Inr (BUFF_OK, cl') \<and> cl' = cl\<lparr>cd_buf := cd_buf cl', cd_to_process := ms\<rparr>
    \<and> idle_player (cl'\<lparr>cd_to_process := []\<rparr>)"
proof -
  have "read_msg (cd_fd cl) rd (cd_buf cl) = Inr (BUFF_OK, (cd_buf cl)\<lparr>mb_queue := mb_queue (cd_buf cl) @ ms, mb_is_too_small := False\<rparr>)"
    by (rule read_plain_messages) (use assms in \<open>auto simp: idle_player_def\<close>)
  then show ?thesis
    using assms(1) extract_loop_all [of "cl\<lparr>cd_buf := (cd_buf cl)\<lparr>mb_queue := ms, mb_is_too_small := False\<rparr>\<rparr>"]
    by (simp add: client_read_def idle_player_def Let_def idle_buf_def)
qed

lemma walk_step:
  assumes "ca_wf (arr sv)" "i < length (ca_clients (arr sv))" "0 < unprocessed"
  shows "fd_actions_walk (Suc n) inp fds arr (int i) unprocessed sv
    = (case ca_clients (arr sv) ! i of
         None \<Rightarrow> fd_actions_walk n inp fds arr (int (Suc i)) unprocessed sv
       | Some c \<Rightarrow> rbind (fd_actions inp fds c sv) (fd_actions_walk n inp fds arr (int (Suc i)) (unprocessed - 1)))"
  using assms ca_index_nat [OF assms(1,2)] by (simp add: algebra_simps split: option.splits)

lemma quiet_walk:
  assumes "ca_wf (arr sv)" "unprocessed = int (length (rest (arr sv) i))" "length (ca_clients (arr sv)) < n + i"
    "i \<le> length (ca_clients (arr sv))" "\<forall>d \<in> set (rest (arr sv) i). quiet inp sv d"
  shows "fd_actions_walk n inp fds arr (int i) unprocessed sv = Inr sv"
  using assms
proof (induction n arbitrary: i unprocessed)
  case (Suc n)
  show ?case
  proof (cases "unprocessed \<le> 0")
    case False
    then have il: "i < length (ca_clients (arr sv))"
      using Suc.prems(2) rest_end [of "arr sv" i] by (cases "i < length (ca_clients (arr sv))") auto
    have pos: "0 < unprocessed" using False by simp
    show ?thesis
      unfolding walk_step [of arr, OF Suc.prems(1) il pos]
      using Suc.IH [of unprocessed "Suc i"] Suc.IH [of "unprocessed - 1" "Suc i"] Suc.prems il rest_step [OF il]
      by (cases "ca_clients (arr sv) ! i") (auto simp: quiet_actions)
  qed simp
qed simp

text \<open>One client has something to do and the others have not.\<close>

lemma single_walk:
  assumes "ca_wf (arr sv)" "unprocessed = int (length (rest (arr sv) i))" "length (ca_clients (arr sv)) < n + i"
    "i \<le> length (ca_clients (arr sv))" "c \<in> set (rest (arr sv) i)"
    "\<forall>d \<in> set (rest (arr sv) i). d \<noteq> c \<longrightarrow> quiet inp sv d"
    "fd_actions inp fds c sv = Inr sv'" "arr sv' = arr sv" "\<forall>d. d \<noteq> c \<longrightarrow> quiet inp sv' d = quiet inp sv d"
  shows "fd_actions_walk n inp fds arr (int i) unprocessed sv = Inr sv'"
  using assms
proof (induction n arbitrary: i unprocessed)
  case (Suc n)
  have il: "i < length (ca_clients (arr sv))"
    using Suc.prems(5) rest_end [of "arr sv" i] by (cases "i < length (ca_clients (arr sv))") auto
  have pos: "0 < unprocessed" using Suc.prems(2,5) by (cases "rest (arr sv) i") auto
  show ?case
  proof (cases "ca_clients (arr sv) ! i")
    case None
    then show ?thesis
      unfolding walk_step [of arr, OF Suc.prems(1) il pos]
      using Suc.IH [of unprocessed "Suc i"] Suc.prems il rest_step [OF il] by simp
  next
    case (Some d)
    have rs: "rest (arr sv) i = d # rest (arr sv) (Suc i)" using rest_step [OF il] Some by simp
    have dd: "d \<notin> set (rest (arr sv) (Suc i))" using rest_distinct [OF Suc.prems(1), of i] rs by simp
    show ?thesis
    proof (cases "d = c")
      case True
      have "fd_actions_walk n inp fds arr (int (Suc i)) (unprocessed - 1) sv' = Inr sv'"
        by (rule quiet_walk) (use Suc.prems il rs dd True in auto)
      then show ?thesis
        unfolding walk_step [of arr, OF Suc.prems(1) il pos] using Some True Suc.prems(7) by simp
    next
      case False
      then have "fd_actions inp fds d sv = Inr sv" using Suc.prems(6) rs by (simp add: quiet_actions)
      then show ?thesis
        unfolding walk_step [of arr, OF Suc.prems(1) il pos]
        using Suc.IH [of "unprocessed - 1" "Suc i"] Suc.prems il rs False Some by simp
    qed
  qed
qed simp

text \<open>
  The descriptors are processed: only the client \<open>c\<close>, a player, has something to do, and its actions
  do not touch the arrays and the other clients.
\<close>

lemma single_player_actions:
  assumes ok: "server_ok sv" and c: "sv_clients sv c = Some cl" "cd_session cl = Some s"
    and others: "\<forall>d. sv_clients sv d \<noteq> None \<longrightarrow> d \<noteq> c \<longrightarrow> quiet inp sv d"
    and act: "fd_actions inp fds c sv = Inr sv'" "sv_in_game sv' = sv_in_game sv" "sv_queue sv' = sv_queue sv"
      "\<forall>d. d \<noteq> c \<longrightarrow> quiet inp sv' d = quiet inp sv d"
  shows "process_fd_actions inp fds sv = Inr sv'"
proof -
  have arr: "ca_set (sv_in_game sv) = with_session sv" "ca_set (sv_queue sv) = without_session sv"
    using ok by (simp_all add: server_ok_def server_inv_winv winv_def arrays_ok_def)
  have wf: "ca_wf (sv_in_game sv)" "ca_wf (sv_queue sv)" using arrays_wf_arr [OF ok] by blast+
  have alive: "\<forall>d \<in> ca_set (sv_in_game sv) \<union> ca_set (sv_queue sv). sv_clients sv d \<noteq> None"
    unfolding arr by (auto simp: with_session_def without_session_def)
  have cin: "c \<in> ca_set (sv_in_game sv)" "c \<notin> ca_set (sv_queue sv)"
    using c unfolding arr by (auto simp: with_session_def without_session_def)
  have q1: "\<forall>d \<in> set (rest (sv_in_game sv) 0). d \<noteq> c \<longrightarrow> quiet inp sv d"
    using others alive unfolding rest_all by simp
  have q2: "quiet inp sv' d" if "d \<in> set (rest (sv_queue sv') 0)" for d
  proof -
    have "d \<in> ca_set (sv_queue sv)" using that unfolding rest_all act(3) .
    moreover from this have "d \<noteq> c" using cin(2) by blast
    ultimately show ?thesis using others alive act(4) by simp
  qed
  have "fd_actions_walk (Suc (length (ca_clients (sv_in_game sv)))) inp fds sv_in_game 0
      (ca_get_count (sv_in_game sv)) sv = Inr sv'"
    using single_walk [of sv_in_game sv "ca_get_count (sv_in_game sv)" 0 "Suc (length (ca_clients (sv_in_game sv)))" c inp fds sv']
      wf cin(1) q1 act rest_start [OF wf(1)] rest_all by simp
  moreover have "fd_actions_walk (Suc (length (ca_clients (sv_queue sv')))) inp fds sv_queue 0
      (ca_get_count (sv_queue sv')) sv' = Inr sv'"
    using quiet_walk [of sv_queue sv' "ca_get_count (sv_queue sv')" 0 "Suc (length (ca_clients (sv_queue sv')))" inp fds]
      wf(2) q2 rest_start [of "sv_queue sv'"] act(3) by simp
  ultimately show ?thesis by (simp add: process_fd_actions_def)
qed

section \<open>A move arrives at the server\<close>

lemma move_view: "process_game_move_msg c p sv = Inr sv' \<Longrightarrow> view sv' = view sv"
proof -
  assume r: "process_game_move_msg c p sv = Inr sv'"
  then obtain x where x: "session_of c sv = Inr x"
    by (auto simp: process_game_move_msg_def rbind_Inr_iff)
  show ?thesis
  proof (cases x)
    case None
    then show ?thesis using r x by (simp add: process_game_move_msg_def send_error_def send_view)
  next
    case (Some s)
    then show ?thesis
      using r x end_turn_view
      by (fastforce simp: process_game_move_msg_def Let_def split: if_splits prod.splits)
  qed
qed

lemma view_mail:
  assumes "view sv' = view sv" "sv_clients sv c = Some cl"
  shows "\<exists>cl'. sv_clients sv' c = Some cl' \<and> cd_to_process cl' = cd_to_process cl"
proof -
  have "mail sv' c = Some (cd_to_process cl, cd_buf cl)" using assms by (simp add: view_def) (simp add: mail_def)
  then show ?thesis by (auto simp: mail_def)
qed

lemma on_client_view_alive: "sv_clients sv c \<noteq> None \<Longrightarrow> \<exists>sv'. on_client (Some c) f sv = Inr sv'"
  by (auto simp: on_client_def)

lemma move_arrives:
  assumes ok: "server_ok sv" and c: "sv_clients sv c = Some cl" "cd_session cl = Some s" "idle_player cl"
    and m: "wf_msg \<lparr>msg_id = k, msg_body = GameMoveMsg p\<rparr>"
    and inp: "cd_fd cl \<in> set (fst fds)" "si_readable inp (cd_fd cl)" "\<not> si_writable inp (cd_fd cl)"
      "si_read inp (cd_fd cl) 4096 = Some (get_data \<lparr>msg_id = k, msg_body = GameMoveMsg p\<rparr>)"
  shows "\<exists>sv'. fd_actions inp fds c sv = Inr sv'
    \<and> sv_sessions sv' = (if move_counts c (sess sv s) then (sv_sessions sv)[s := after_move p (sess sv s)] else sv_sessions sv)
    \<and> sv_in_game sv' = sv_in_game sv \<and> sv_queue sv' = sv_queue sv \<and> (\<forall>d. d \<noteq> c \<longrightarrow> quiet inp sv' d = quiet inp sv d)"
proof -
  let ?m = "\<lparr>msg_id = k, msg_body = GameMoveMsg p\<rparr>"
  have len: "length (get_data ?m) < 4096" using length_get_data_bounds [OF m] by simp
  obtain cl1 where r: "client_read (si_read inp (cd_fd cl)) cl = Inr (BUFF_OK, cl1)"
    "cl1 = cl\<lparr>cd_buf := cd_buf cl1, cd_to_process := [?m]\<rparr>" "idle_player (cl1\<lparr>cd_to_process := []\<rparr>)"
    using client_read_delivers [OF c(3), of "[?m]" "si_read inp (cd_fd cl)"] m inp(4) len by auto
  define cl2 where "cl2 = cl1\<lparr>cd_to_process := []\<rparr>"
  let ?sv1 = "put_client c cl1 sv" and ?sv2 = "put_client c cl2 sv"
  have f: "cd_session cl1 = cd_session cl" "cd_fd cl1 = cd_fd cl" "cd_to_process cl1 = [?m]"
    by (subst r(2), simp)+
  have "mb_queue (cd_buf cl2) = []" "cd_to_process cl2 = []" using r(3) by (simp_all add: cl2_def idle_player_def)
  then have "attended c sv ?sv2"
    by (intro put_client_attended [OF ok c(1)]) (simp_all add: cl2_def f client_mail_ok_def)
  then have ok2: "server_inv ?sv2" using attended_ok by (auto simp: server_ok_def)
  have ss: "sess ?sv2 s = sess sv s" "sv_sessions ?sv2 = sv_sessions sv" by (simp_all add: put_client_def)
  have hs: "has_session ?sv2 c (Some s)" using f c by (simp add: has_session_def put_client_def cl2_def)
  obtain sv3 where mv: "process_game_move_msg c p ?sv2 = Inr sv3"
    "sv_sessions sv3 = (if move_counts c (sess sv s) then (sv_sessions sv)[s := after_move p (sess sv s)] else sv_sessions sv)"
    using move_result [OF ok2 hs, of p] by (auto simp: ss split: if_splits)
  have v3: "view sv3 = view ?sv2" by (rule move_view [OF mv(1)])
  obtain cl3 where c3: "sv_clients sv3 c = Some cl3" "cd_to_process cl3 = []"
    using view_mail [OF v3, of c cl2] by (auto simp: put_client_def cl2_def)
  obtain sv4 where rc: "on_client (Some c) (send_receipt k) sv3 = Inr sv4"
    using on_client_view_alive c3(1) by blast
  have v4: "view sv4 = view sv3" using rc by (simp add: send_receipt_def [abs_def] send_view)
  obtain cl4 where c4: "sv_clients sv4 c = Some cl4" "cd_to_process cl4 = []"
    using view_mail [OF v4 c3(1)] c3(2) by auto
  have "on_client (Some c) (\<lambda>cl. cl\<lparr>cd_to_process := []\<rparr>) ?sv1 = Inr ?sv2"
    by (simp add: on_client_def put_client_def cl2_def)
  then have "process_msg c ?sv1 = Inr sv4"
    using f(3) mv(1) rc c4
    by (simp add: process_msg_def put_client_def process_one_def msg_type_def)
  then have "fd_actions inp fds c sv = Inr sv4"
    using c inp r(1) by (simp add: fd_actions_def get_fd_def idle_player_def client_read_msg_def Let_def put_client_def)
  moreover have "sv_sessions sv4 = (if move_counts c (sess sv s) then (sv_sessions sv)[s := after_move p (sess sv s)] else sv_sessions sv)"
    using on_client_sessions [OF rc] mv(2) by simp
  moreover have "sv_in_game sv4 = sv_in_game sv" "sv_queue sv4 = sv_queue sv"
    using v3 v4 by (simp_all add: view_def put_client_def)
  moreover have "quiet inp sv4 d = quiet inp sv d" if "d \<noteq> c" for d
    using quiet_view [of sv4 sv3] quiet_view [of sv3 ?sv2] quiet_other [OF that] v3 v4 by simp
  ultimately show ?thesis by blast
qed

section \<open>A shot leaves the interface\<close>

text \<open>The bytes an iteration of the interface process writes, and the bytes two of the client process send to the server.\<close>

definition game_sends :: "GameInput \<Rightarrow> BattleshipGame \<Rightarrow> byte list" where
  "game_sends inp bg = (case game_iteration inp bg of Inl _ \<Rightarrow> [] | Inr (_, _, out, _) \<Rightarrow> concat out)"

definition client_sends :: "ClientInput \<Rightarrow> ClientInput \<Rightarrow> ClientServer \<Rightarrow> byte list \<times> byte list" where
  "client_sends inp1 inp2 cs =
     (case rbind (cs_run_iteration inp1 cs) (\<lambda>(_, _, cs1). cs_run_iteration inp2 cs1) of
        Inl _ \<Rightarrow> ([], []) | Inr (to_server, to_interface, _) \<Rightarrow> (concat to_server, concat to_interface))"

lemma shot_is_sent:
  assumes ok: "interface_ok (bg_interface bg)" and shot: "process_input (gn_key inp) (bg_interface bg) = (SHOT_IN, ni, out)"
    and idle: "bg_to_server bg = []" "bg_from_server bg = []" "0 \<le> bg_client_fd bg" "bg_client_fd bg < FD_SETSIZE"
    and inp: "gn_result inp \<noteq> -1" "\<not> gn_readable inp (bg_client_fd bg)" "gn_writable inp (bg_client_fd bg)" "gn_write inp 0 = 21"
  shows "game_sends inp bg = get_data (new_msg (GameMoveMsg (get_related_pos (ni_cursor (bg_interface bg)))))"
proof -
  define bg2 where "bg2 = fst (dispatch_input SHOT_IN (bg\<lparr>bg_interface := ni\<rparr>))"
  let ?m = "new_msg (GameMoveMsg (get_related_pos (ni_cursor (bg_interface bg))))"
  have q: "bg_to_server bg2 = [?m]" "bg_from_server bg2 = []" "bg_client_fd bg2 = bg_client_fd bg"
    using shot_dispatch [OF ok shot] idle unfolding Let_def bg2_def by simp_all
  have bg2: "bg2\<lparr>bg_from_server := []\<rparr> = bg2" using q(2) by (cases bg2) simp
  have "game_fill_fd_sets bg2 = Inr ({bg_client_fd bg}, {bg_client_fd bg})"
    using idle by (simp add: game_fill_fd_sets_def q cs_fd_set_def)
  moreover have "game_process_select_result inp ({bg_client_fd bg}, {bg_client_fd bg}) bg2
      = Inr ([], [get_data ?m], bg2\<lparr>bg_to_server := []\<rparr>)"
    using inp idle
    by (simp add: game_process_select_result_def game_process_fd_actions_def q cs_fd_isset_def
      game_process_msgs_def bg2 write_msg_for_server_def wire_simps)
  ultimately show ?thesis
    by (simp add: game_sends_def game_iteration_def shot Let_def split_beta bg2_def [symmetric])
qed

section \<open>The way through the client process\<close>

text \<open>The inputs of two iterations: the first one reads, the second one writes.\<close>

definition reads_from :: "ClientInput \<Rightarrow> int \<Rightarrow> byte list \<Rightarrow> bool" where
  "reads_from inp fd bs \<longleftrightarrow> ci_result inp \<noteq> -1 \<and> ci_readable inp = (\<lambda>f. f = fd) \<and> ci_read inp fd 4096 = Some bs"

definition writes_all :: "ClientInput \<Rightarrow> (int \<Rightarrow> int list) \<Rightarrow> bool" where
  "writes_all inp sizes \<longleftrightarrow> ci_result inp \<noteq> -1 \<and> ci_readable inp = (\<lambda>_. False) \<and> ci_writable inp = (\<lambda>_. True)
     \<and> (\<forall>fd. \<forall>i < length (sizes fd). ci_write inp fd i = sizes fd ! i)"

lemma takes_sizes:
  "ci_writable inp = (\<lambda>_. True) \<Longrightarrow> \<forall>i < length ms. ci_write inp fd i = map (get_type_data_size \<circ> msg_type) ms ! i \<Longrightarrow> takes inp fd ms"
  by (simp add: takes_def)

lemma request_passes_client:
  assumes inv: "cs_inv cs" "idle_client cs" and m: "wf_msg m" "msg_id m = NO_ID" "for_server (msg_body m)"
    and i1: "reads_from inp1 (cs_interface_fd cs) (get_data m)"
    and i2: "writes_all inp2 (\<lambda>fd. if fd = cs_server_fd cs then [get_type_data_size (msg_type m)] else [])"
  shows "client_sends inp1 inp2 cs = (get_data (m\<lparr>msg_id := cs_msg_num cs\<rparr>), [])"
proof -
  have fds: "cs_server_fd cs \<noteq> cs_interface_fd cs" using inv(2) by (simp add: idle_client_def)
  have "length (get_data m) < 4096" using length_get_data_bounds [OF m(1)] by simp
  then have d: "delivers inp1 (cs_server_fd cs) []" "delivers inp1 (cs_interface_fd cs) [m]"
    using i1 m(1) fds by (simp_all add: delivers_def reads_from_def)
  have t: "takes inp2 (cs_server_fd cs) (receipts_for [] @ [m])" "takes inp2 (cs_interface_fd cs) (filter (for_interface \<circ> msg_body) [])"
    using i2 fds by (auto simp: takes_def writes_all_def receipts_for_def dest: spec [of _ "cs_server_fd cs"])
  have "\<exists>cs1 cs2. cs_run_iteration inp1 cs = Inr ([], [], cs1)
      \<and> cs_run_iteration inp2 cs1 = Inr ([get_data (m\<lparr>msg_id := cs_msg_num cs\<rparr>)], [], cs2)"
    using relay_two_iterations [OF inv _ _ d _ _ _ t] i1 i2 m(2,3)
    by (auto simp: reads_from_def writes_all_def receipts_for_def)
  then show ?thesis by (auto simp: client_sends_def)
qed

section \<open>From the server to the interface\<close>

lemma messages_pass_client:
  assumes inv: "cs_inv cs" "idle_client cs" and ms: "ms \<noteq> []" "\<forall>m \<in> set ms. wf_msg m" "length (concat (map get_data ms)) < 4096"
    and i1: "reads_from inp1 (cs_server_fd cs) (concat (map get_data ms))"
    and i2: "writes_all inp2 (\<lambda>fd. map (get_type_data_size \<circ> msg_type)
      (if fd = cs_server_fd cs then receipts_for ms else filter (for_interface \<circ> msg_body) ms))"
  shows "client_sends inp1 inp2 cs
    = (concat (map get_data (receipts_for ms)), concat (map get_data (filter (for_interface \<circ> msg_body) ms)))"
proof -
  have fds: "cs_interface_fd cs \<noteq> cs_server_fd cs" using inv(2) by (auto simp: idle_client_def)
  have d: "delivers inp1 (cs_server_fd cs) ms" "delivers inp1 (cs_interface_fd cs) []"
    using i1 ms fds by (simp_all add: delivers_def reads_from_def)
  have w: "ci_writable inp2 = (\<lambda>_. True)"
    "\<forall>fd. \<forall>i < length (map (get_type_data_size \<circ> msg_type)
      (if fd = cs_server_fd cs then receipts_for ms else filter (for_interface \<circ> msg_body) ms)).
      ci_write inp2 fd i = map (get_type_data_size \<circ> msg_type)
      (if fd = cs_server_fd cs then receipts_for ms else filter (for_interface \<circ> msg_body) ms) ! i"
    using i2 unfolding writes_all_def by blast+
  have t: "takes inp2 (cs_server_fd cs) (receipts_for ms @ [])" "takes inp2 (cs_interface_fd cs) (filter (for_interface \<circ> msg_body) ms)"
    using w(2) [rule_format, of _ "cs_server_fd cs"] w(2) [rule_format, of _ "cs_interface_fd cs"] fds w(1)
    by (auto intro!: takes_sizes)
  have "\<exists>cs1 cs2. cs_run_iteration inp1 cs = Inr ([], [], cs1)
      \<and> cs_run_iteration inp2 cs1 = Inr (map get_data (receipts_for ms), map get_data (filter (for_interface \<circ> msg_body) ms), cs2)"
    using relay_two_iterations [OF inv _ _ d _ _ _ t] i1 i2 by (auto simp: reads_from_def writes_all_def)
  then show ?thesis by (auto simp: client_sends_def)
qed

text \<open>The bytes the server writes when it is a client's turn.\<close>

definition server_sends :: "(nat \<Rightarrow> int) \<Rightarrow> nat \<Rightarrow> Server \<Rightarrow> byte list" where
  "server_sends wr c sv =
     (case sv_clients sv c of
        None \<Rightarrow> []
      | Some cl \<Rightarrow> (case write_msg (sv_clock sv) wr (sv_msg_num sv) cl of Inl _ \<Rightarrow> [] | Inr (out, _, _) \<Rightarrow> concat out))"

lemma server_sends_all:
  assumes "sv_clients sv c = Some cl" "cd_fd cl \<noteq> -1" "fresh_queue (cd_to_send cl) cl"
    "\<forall>i < length (cd_to_send cl). wr i = get_type_data_size (msg_type (the (cd_heap cl (cd_to_send cl ! i))))"
  shows "server_sends wr c sv = concat (map get_data (number_msgs (sv_msg_num sv) (map (the \<circ> cd_heap cl) (cd_to_send cl))))"
proof -
  obtain n' cl' where w: "write_loop (sv_clock sv) wr 0 (cd_to_send cl) (sv_msg_num sv) cl
      = Inr (map get_data (number_msgs (sv_msg_num sv) (map (the \<circ> cd_heap cl) (cd_to_send cl))), n', cl')"
    "dc_wf (cd_heap cl') (cd_delivery cl')"
    using write_loop_succeeds [OF assms(3), of wr 0 "sv_clock sv" "sv_msg_num sv"] assms(4) by auto
  obtain q h dc where "resend (sv_clock sv) (cd_to_send cl') (cd_heap cl') (cd_delivery cl') = Inr (q, h, dc)"
    using wf_resend [OF w(2)] by blast
  then show ?thesis using assms(1,2) w(1) by (simp add: server_sends_def write_msg_def)
qed

text \<open>What the messages do to the interface does not depend on the rest of the process.\<close>

lemma handled_one:
  "bg_interface (fst (game_process_msg now m bg)) = bg_interface (fst (game_process_msg now m (mk_game (bg_interface bg))))"
  by (cases "msg_body m")
    (simp_all add: game_process_msg_def process_game_state_msg_def process_field_msg_def process_server_conn_status_msg_def
      process_start_field_req_msg_def process_stop_preparation_msg_def process_start_turn_msg_def
      process_stop_turn_msg_def on_interface_def put_to_server_def mk_game_def split_beta Let_def)

lemma handled_interface:
  "bg_interface bg1 = bg_interface bg2 \<Longrightarrow>
     bg_interface (fst (game_msgs_loop now ms bg1)) = bg_interface (fst (game_msgs_loop now ms bg2))
     \<and> bg_client_fd (fst (game_msgs_loop now ms bg1)) = bg_client_fd bg1"
proof (induction ms arbitrary: bg1 bg2)
  case (Cons m ms)
  let ?h = "\<lambda>bg. fst (game_process_msg now m (bg\<lparr>bg_from_server := ms\<rparr>))"
  have "bg_interface (?h bg1) = bg_interface (?h bg2)" "bg_client_fd (?h bg1) = bg_client_fd bg1"
    using handled_one [of now m "bg1\<lparr>bg_from_server := ms\<rparr>"] handled_one [of now m "bg2\<lparr>bg_from_server := ms\<rparr>"]
      Cons.prems by simp_all
  then show ?case using Cons.IH [of "?h bg1" "?h bg2"] by (simp add: split_beta)
qed simp

lemma game_handles:
  assumes idle: "bg_from_server bg = []" "idle_buf (bg_buf bg)" "mb_queue (bg_buf bg) = []"
      "0 \<le> bg_client_fd bg" "bg_client_fd bg < FD_SETSIZE"
    and ms: "ms \<noteq> []" "\<forall>m \<in> set ms. wf_msg m" "length (concat (map get_data ms)) < 4096"
    and inp: "gn_key inp = ERR" "gn_result inp \<noteq> -1" "gn_readable inp (bg_client_fd bg)"
      "gn_read inp 4096 = Some (concat (map get_data ms))"
  shows "ok_with (\<lambda>(ended, calls, written, bg'). bg_interface bg' = bg_interface (fst (game_msgs_loop (gn_now inp) ms bg)))
    (game_iteration inp bg)"
proof -
  have k: "process_input ERR (bg_interface bg) = (INVALID_IN, bg_interface bg, [SetTimeout 100])"
    by (simp add: process_input_def key_defs)
  have same: "bg\<lparr>bg_interface := bg_interface bg\<rparr> = bg" by (cases bg) simp
  define wfds where "wfds = (if length (bg_to_server bg) \<noteq> 0 then {bg_client_fd bg} else {})"
  have fill: "game_fill_fd_sets bg = Inr ({bg_client_fd bg}, wfds)"
    using idle by (auto simp: game_fill_fd_sets_def cs_fd_set_def wfds_def)
  have "read_msg (bg_client_fd bg) (gn_read inp) (bg_buf bg)
      = Inr (BUFF_OK, (bg_buf bg)\<lparr>mb_queue := mb_queue (bg_buf bg) @ ms, mb_is_too_small := False\<rparr>)"
    by (rule read_plain_messages) (use idle ms inp in auto)
  then obtain bg1 where rd: "game_read_msg (gn_read inp) bg = Inr bg1" "bg_from_server bg1 = ms"
    "bg_interface bg1 = bg_interface bg" "bg_client_fd bg1 = bg_client_fd bg"
    using idle(1,3) by (simp add: game_read_msg_def extract_all_queue Let_def del: extract_all.simps)
  let ?bg2 = "fst (game_msgs_loop (gn_now inp) ms bg1)"
  have i2: "bg_interface ?bg2 = bg_interface (fst (game_msgs_loop (gn_now inp) ms bg))"
    using handled_interface [OF rd(3)] by blast
  have fd2: "bg_client_fd ?bg2 = bg_client_fd bg" using handled_interface [OF rd(3)] rd(4) by simp
  have "game_process_fd_actions inp ({bg_client_fd bg}, wfds) bg
      = (let (out, bg3) = (if bg_client_fd bg \<in> wfds \<and> gn_writable inp (bg_client_fd bg)
           then write_msg_for_server (gn_write inp) ?bg2 else ([], ?bg2))
         in Inr (snd (game_msgs_loop (gn_now inp) ms bg1), out, bg3))"
    using idle inp rd fd2
    by (simp add: game_process_fd_actions_def cs_fd_isset_def game_process_msgs_def split_beta Let_def)
  then have "ok_with (\<lambda>(_, _, bg'). bg_interface bg' = bg_interface ?bg2)
      (game_process_fd_actions inp ({bg_client_fd bg}, wfds) bg)"
    by (auto simp: write_msg_for_server_def split_beta Let_def)
  then obtain c3 w3 bg3 where "game_process_fd_actions inp ({bg_client_fd bg}, wfds) bg = Inr (c3, w3, bg3)"
    "bg_interface bg3 = bg_interface ?bg2"
    by (auto dest!: ok_withD)
  then show ?thesis
    using i2 fill inp(2)
    by (simp add: game_iteration_def inp(1) k dispatch_input_def same game_process_select_result_def Let_def)
qed

section \<open>Properties\<close>

text \<open>
  C2. A shot arrives. When the player of a reachable interface process shoots, the bytes it writes are
  given to an idle client process, and the bytes that one writes are given to the server on the
  connection of a client whose session is \<open>s\<close>, then the session notes the shot at the place of the
  cursor if it is the first one of the player whose turn it is, and a running turn ends; otherwise, and
  in all other sessions, nothing changes. None of the three processes has a fault on the way.
\<close>

theorem shot_reaches_session:
  assumes "reach game_start game_step (False, bg)"
    and "process_input (gn_key g) (bg_interface bg) = (SHOT_IN, ni, out)"
    and "bg_to_server bg = []" "bg_from_server bg = []" "0 \<le> bg_client_fd bg" "bg_client_fd bg < FD_SETSIZE"
    and "gn_result g \<noteq> -1" "\<not> gn_readable g (bg_client_fd bg)" "gn_writable g (bg_client_fd bg)" "gn_write g 0 = 21"
    and "cs_inv cs" "idle_client cs" "fits 8 (cs_msg_num cs)"
    and "reads_from inp1 (cs_interface_fd cs) (game_sends g bg)"
    and "writes_all inp2 (\<lambda>fd. if fd = cs_server_fd cs then [21] else [])"
    and "server_ok sv" "sv_clients sv c = Some cl" "cd_session cl = Some s" "idle_player cl"
    and "\<forall>d. sv_clients sv d \<noteq> None \<longrightarrow> d \<noteq> c \<longrightarrow> quiet inp sv d"
    and "fill_fd_sets sv = Inr fds" "si_readable inp (cd_fd cl)" "\<not> si_writable inp (cd_fd cl)"
    and "si_read inp (cd_fd cl) 4096 = Some (fst (client_sends inp1 inp2 cs))"
  shows "ok_with (\<lambda>sv'. sv_sessions sv' =
      (if move_counts c (sess sv s)
       then (sv_sessions sv)[s := after_move (get_related_pos (ni_cursor (bg_interface bg))) (sess sv s)]
       else sv_sessions sv)) (process_fd_actions inp fds sv)"
proof -
  let ?p = "get_related_pos (ni_cursor (bg_interface bg))"
  let ?m = "new_msg (GameMoveMsg ?p)"
  have iok: "interface_ok (bg_interface bg)"
    using game_sys.reach_inv [OF assms(1)] by (simp add: game_state_ok_def game_ok_def)
  have p: "field_contains ?p" using shot_dispatch [OF iok assms(2)] unfolding Let_def by blast
  have wf: "wf_msg \<lparr>msg_id = k, msg_body = GameMoveMsg ?p\<rparr>" if "fits 8 k" for k
    using p that by (auto simp: wf_msg_def field_contains_iff fits_def)
  have wm: "wf_msg ?m" using wf [of NO_ID] by (simp add: new_msg_def fits_def NO_ID_def)
  have sent: "game_sends g bg = get_data ?m" by (rule shot_is_sent [OF iok assms(2-10)])
  have size: "get_type_data_size (msg_type ?m) = 21" by (simp add: wire_simps)
  have "client_sends inp1 inp2 cs = (get_data (?m\<lparr>msg_id := cs_msg_num cs\<rparr>), [])"
    by (rule request_passes_client [OF assms(11,12) wm _ _ _ assms(15) [folded size]])
      (use assms(14) sent in \<open>simp_all add: new_msg_def\<close>)
  then have rd: "si_read inp (cd_fd cl) 4096 = Some (get_data \<lparr>msg_id = cs_msg_num cs, msg_body = GameMoveMsg ?p\<rparr>)"
    using assms(24) by (simp add: new_msg_def)
  have "cd_fd cl \<in> set (fst fds)"
    using fill_fd_sets_result [OF assms(16)] assms(17,21) by (auto simp: get_fd_def split: prod.splits)
  from move_arrives [OF assms(16-19) wf [OF assms(13)] this assms(22,23) rd] obtain sv' where
    "fd_actions inp fds c sv = Inr sv'"
    "sv_sessions sv' = (if move_counts c (sess sv s) then (sv_sessions sv)[s := after_move ?p (sess sv s)] else sv_sessions sv)"
    "sv_in_game sv' = sv_in_game sv" "sv_queue sv' = sv_queue sv" "\<forall>d. d \<noteq> c \<longrightarrow> quiet inp sv' d = quiet inp sv d"
    by blast
  moreover from this have "process_fd_actions inp fds sv = Inr sv'"
    by (intro single_player_actions [OF assms(16-18,20)])
  ultimately show ?thesis by simp
qed

text \<open>
  C3. Messages arrive at the player. What the server writes for a client is numbered and, given to an
  idle client process, is acknowledged to the server message by message, while what is meant for the
  interface is written to it; and an idle interface process that reads these bytes handles exactly
  these messages, in the order the server has sent them. None of the processes has a fault on the way.
\<close>

theorem messages_reach_player:
  assumes "sv_clients sv c = Some cl" "cd_fd cl \<noteq> -1" "fresh_queue (cd_to_send cl) cl"
    and "\<forall>i < length (cd_to_send cl). wr i = get_type_data_size (msg_type (the (cd_heap cl (cd_to_send cl ! i))))"
    and "ms = number_msgs (sv_msg_num sv) (map (the \<circ> cd_heap cl) (cd_to_send cl))"
    and "list_all wf_msg ms" "length (concat (map get_data ms)) < 4096"
    and "shown = filter (for_interface \<circ> msg_body) ms" "shown \<noteq> []"
    and "cs_inv cs" "idle_client cs"
    and "reads_from inp1 (cs_server_fd cs) (server_sends wr c sv)"
    and "writes_all inp2 (\<lambda>fd. map (get_type_data_size \<circ> msg_type) (if fd = cs_server_fd cs then receipts_for ms else shown))"
    and "bg_from_server bg = []" "idle_buf (bg_buf bg)" "mb_queue (bg_buf bg) = []"
    and "0 \<le> bg_client_fd bg" "bg_client_fd bg < FD_SETSIZE"
    and "gn_key g = ERR" "gn_result g \<noteq> -1" "gn_readable g (bg_client_fd bg)"
    and "gn_read g 4096 = Some (snd (client_sends inp1 inp2 cs))"
  shows "fst (client_sends inp1 inp2 cs) = concat (map get_data (receipts_for ms))
    \<and> ok_with (\<lambda>(ended, calls, written, bg').
        bg_interface bg' = bg_interface (fst (game_msgs_loop (gn_now g) shown bg))) (game_iteration g bg)"
proof -
  have sent: "server_sends wr c sv = concat (map get_data ms)"
    using server_sends_all [OF assms(1-4)] assms(5) by simp
  have ne: "ms \<noteq> []" and wf: "\<forall>m \<in> set ms. wf_msg m" "\<forall>m \<in> set shown. wf_msg m"
    using assms(6,8,9) by (auto simp: list_all_iff)
  have pass: "client_sends inp1 inp2 cs = (concat (map get_data (receipts_for ms)), concat (map get_data shown))"
    unfolding assms(8)
    by (rule messages_pass_client [OF assms(10,11) ne wf(1) assms(7) _ assms(13) [unfolded assms(8)]])
      (use assms(12) sent in simp)
  have "length (concat (map get_data (filter f ms))) \<le> length (concat (map get_data ms))" for f
    by (induction ms) auto
  then have "length (concat (map get_data shown)) < 4096" using assms(7,8) le_less_trans by blast
  then show ?thesis
    using game_handles [OF assms(14-18,9) wf(2) _ assms(19-21)] assms(22) pass by simp
qed

definition link_reads :: "int \<Rightarrow> byte list \<Rightarrow> ClientInput" where
  "link_reads fd bs = no_input\<lparr>ci_readable := (\<lambda>f. f = fd), ci_read := (\<lambda>_ _. Some bs)\<rparr>"

lemma link_reads: "reads_from (link_reads fd bs) fd bs"
  by (simp add: reads_from_def link_reads_def no_input_def)

definition link_writes :: "(int \<Rightarrow> int list) \<Rightarrow> ClientInput" where
  "link_writes sizes = no_input\<lparr>ci_write := (\<lambda>fd i. sizes fd ! i)\<rparr>"

lemma link_writes: "writes_all (link_writes sizes) sizes"
  by (simp add: writes_all_def link_writes_def no_input_def)

lemma sample_fds: "\<exists>fds. fill_fd_sets (ServerProps.sample_game PROCESS_TURN sample_field) = Inr fds"
proof -
  have "ok_with (\<lambda>_. True) (fill_fd_sets (ServerProps.sample_game PROCESS_TURN sample_field))" by code_simp
  then show ?thesis by (auto dest!: ok_withD)
qed

theorem shot_reaches_session_witness:
  "\<exists>inp fds sv'. process_fd_actions inp fds (ServerProps.sample_game PROCESS_TURN sample_field) = Inr sv'
    \<and> gs_last_shot (sess sv' 0) = Point 0 0"
proof -
  let ?sv = "ServerProps.sample_game PROCESS_TURN sample_field"
  define inp1 where "inp1 = link_reads 5 (game_sends space_pressed after_turn)"
  define inp2 where "inp2 = link_writes (\<lambda>fd. if fd = 4 then [21] else [])"
  define inp where "inp = sample_input\<lparr>si_readable := (\<lambda>fd. fd = 4),
    si_read := (\<lambda>_ _. Some (fst (client_sends inp1 inp2 sample_link)))\<rparr>"
  obtain fds where fds: "fill_fd_sets ?sv = Inr fds" using sample_fds by blast
  have sm: "sv_clients ?sv 0 = Some (sample_player 4)" "sess ?sv 0 = sample_session PROCESS_TURN sample_field"
    "sv_sessions ?sv = [sample_session PROCESS_TURN sample_field]"
    by (simp_all add: ServerProps.sample_game_def)
  have cl: "idle_player (sample_player 4)" "cd_session (sample_player 4) = Some 0" "cd_fd (sample_player 4) = 4"
    by (simp_all add: idle_player_def sample_player_def mk_client_def FD_SETSIZE_def)
      (simp add: MsgBuffer_default_def)
  have q: "\<forall>d. sv_clients ?sv d \<noteq> None \<longrightarrow> d \<noteq> 0 \<longrightarrow> quiet inp ?sv d"
    by (auto simp: ServerProps.sample_game_def quiet_def sample_player_def mk_client_def inp_def sample_input_def FD_SETSIZE_def)
  have g: "gn_key space_pressed = char_code CHR '' ''" "gn_result space_pressed \<noteq> -1"
    "\<not> gn_readable space_pressed 3" "gn_writable space_pressed 3" "gn_write space_pressed 0 = 21"
    by (simp_all add: space_pressed_def turn_arrives_def)
  have i: "reads_from inp1 (cs_interface_fd sample_link) (game_sends space_pressed after_turn)"
    "writes_all inp2 (\<lambda>fd. if fd = cs_server_fd sample_link then [21] else [])"
    "si_readable inp 4" "\<not> si_writable inp 4"
    "si_read inp 4 4096 = Some (fst (client_sends inp1 inp2 sample_link))"
    by (simp_all add: inp1_def inp2_def link_reads link_writes sample_link_sel inp_def sample_input_def)
  have ok: "server_ok ?sv" by (rule sample_game_ok) (simp_all add: playing_def)
  have "ok_with (\<lambda>sv'. sv_sessions sv' =
      (if move_counts 0 (sess ?sv 0)
       then (sv_sessions ?sv)[0 := after_move (get_related_pos (ni_cursor (bg_interface after_turn))) (sess ?sv 0)]
       else sv_sessions ?sv)) (process_fd_actions inp fds ?sv)"
    by (rule shot_reaches_session [OF after_turn_reached, of space_pressed shot_taken "[SetTimeout 100]" sample_link inp1 inp2 ?sv 0
        "sample_player 4" 0 inp fds])
      (use g i ok q fds cl sm(1) sample_link_ok in \<open>simp_all add: shot_input after_turn_sel FD_SETSIZE_def sample_link_sel fits_def\<close>)
  moreover have "move_counts 0 (sess ?sv 0)"
    unfolding sm(2) by (simp add: move_counts_def sample_session_def has_last_shot_def point_neq_iff)
  ultimately obtain sv' where "process_fd_actions inp fds ?sv = Inr sv'"
    "sv_sessions sv' = [after_move (Point 0 0) (sample_session PROCESS_TURN sample_field)]"
    unfolding sm(2,3) by (auto dest!: ok_withD simp: after_turn_sel)
  then show ?thesis by (intro exI [of _ inp] exI [of _ fds] exI [of _ sv']) (simp add: after_move_def)
qed

text \<open>The message that gives the turn, on its way from the server.\<close>

definition turn_for_player :: Server where
  "turn_for_player = (mk_server 100 (\<lambda>n. n) 100)\<lparr>sv_msg_num := 9,
     sv_clients := (\<lambda>_. None)(0 := Some (send_msg (Some (new_msg (StartTurnMsg 160 True))) (sample_player 4)))\<rparr>"

theorem messages_reach_player_witness:
  "\<exists>g ended calls written bg'. game_iteration g GameProcess.sample_game = Inr (ended, calls, written, bg')
    \<and> gi_mode (bg_interface bg') = OWN_TURN_MODE"
proof -
  let ?cl = "send_msg (Some (new_msg (StartTurnMsg 160 True))) (sample_player 4)"
  let ?sz = "\<lambda>fd. map (get_type_data_size \<circ> msg_type) (if fd = cs_server_fd sample_link then receipts_for [turn_msg] else [turn_msg])"
  define inp1 where "inp1 = link_reads 4 (server_sends (\<lambda>_. 22) 0 turn_for_player)"
  define inp2 where "inp2 = link_writes ?sz"
  define g where "g = turn_arrives\<lparr>gn_read := (\<lambda>_. Some (snd (client_sends inp1 inp2 sample_link)))\<rparr>"
  have cl: "sv_clients turn_for_player 0 = Some ?cl" "sv_msg_num turn_for_player = 9"
    by (simp_all add: turn_for_player_def)
  have q: "cd_to_send ?cl = [0]" "the (cd_heap ?cl 0) = new_msg (StartTurnMsg 160 True)" "cd_fd ?cl \<noteq> -1"
    "fresh_queue (cd_to_send ?cl) ?cl"
    by (simp_all add: send_msg_def sample_player_def mk_client_def fresh_queue_def mk_delivery_def dc_wf_def DEFAULT_RESEND_CNT_def)
  have ms: "[turn_msg] = number_msgs (sv_msg_num turn_for_player) (map (the \<circ> cd_heap ?cl) (cd_to_send ?cl))"
    by (simp add: cl turn_msg_def new_msg_def send_msg_def sample_player_def mk_client_def)
  have wr: "\<forall>i < length (cd_to_send ?cl). 22 = get_type_data_size (msg_type (the (cd_heap ?cl (cd_to_send ?cl ! i))))"
    by (simp add: q) (simp add: new_msg_def msg_type_def wire_simps)
  have shown: "[turn_msg] = filter (for_interface \<circ> msg_body) [turn_msg]" by (simp add: turn_msg_def)
  have wf: "wf_msg turn_msg" by (simp add: turn_msg_def wf_msg_def fits_def)
  have len: "length (concat (map get_data [turn_msg])) < 4096" using length_get_data_bounds [OF wf] by simp
  have i: "reads_from inp1 (cs_server_fd sample_link) (server_sends (\<lambda>_. 22) 0 turn_for_player)" "writes_all inp2 ?sz"
    by (simp_all add: inp1_def inp2_def link_reads link_writes sample_link_sel)
  have g: "gn_key g = ERR" "gn_result g \<noteq> -1" "gn_readable g 3" "gn_now g = 100"
    "gn_read g 4096 = Some (snd (client_sends inp1 inp2 sample_link))"
    by (simp_all add: g_def turn_arrives_def)
  have "ok_with (\<lambda>(ended, calls, written, bg'). bg_interface bg'
      = bg_interface (fst (game_msgs_loop (gn_now g) [turn_msg] GameProcess.sample_game))) (game_iteration g GameProcess.sample_game)"
    by (rule conjunct2 [OF messages_reach_player [OF cl(1) q(3,4) wr ms _ len shown _ _ _ i]])
      (use wf g sample_link_ok in \<open>simp_all add: sample_interface FD_SETSIZE_def, simp add: MsgBuffer_default_def\<close>)
  moreover have "gi_mode (bg_interface (fst (game_msgs_loop (gn_now g) [turn_msg] GameProcess.sample_game))) = OWN_TURN_MODE"
    by (simp add: g turn_msg_def game_process_msg_def process_start_turn_msg_def split_beta fst_and_then)
  ultimately show ?thesis by (fastforce dest!: ok_withD)
qed

end
