(* ===== verification/TurnMessages.thy ===== *)
theory TurnMessages
  imports EndToEnd
begin

text \<open>
  What the players are told about a turn: the messages the server queues for both players when the
  turn changes, and what the interface of the player who has shot shows after them.
\<close>

section \<open>Messages queued for the clients\<close>

text \<open>The client has got these messages behind the ones that wait already.\<close>

definition got :: "Message list \<Rightarrow> ClientData \<Rightarrow> ClientData \<Rightarrow> bool" where
  "got ms cl cl' \<longleftrightarrow> cd_next_msg cl' = cd_next_msg cl + length ms
     \<and> cd_to_send cl' = cd_to_send cl @ [cd_next_msg cl ..< cd_next_msg cl']
     \<and> map (cd_heap cl') [cd_next_msg cl ..< cd_next_msg cl'] = map Some ms
     \<and> (\<forall>a < cd_next_msg cl. cd_heap cl' a = cd_heap cl a)"

definition mails :: "(nat \<Rightarrow> Message list) \<Rightarrow> Server \<Rightarrow> Server \<Rightarrow> bool" where
  "mails f sv sv' \<longleftrightarrow> (\<forall>c. case sv_clients sv c of
       None \<Rightarrow> sv_clients sv' c = None
     | Some cl \<Rightarrow> (\<exists>cl'. sv_clients sv' c = Some cl' \<and> got (f c) cl cl'))"

lemma got_none [simp]: "got [] cl cl"
  by (simp add: got_def)

lemma got_send: "got [m] cl (send_msg (Some m) cl)"
  by (simp add: got_def send_msg_def)

lemma got_trans:
  assumes "got ms cl cl1" "got ns cl1 cl2"
  shows "got (ms @ ns) cl cl2"
proof -
  let ?a = "cd_next_msg cl" and ?b = "cd_next_msg cl1" and ?c = "cd_next_msg cl2"
  have ab: "?a \<le> ?b" "?b \<le> ?c" using assms by (simp_all add: got_def)
  then have u: "[?a ..< ?c] = [?a ..< ?b] @ [?b ..< ?c]" by (metis le_iff_add upt_add_eq_append)
  have "map (cd_heap cl2) [?a ..< ?b] = map (cd_heap cl1) [?a ..< ?b]" using assms(2) by (auto simp: got_def)
  also have "\<dots> = map Some ms" using assms(1) unfolding got_def by blast
  finally have h: "map (cd_heap cl2) [?a ..< ?c] = map Some (ms @ ns)"
    using assms(2) unfolding u map_append got_def by metis
  have "cd_to_send cl2 = cd_to_send cl @ [?a ..< ?c]" using assms unfolding u by (simp add: got_def)
  moreover have "\<forall>a < ?a. cd_heap cl2 a = cd_heap cl a" using assms ab by (simp add: got_def)
  moreover have "?c = ?a + length (ms @ ns)" using assms by (simp add: got_def)
  ultimately show ?thesis using h unfolding got_def by blast
qed

lemma mails_same: "sv_clients sv' = sv_clients sv \<Longrightarrow> mails (\<lambda>_. []) sv sv'"
  by (auto simp: mails_def split: option.split)

lemma mails_trans:
  assumes "mails f sv sv1" "mails g sv1 sv2"
  shows "mails (\<lambda>c. f c @ g c) sv sv2"
  unfolding mails_def
proof
  fix c
  show "case sv_clients sv c of None \<Rightarrow> sv_clients sv2 c = None
      | Some cl \<Rightarrow> \<exists>cl'. sv_clients sv2 c = Some cl' \<and> got (f c @ g c) cl cl'"
  proof (cases "sv_clients sv c")
    case None
    then have "sv_clients sv1 c = None" using assms(1) by (auto simp: mails_def dest!: spec [of _ c])
    then show ?thesis using None assms(2) by (auto simp: mails_def dest!: spec [of _ c])
  next
    case (Some cl)
    then obtain cl1 where c1: "sv_clients sv1 c = Some cl1" "got (f c) cl cl1"
      using assms(1) by (auto simp: mails_def dest!: spec [of _ c])
    then obtain cl2 where "sv_clients sv2 c = Some cl2" "got (g c) cl1 cl2"
      using assms(2) by (auto simp: mails_def dest!: spec [of _ c])
    then show ?thesis using Some got_trans [OF c1(2)] by auto
  qed
qed

lemma send_to_mails:
  assumes "send_to s i m sv = Inr sv'" "player_at (sess sv s) i = Inr (Some c)"
  shows "mails (\<lambda>d. if d = c then [m] else []) sv sv'"
proof -
  obtain cl where "sv_clients sv c = Some cl" "sv' = sv\<lparr>sv_clients := (sv_clients sv)(c := Some (send_msg (Some m) cl))\<rparr>"
    using assms by (auto simp: send_to_def on_client_def split: option.splits)
  then show ?thesis by (auto simp: mails_def got_send split: option.split)
qed

text \<open>Two messages, one for each player.\<close>

definition pair_mail :: "nat \<Rightarrow> nat \<Rightarrow> Message list \<Rightarrow> Message list \<Rightarrow> nat \<Rightarrow> Message list" where
  "pair_mail c d ms ns x = (if x = c then ms else if x = d then ns else [])"

lemma pair_mail_append: "(\<lambda>x. pair_mail c d ms ns x @ pair_mail c d ms' ns' x) = pair_mail c d (ms @ ms') (ns @ ns')"
  by (auto simp: pair_mail_def)

lemma pair_mail_swap: "c \<noteq> d \<Longrightarrow> pair_mail c d ms ns = pair_mail d c ns ms"
  by (auto simp: pair_mail_def)

lemma send_both_mails:
  assumes "send_to s i m sv = Inr sv1" "send_to s j n sv1 = Inr sv2"
    "player_at (sess sv s) i = Inr (Some c)" "player_at (sess sv s) j = Inr (Some d)" "c \<noteq> d"
  shows "mails (pair_mail c d [m] [n]) sv sv2"
proof -
  have "sess sv1 s = sess sv s" using send_to_sessions [OF assms(1)] by simp
  then have "mails (\<lambda>x. (if x = c then [m] else []) @ (if x = d then [n] else [])) sv sv2"
    using mails_trans [OF send_to_mails [OF assms(1,3)] send_to_mails [OF assms(2)]] assms(4) by simp
  moreover have "(\<lambda>x. (if x = c then [m] else []) @ (if x = d then [n] else [])) = pair_mail c d [m] [n]"
    using assms(5) by (auto simp: pair_mail_def)
  ultimately show ?thesis by simp
qed

lemma mails_start: "mails f sv1 sv' \<Longrightarrow> sv_clients sv1 = sv_clients sv \<Longrightarrow> mails f sv sv'"
  by (simp add: mails_def)

lemma mails_end: "mails f sv sv1 \<Longrightarrow> sv_clients sv' = sv_clients sv1 \<Longrightarrow> mails f sv sv'"
  by (simp add: mails_def cong: option.case_cong)

section \<open>The change of a turn\<close>

text \<open>What the player who has shot and the other one are told; \<open>f\<close> is the field after the shot.\<close>

definition shooter_mail :: "GameField \<Rightarrow> bool \<Rightarrow> int \<Rightarrow> Message list" where
  "shooter_mail f hit end_time = [new_msg (GameFieldMsg (get_for_enemy f) False),
     new_msg (if all_ships_destroyed f then GameStateMsg (GameState_code WIN_GAME) else StartTurnMsg end_time hit)]"

definition target_mail :: "GameField \<Rightarrow> bool \<Rightarrow> int \<Rightarrow> Message list" where
  "target_mail f hit end_time = [new_msg (GameFieldMsg f True),
     new_msg (if all_ships_destroyed f then GameStateMsg (GameState_code LOSE_GAME) else StartTurnMsg end_time (\<not> hit))]"

lemma send_fields_mails:
  assumes "send_fields s sv = Inr sv'" "field_at (sess sv s) (get_enemy_idx (gs_cur (sess sv s))) = Inr f"
    "player_at (sess sv s) (gs_cur (sess sv s)) = Inr (Some c)"
    "player_at (sess sv s) (get_enemy_idx (gs_cur (sess sv s))) = Inr (Some d)" "c \<noteq> d"
  shows "mails (pair_mail c d [new_msg (GameFieldMsg (get_for_enemy f) False)] [new_msg (GameFieldMsg f True)]) sv sv'"
proof -
  obtain sv1 where "send_to s (gs_cur (sess sv s)) (new_msg (GameFieldMsg (get_for_enemy f) False)) sv = Inr sv1"
    "send_to s (get_enemy_idx (gs_cur (sess sv s))) (new_msg (GameFieldMsg f True)) sv1 = Inr sv'"
    using assms(1,2) by (auto simp: send_fields_def Let_def rbind_Inr_iff)
  then show ?thesis by (rule send_both_mails) (use assms in simp_all)
qed

lemma game_result_mails:
  assumes "send_game_result s sv = Inr sv'"
    "player_at (sess sv s) (gs_cur (sess sv s)) = Inr (Some c)"
    "player_at (sess sv s) (get_enemy_idx (gs_cur (sess sv s))) = Inr (Some d)" "c \<noteq> d"
  shows "mails (pair_mail c d [new_msg (GameStateMsg (GameState_code WIN_GAME))]
      [new_msg (GameStateMsg (GameState_code LOSE_GAME))]) sv sv'"
proof -
  obtain sv1 where "send_to s (gs_cur (sess sv s)) (new_msg (GameStateMsg (GameState_code WIN_GAME))) sv = Inr sv1"
    "send_to s (get_enemy_idx (gs_cur (sess sv s))) (new_msg (GameStateMsg (GameState_code LOSE_GAME))) sv1 = Inr sv'"
    using assms(1) by (auto simp: send_game_result_def Let_def rbind_Inr_iff)
  then show ?thesis by (rule send_both_mails) (use assms in simp_all)
qed

lemma start_new_turn_mails:
  assumes "start_new_turn s sv = Inr sv'" "gs_state (sess sv s) = PROCESS_TURN" "s < length (sv_sessions sv)"
    "player_at (sess sv s) (gs_cur (sess sv s)) = Inr (Some c)"
    "player_at (sess sv s) (get_enemy_idx (gs_cur (sess sv s))) = Inr (Some d)" "c \<noteq> d"
  shows "mails (pair_mail c d [new_msg (StartTurnMsg (sv_clock sv + TURN_DURATION) True)]
      [new_msg (StartTurnMsg (sv_clock sv + TURN_DURATION) False)]) sv sv'"
proof -
  let ?sv1 = "mod_session s (\<lambda>gs. gs\<lparr>gs_state := GAME_TURN\<rparr>) sv"
  obtain sv2 sv3 where r: "send_to s (gs_cur (sess sv s)) (new_msg (StartTurnMsg (sv_clock sv + TURN_DURATION) True)) ?sv1 = Inr sv2"
    "send_to s (get_enemy_idx (gs_cur (sess sv s))) (new_msg (StartTurnMsg (sv_clock sv + TURN_DURATION) False)) sv2 = Inr sv3"
    "sv_clients sv' = sv_clients sv3"
    using assms(1-3) by (auto simp: start_new_turn_def Let_def rbind_Inr_iff add_timeout_handler_def)
  have "mails (pair_mail c d [new_msg (StartTurnMsg (sv_clock sv + TURN_DURATION) True)]
      [new_msg (StartTurnMsg (sv_clock sv + TURN_DURATION) False)]) ?sv1 sv3"
    by (rule send_both_mails [OF r(1,2)]) (use assms(3-6) in \<open>auto simp: player_at_def split: if_splits\<close>)
  from mails_end [OF mails_start [OF this] r(3)] show ?thesis by simp
qed

lemma on_client_clock: "on_client p f sv = Inr sv' \<Longrightarrow> sv_clock sv' = sv_clock sv"
  by (cases p; cases "sv_clients sv (the p)") (auto simp: on_client_def)

lemma send_to_clock: "send_to s i m sv = Inr sv' \<Longrightarrow> sv_clock sv' = sv_clock sv"
  using on_client_clock [of _ "send_msg (Some m)" sv sv'] unfolding send_to_def rbind_Inr_iff by blast

lemma register_last_shot_frame:
  "register_last_shot s sv = Inr (r, sv') \<Longrightarrow> sv_clients sv' = sv_clients sv \<and> sv_clock sv' = sv_clock sv"
  unfolding register_last_shot_def Let_def
  by (auto simp: rbind_Inr_iff rand_below_def mod_session_def split: if_splits prod.splits dest!: shot_loop_rand)

lemma change_turn_mails:
  assumes s: "s < length (sv_sessions sv)" and ok: "session_ok (sess sv s)" and st: "gs_state (sess sv s) = PROCESS_TURN"
    and cp: "player_at (sess sv s) (gs_cur (sess sv s)) = Inr (Some c)"
      "player_at (sess sv s) (get_enemy_idx (gs_cur (sess sv s))) = Inr (Some d)" "c \<noteq> d"
    and p: "shot_at (sv_bound sv) (sv_rand sv) (sv_rand_pos sv) (sess sv s) = Some p"
    and r: "change_turn_player s sv = Inr sv'"
    and f': "f' = snd (register_shot (enemy_field (sess sv s)) p)"
    and hit: "hit = (get_state (enemy_field (sess sv s)) p = CELL_UNHARMED)"
  shows "mails (pair_mail c d (shooter_mail f' hit (sv_clock sv + TURN_DURATION))
      (target_mail f' hit (sv_clock sv + TURN_DURATION))) sv sv'"
proof -
  let ?gs = "sess sv s" and ?t = "sv_clock sv + TURN_DURATION"
  let ?gs1 = "after_shot p ?gs"
  obtain q sv1 where r1: "register_last_shot s sv = Inr (q, sv1)" "rest_of_turn s q sv1 = Inr sv'"
    using r change_turn_player_rest [OF st] by (auto simp: rbind_Inr_iff)
  have q: "q = fst (register_shot (enemy_field ?gs) p)" and s1: "sv_sessions sv1 = (sv_sessions sv)[s := ?gs1]"
    using register_last_shot_sessions [OF ok] r1(1) p by auto
  then have q_hit: "q = CELL_DAMAGED \<longleftrightarrow> hit" by (simp add: shot_damaged_iff hit)
  note fr = register_last_shot_frame [OF r1(1)]
  have g1: "sess sv1 s = ?gs1" using s1 s by simp
  have cp1: "player_at ?gs1 i = player_at ?gs i" for i by (simp add: player_at_def)
  have "0 \<le> get_enemy_idx (gs_cur ?gs)" "get_enemy_idx (gs_cur ?gs) < PLAYERS_COUNT"
    using cp(2) by (auto simp: player_at_def split: if_splits)
  then have field: "field_at (sess sv1 s) (get_enemy_idx (gs_cur (sess sv1 s))) = Inr f'"
    using enemy_field_after [OF ok, of p] by (simp add: g1 field_at_def f') (simp add: enemy_field_def)
  obtain sv2 where r2: "send_fields s sv1 = Inr sv2" using r1(2) by (auto simp: rest_of_turn_def rbind_Inr_iff)
  have m2: "mails (pair_mail c d [new_msg (GameFieldMsg (get_for_enemy f') False)] [new_msg (GameFieldMsg f' True)]) sv1 sv2"
    by (rule send_fields_mails [OF r2 field]) (use cp in \<open>simp_all add: g1 cp1\<close>)
  have s2: "sv_sessions sv2 = (sv_sessions sv)[s := ?gs1]" using send_fields_sessions [OF r2] s1 by simp
  then have g2: "sess sv2 s = ?gs1" "s < length (sv_sessions sv2)" using s by simp_all
  have k2: "sv_clock sv2 = sv_clock sv"
    using r2 fr by (auto simp: send_fields_def Let_def rbind_Inr_iff dest!: send_to_clock)
  have over: "is_game_over (sess sv2 s) = Inr (all_ships_destroyed f')"
    using is_game_over_after [OF ok, of p] by (simp add: g2(1) f')
  have "mails (pair_mail c d (tl (shooter_mail f' hit ?t)) (tl (target_mail f' hit ?t))) sv2 sv'"
  proof (cases "all_ships_destroyed f'")
    case True
    then obtain sv3 where r3: "send_game_result s sv2 = Inr sv3" "sv_clients sv' = sv_clients sv3"
      using r1(2) r2 over by (auto simp: rest_of_turn_def rbind_Inr_iff)
    have "mails (pair_mail c d [new_msg (GameStateMsg (GameState_code WIN_GAME))]
        [new_msg (GameStateMsg (GameState_code LOSE_GAME))]) sv2 sv3"
      by (rule game_result_mails [OF r3(1)]) (use cp in \<open>simp_all add: g2 cp1\<close>)
    then show ?thesis using True mails_end [OF _ r3(2)] by (simp add: shooter_mail_def target_mail_def)
  next
    case False
    then have r3: "start_new_turn s (if q \<noteq> CELL_DAMAGED then mod_session s change_cur_turn_player_idx sv2 else sv2) = Inr sv'"
      using r1(2) r2 over by (simp add: rest_of_turn_def)
    show ?thesis
    proof (cases hit)
      case True
      then have n: "start_new_turn s sv2 = Inr sv'" using r3 q_hit by simp
      have "mails (pair_mail c d [new_msg (StartTurnMsg (sv_clock sv2 + TURN_DURATION) True)]
          [new_msg (StartTurnMsg (sv_clock sv2 + TURN_DURATION) False)]) sv2 sv'"
        by (rule start_new_turn_mails [OF n]) (use cp st g2 in \<open>simp_all add: cp1\<close>)
      then show ?thesis using True False k2 by (simp add: shooter_mail_def target_mail_def)
    next
      case miss: False
      let ?sv3 = "mod_session s change_cur_turn_player_idx sv2"
      have n: "start_new_turn s ?sv3 = Inr sv'" using r3 q_hit miss by simp
      have g3: "sess ?sv3 s = change_cur_turn_player_idx ?gs1" using g2 by simp
      have cur: "gs_cur ?gs = 0 \<or> gs_cur ?gs = 1" using ok by (simp add: session_ok_def)
      then have twice: "get_enemy_idx (get_enemy_idx (gs_cur ?gs)) = gs_cur ?gs"
        by (auto simp: get_enemy_idx_def FIRST_PLAYER_def SECOND_PLAYER_def)
      have cp3: "player_at (change_cur_turn_player_idx ?gs1) i = player_at ?gs i" for i
        by (simp add: player_at_def change_cur_turn_player_idx_def)
      have st3: "gs_state (change_cur_turn_player_idx ?gs1) = PROCESS_TURN" "gs_cur (change_cur_turn_player_idx ?gs1) = get_enemy_idx (gs_cur ?gs)"
        using st by (simp_all add: change_cur_turn_player_idx_def)
      have "mails (pair_mail d c [new_msg (StartTurnMsg (sv_clock ?sv3 + TURN_DURATION) True)]
          [new_msg (StartTurnMsg (sv_clock ?sv3 + TURN_DURATION) False)]) ?sv3 sv'"
        by (rule start_new_turn_mails [OF n]) (use cp g2 in \<open>simp_all only: g3 cp3 st3 twice mod_session_simps not_sym\<close>)
      from mails_start [OF this, of sv2] show ?thesis
        using miss False k2 cp(3) by (simp add: shooter_mail_def target_mail_def pair_mail_swap [of d c])
    qed
  qed
  from mails_trans [OF m2 this] have "mails (pair_mail c d (shooter_mail f' hit ?t) (target_mail f' hit ?t)) sv1 sv'"
    unfolding pair_mail_append by (simp add: shooter_mail_def target_mail_def)
  then show ?thesis by (rule mails_start) (use fr in simp)
qed

section \<open>What the interfaces show\<close>

text \<open>The interface handles a field and the news that follow it; numbers of messages play no part.\<close>

lemma field_handled:
  assumes "map msg_body ms = [GameFieldMsg f own, b]"
  shows "bg_interface (fst (game_msgs_loop now ms bg)) = bg_interface (fst (game_process_msg now (new_msg b)
    (mk_game ((if own then set_own_field f else set_enemy_field f) (bg_interface bg)))))"
proof -
  obtain m n where ms: "ms = [m, n]" "msg_body m = GameFieldMsg f own" "msg_body n = b"
    using assms by (auto simp: map_eq_Cons_conv)
  have n: "game_process_msg now n bg' = game_process_msg now (new_msg b) bg'" for bg'
    by (simp add: game_process_msg_def ms(3) new_msg_def)
  show ?thesis
    using handled_one [of now "new_msg b" "(fst (game_process_msg now m (bg\<lparr>bg_from_server := [n]\<rparr>)))\<lparr>bg_from_server := []\<rparr>"]
    by (simp add: ms(1) n split_beta) (simp add: game_process_msg_def ms(2) process_field_msg_def on_interface_def)
qed

lemma interface_fields [simp]:
  "gi_own_field (fst (activate_own_turn_mode now t ni)) = gi_own_field ni"
  "gi_own_field (fst (activate_enemy_turn_mode now t ni)) = gi_own_field ni"
  "gi_enemy_field (fst (activate_enemy_turn_mode now t ni)) = gi_enemy_field ni"
  "gi_mode (fst (activate_own_turn_mode now t ni)) = OWN_TURN_MODE"
  "gi_mode (fst (activate_enemy_turn_mode now t ni)) = ENEMY_TURN_MODE"
  by (simp_all add: activate_own_turn_mode_def activate_enemy_turn_mode_def split_beta start_timer_until_def set_mode_def Let_def)

lemma interface_state [simp]:
  "gi_own_field (fst (interface_set_state st ni)) = gi_own_field ni" "gi_mode (fst (interface_set_state st ni)) = gi_mode ni"
  "gi_state (fst (interface_set_state st ni)) = st"
  by (simp_all add: interface_set_state_def Let_def)

text \<open>What a player sees: the two fields, and whose turn it is or how the game has ended.\<close>

definition sees :: "GameField \<Rightarrow> GameField \<Rightarrow> bool \<Rightarrow> bool \<Rightarrow> bool \<Rightarrow> NcursesInterface \<Rightarrow> bool" where
  "sees own enemy over won mine ni \<longleftrightarrow> gi_own_field ni = own \<and> gi_enemy_field ni = enemy
     \<and> gi_state ni = GameState_code (if over then if won then WIN_GAME else LOSE_GAME else if mine then OWN_TURN else ENEMY_TURN)
     \<and> (\<not> over \<longrightarrow> gi_mode ni = (if mine then OWN_TURN_MODE else ENEMY_TURN_MODE))"

lemmas news_handled = game_process_msg_def process_start_turn_msg_def process_game_state_msg_def new_msg_def
  on_interface_def split_beta fst_and_then sees_def set_own_field_def set_enemy_field_def mk_game_def

lemma shooter_sees:
  assumes "map msg_body ms = map msg_body (shooter_mail f hit t)"
  shows "sees (gi_own_field (bg_interface bg)) (get_for_enemy f) (all_ships_destroyed f) True hit
    (bg_interface (fst (game_msgs_loop now ms bg)))"
proof -
  have "map msg_body ms = [GameFieldMsg (get_for_enemy f) False, if all_ships_destroyed f then GameStateMsg (GameState_code WIN_GAME) else StartTurnMsg t hit]"
    using assms by (simp add: shooter_mail_def new_msg_def)
  from field_handled [OF this] show ?thesis by (cases "all_ships_destroyed f"; cases hit) (simp_all add: news_handled)
qed

lemma target_sees:
  assumes "map msg_body ms = map msg_body (target_mail f hit t)"
  shows "sees f (gi_enemy_field (bg_interface bg)) (all_ships_destroyed f) False (\<not> hit)
    (bg_interface (fst (game_msgs_loop now ms bg)))"
proof -
  have "map msg_body ms = [GameFieldMsg f True, if all_ships_destroyed f then GameStateMsg (GameState_code LOSE_GAME) else StartTurnMsg t (\<not> hit)]"
    using assms by (simp add: target_mail_def new_msg_def)
  from field_handled [OF this] show ?thesis by (cases "all_ships_destroyed f"; cases hit) (simp_all add: news_handled)
qed

lemma two_players:
  assumes "session_ok gs" "gs_players gs ! nat (gs_cur gs) = Some c" "gs_players gs ! nat (get_enemy_idx (gs_cur gs)) = Some d"
  shows "player_at gs (gs_cur gs) = Inr (Some c)" "player_at gs (get_enemy_idx (gs_cur gs)) = Inr (Some d)" "c \<noteq> d"
  using assms by (auto simp: session_ok_def player_at_def get_enemy_idx_def FIRST_PLAYER_def SECOND_PLAYER_def PLAYERS_COUNT_def)

lemma turn_change_result:
  assumes "server_inv sv" "s < length (sv_sessions sv)" "gs_state (sess sv s) = PROCESS_TURN"
    "shot_at (sv_bound sv) (sv_rand sv) (sv_rand_pos sv) (sess sv s) = Some p"
  shows "\<exists>sv'. change_turn_player s sv = Inr sv'"
proof -
  have w: "winv {} {} sv" using assms(1) by (simp add: server_inv_winv)
  then obtain r sv1 where "register_last_shot s sv = Inr (r, sv1)"
    using register_last_shot_sessions [OF inv_session [OF w assms(2)]] assms(4) by auto
  from ok_withD [OF change_turn_ends [OF w assms(2,3) this]] show ?thesis by blast
qed

text \<open>
  C4. Both players are told about a turn. When the shot \<open>p\<close> of the player \<open>c\<close> at the field of \<open>d\<close> is
  registered, the server queues for each of them exactly two messages behind those that wait, and for
  no other client any: \<open>c\<close> gets the field of \<open>d\<close> as an enemy may see it and \<open>d\<close> the field itself, both
  after the shot, and then the result of the game, or whose turn it is, with the time it ends. When
  the interface handles these messages, whatever their numbers, it shows these fields, and the result
  or the turn; the one who has hit may shoot again, the other one after a miss.
\<close>

theorem turn_is_announced:
  assumes "server_inv sv" "s < length (sv_sessions sv)" "gs_state (sess sv s) = PROCESS_TURN"
    and "gs_players (sess sv s) ! nat (gs_cur (sess sv s)) = Some c"
    and "gs_players (sess sv s) ! nat (get_enemy_idx (gs_cur (sess sv s))) = Some d"
    and "shot_at (sv_bound sv) (sv_rand sv) (sv_rand_pos sv) (sess sv s) = Some p"
    and "f = snd (register_shot (enemy_field (sess sv s)) p)"
    and "hit = (get_state (enemy_field (sess sv s)) p = CELL_UNHARMED)"
    and "t = sv_clock sv + TURN_DURATION"
    and "map msg_body ms = map msg_body (shooter_mail f hit t)"
    and "map msg_body ns = map msg_body (target_mail f hit t)"
  shows "ok_with (mails (pair_mail c d (shooter_mail f hit t) (target_mail f hit t)) sv) (change_turn_player s sv)
    \<and> sees (gi_own_field (bg_interface bg)) (get_for_enemy f) (all_ships_destroyed f) True hit
        (bg_interface (fst (game_msgs_loop now ms bg)))
    \<and> sees f (gi_enemy_field (bg_interface bg')) (all_ships_destroyed f) False (\<not> hit)
        (bg_interface (fst (game_msgs_loop now ns bg')))"
proof -
  have so: "session_ok (sess sv s)" using assms(1,2) by (simp add: server_inv_winv inv_session)
  obtain sv' where "change_turn_player s sv = Inr sv'" using turn_change_result [OF assms(1-3,6)] by blast
  moreover from change_turn_mails [OF assms(2) so assms(3) two_players [OF so assms(4,5)] assms(6) this assms(7,8)]
  have "mails (pair_mail c d (shooter_mail f hit t) (target_mail f hit t)) sv sv'" unfolding assms(9) .
  ultimately show ?thesis using shooter_sees [OF assms(10)] target_sees [OF assms(11)] by simp
qed

theorem turn_is_announced_witness:
  "\<exists>sv'. change_turn_player 0 (ServerProps.sample_game PROCESS_TURN sample_field) = Inr sv'
    \<and> mails (pair_mail 0 1 (shooter_mail (snd (register_shot sample_field (Point 0 1))) False 15)
        (target_mail (snd (register_shot sample_field (Point 0 1))) False 15))
      (ServerProps.sample_game PROCESS_TURN sample_field) sv'"
proof -
  let ?sv = "ServerProps.sample_game PROCESS_TURN sample_field"
  have i: "server_inv ?sv"
    unfolding server_inv_winv by (rule sample_game_inv) (simp_all add: playing_def)
  have sm: "sess ?sv 0 = sample_session PROCESS_TURN sample_field" "0 < length (sv_sessions ?sv)"
    "gs_state (sample_session PROCESS_TURN sample_field) = PROCESS_TURN"
    "gs_players (sample_session PROCESS_TURN sample_field) ! nat (gs_cur (sample_session PROCESS_TURN sample_field)) = Some 0"
    "gs_players (sample_session PROCESS_TURN sample_field) ! nat (get_enemy_idx (gs_cur (sample_session PROCESS_TURN sample_field))) = Some 1"
    "enemy_field (sample_session PROCESS_TURN sample_field) = sample_field"
    by (simp_all add: ServerProps.sample_game_def sample_session_def get_enemy_idx_def enemy_field_def FIRST_PLAYER_def SECOND_PLAYER_def)
  have "shot_at 100 (\<lambda>n. n) 0 (sample_session PROCESS_TURN sample_field) = Some (Point 0 1)" by code_simp
  then have p: "shot_at (sv_bound ?sv) (sv_rand ?sv) (sv_rand_pos ?sv) (sess ?sv 0) = Some (Point 0 1)"
    unfolding sm(1) by (simp add: ServerProps.sample_game_def mk_server_def)
  have hit: "False = (get_state sample_field (Point 0 1) = CELL_UNHARMED)" by code_simp
  have t: "15 = sv_clock ?sv + TURN_DURATION" by (simp add: ServerProps.sample_game_def mk_server_def TURN_DURATION_def)
  show ?thesis
    using turn_is_announced [OF i sm(2) _ _ _ p _ _ t refl refl, of 0 1, unfolded sm(1,6), OF sm(3-5) refl hit]
    by (auto dest!: ok_withD)
qed

end
