(* ===== verification/PlayerScreens.thy ===== *)
theory PlayerScreens
  imports TurnMessages
begin

text \<open>
  The screen of a player follows the session on the server: the field of the enemy it shows is the view
  of the field the server keeps, from the messages at the start of the game on and through all
  turns. So a shot the player makes is one the server takes.
\<close>

section \<open>What a client has got\<close>

definition new_mail :: "nat \<Rightarrow> Server \<Rightarrow> Server \<Rightarrow> Message list" where
  "new_mail c sv sv' =
     (case (sv_clients sv c, sv_clients sv' c) of
        (Some cl, Some cl') \<Rightarrow> map (\<lambda>a. the (cd_heap cl' a)) [cd_next_msg cl ..< cd_next_msg cl']
      | _ \<Rightarrow> [])"

lemma new_mail_mails:
  assumes "mails f sv sv'" "sv_clients sv c \<noteq> None"
  shows "new_mail c sv sv' = f c"
proof -
  obtain cl cl' where cl: "sv_clients sv c = Some cl" "sv_clients sv' c = Some cl'" "got (f c) cl cl'"
    using assms by (auto simp: mails_def dest!: spec [of _ c])
  then have "map (cd_heap cl') [cd_next_msg cl ..< cd_next_msg cl'] = map Some (f c)" unfolding got_def by blast
  then have "map (the \<circ> cd_heap cl') [cd_next_msg cl ..< cd_next_msg cl'] = f c"
    by (metis (no_types, lifting) comp_the_Some list.map_comp list.map_id)
  then show ?thesis using cl by (simp add: new_mail_def comp_def)
qed

lemma start_fields_mails:
  assumes "send_start_fields s sv = Inr sv'" "gs_state (sess sv s) = WAIT_START"
    and "gs_players (sess sv s) = [Some a, Some b]" "gs_fields (sess sv s) = [f, g]" "a \<noteq> b"
  shows "mails (pair_mail a b [new_msg (GameFieldMsg f True), new_msg (GameFieldMsg (get_for_enemy g) False)]
    [new_msg (GameFieldMsg g True), new_msg (GameFieldMsg (get_for_enemy f) False)]) sv sv'"
proof -
  have at: "player_at gs 0 = Inr (Some a)" "player_at gs 1 = Inr (Some b)" "field_at gs 0 = Inr f" "field_at gs 1 = Inr g"
    if "gs = sess sv s" for gs
    using assms(3,4) that by (simp_all add: player_at_def field_at_def PLAYERS_COUNT_def)
  have idx: "get_enemy_idx 0 = 1" "get_enemy_idx 1 = 0" by (simp_all add: get_enemy_idx_def FIRST_PLAYER_def SECOND_PLAYER_def)
  obtain sv1 sv2 sv3 where r: "send_to s 0 (new_msg (GameFieldMsg f True)) sv = Inr sv1"
    "send_to s 0 (new_msg (GameFieldMsg (get_for_enemy g) False)) sv1 = Inr sv2"
    "send_to s 1 (new_msg (GameFieldMsg g True)) sv2 = Inr sv3"
    "send_to s 1 (new_msg (GameFieldMsg (get_for_enemy f) False)) sv3 = Inr sv'"
  proof -
    obtain sv1 sv2 where r1: "send_to s 0 (new_msg (GameFieldMsg f True)) sv = Inr sv1"
        "send_to s 0 (new_msg (GameFieldMsg (get_for_enemy g) False)) sv1 = Inr sv2"
      and r2: "rbind (field_at (sess sv2 s) 1) (\<lambda>own_field. rbind (field_at (sess sv2 s) 0) (\<lambda>f.
          rbind (send_to s 1 (new_msg (GameFieldMsg own_field True)) sv2) (\<lambda>sv1.
          send_to s 1 (new_msg (GameFieldMsg (get_for_enemy f) False)) sv1))) = Inr sv'"
      using assms(1,2) at [OF refl] by (auto simp: send_start_fields_def rbind_Inr_iff idx)
    have "sess sv2 s = sess sv s" using send_to_sessions [OF r1(1)] send_to_sessions [OF r1(2)] by simp
    then show thesis using r1 r2 at [OF refl] that by (auto simp: rbind_Inr_iff)
  qed
  have ss: "sess sv1 s = sess sv s" "sess sv2 s = sess sv s" "sess sv3 s = sess sv s"
    using r(1-3) [THEN send_to_sessions] by simp_all
  note m = mails_trans [OF mails_trans [OF mails_trans [OF send_to_mails [OF r(1), of a] send_to_mails [OF r(2), of a]]
    send_to_mails [OF r(3), of b]] send_to_mails [OF r(4), of b]]
  have "mails (\<lambda>x. (((if x = a then [new_msg (GameFieldMsg f True)] else []) @
      (if x = a then [new_msg (GameFieldMsg (get_for_enemy g) False)] else [])) @
      (if x = b then [new_msg (GameFieldMsg g True)] else [])) @
      (if x = b then [new_msg (GameFieldMsg (get_for_enemy f) False)] else [])) sv sv'"
    by (rule m) (use at ss in simp_all)
  moreover have "(\<lambda>x. (((if x = a then [new_msg (GameFieldMsg f True)] else []) @
      (if x = a then [new_msg (GameFieldMsg (get_for_enemy g) False)] else [])) @
      (if x = b then [new_msg (GameFieldMsg g True)] else [])) @
      (if x = b then [new_msg (GameFieldMsg (get_for_enemy f) False)] else []))
    = pair_mail a b [new_msg (GameFieldMsg f True), new_msg (GameFieldMsg (get_for_enemy g) False)]
      [new_msg (GameFieldMsg g True), new_msg (GameFieldMsg (get_for_enemy f) False)]"
    using assms(5) by (auto simp: pair_mail_def)
  ultimately show ?thesis by simp
qed

section \<open>The screen and the session\<close>

text \<open>The field of the player who plays against \<open>c\<close>.\<close>

definition opponent_idx :: "GameSession \<Rightarrow> nat \<Rightarrow> nat" where
  "opponent_idx gs c = (if gs_players gs ! 0 = Some c then 1 else 0)"

definition opponent_field :: "GameSession \<Rightarrow> nat \<Rightarrow> GameField" where
  "opponent_field gs c = gs_fields gs ! opponent_idx gs c"

text \<open>
  \<open>follows s c sv ni\<close>: the interface \<open>ni\<close> of the client \<open>c\<close> has handled what the server has sent for the
  session \<open>s\<close> so far. It does so when it has handled the fields at the start, and goes on to do so when
  it handles the messages of a change of the turn, or any other message but a field of the enemy,
  when keys are pressed and what they ask for is done, and when the server does anything that
  leaves the players and the fields of the session alone.
\<close>

inductive follows :: "nat \<Rightarrow> nat \<Rightarrow> Server \<Rightarrow> NcursesInterface \<Rightarrow> bool" for s c where
  start: "server_inv sv \<Longrightarrow> has_session sv c (Some s) \<Longrightarrow> gs_state (sess sv s) = WAIT_START \<Longrightarrow>
    send_start_fields s sv = Inr sv' \<Longrightarrow> map msg_body ms = map msg_body (new_mail c sv sv') \<Longrightarrow>
    follows s c sv' (bg_interface (fst (game_msgs_loop now ms bg)))"
| turn: "follows s c sv (bg_interface bg) \<Longrightarrow> server_inv sv \<Longrightarrow> has_session sv c (Some s) \<Longrightarrow>
    change_turn_player s sv = Inr sv' \<Longrightarrow> map msg_body ms = map msg_body (new_mail c sv sv') \<Longrightarrow>
    follows s c sv' (bg_interface (fst (game_msgs_loop now ms bg)))"
| message: "follows s c sv (bg_interface bg) \<Longrightarrow> (\<And>f. msg_body m \<noteq> GameFieldMsg f False) \<Longrightarrow>
    follows s c sv (bg_interface (fst (game_process_msg now m bg)))"
| key: "follows s c sv ni \<Longrightarrow> process_input k ni = (r, ni', out) \<Longrightarrow> follows s c sv ni'"
| request: "follows s c sv (bg_interface bg) \<Longrightarrow> follows s c sv (bg_interface (fst (dispatch_input r bg)))"
| server: "follows s c sv ni \<Longrightarrow> gs_players (sess sv' s) = gs_players (sess sv s) \<Longrightarrow>
    gs_fields (sess sv' s) = gs_fields (sess sv s) \<Longrightarrow> follows s c sv' ni"

text \<open>The interface keeps the field of the enemy.\<close>

lemma input_enemy_field:
  assumes "process_input k ni = (r, ni', out)"
  shows "gi_enemy_field ni' = gi_enemy_field ni"
  using assms
  by (auto simp: process_input_def process_move_input_def process_enter_input_def gi_set_last_shot_def Let_def
    split: if_splits prod.splits)

lemma dispatch_enemy_field: "gi_enemy_field (bg_interface (fst (dispatch_input r bg))) = gi_enemy_field (bg_interface bg)"
  by (cases r) (simp_all add: dispatch_input_def req_server_conn_status_def req_server_conn_def req_game_session_def
    put_to_server_def send_shot_pos_def split_beta stop_own_turn_mode_def set_mode_def)

lemma message_enemy_field:
  assumes "\<And>f. msg_body m \<noteq> GameFieldMsg f False"
  shows "gi_enemy_field (bg_interface (fst (game_process_msg now m bg))) = gi_enemy_field (bg_interface bg)"
  using assms
  by (cases "msg_body m")
    (auto simp: game_process_msg_def process_game_state_msg_def process_field_msg_def process_server_conn_status_msg_def
      process_start_field_req_msg_def process_stop_preparation_msg_def process_start_turn_msg_def
      process_stop_turn_msg_def on_interface_def put_to_server_def split_beta Let_def fst_and_then set_own_field_def
      set_server_conn_state_def activate_preparation_mode_def stop_preparation_mode_def stop_own_turn_mode_def
      stop_enemy_turn_mode_def set_mode_def start_timer_until_def move_cursor_to_own_field_def
      gi_set_last_shot_def)

text \<open>The opponent of a player, whoever has the turn.\<close>

lemma opponent_cases:
  assumes "session_ok gs" "c \<in> players_of gs"
  obtains (current) "gs_players gs ! nat (gs_cur gs) = Some c" "opponent_idx gs c = nat (get_enemy_idx (gs_cur gs))"
  | (waiting) "gs_players gs ! nat (get_enemy_idx (gs_cur gs)) = Some c"
      "opponent_idx gs c = nat (gs_cur gs)" "nat (gs_cur gs) \<noteq> nat (get_enemy_idx (gs_cur gs))"
proof -
  obtain x y where xy: "gs_players gs = [x, y]" "x = y \<longrightarrow> x = None" and cur: "gs_cur gs = 0 \<or> gs_cur gs = 1"
    using assms(1) unfolding session_ok_def by blast
  have c: "Some c = x \<or> Some c = y" using assms(2) xy(1) by (auto simp: players_of_def)
  have idx: "get_enemy_idx 0 = 1" "get_enemy_idx 1 = 0" by (simp_all add: get_enemy_idx_def FIRST_PLAYER_def SECOND_PLAYER_def)
  show thesis
    using cur c xy current waiting by (auto simp: opponent_idx_def idx)
qed

lemma two_present:
  assumes "session_ok gs" "gs_state gs = WAIT_START \<or> gs_state gs = PROCESS_TURN"
  obtains a b where "gs_players gs = [Some a, Some b]" "a \<noteq> b"
proof -
  obtain x y where xy: "gs_players gs = [x, y]" "x = y \<longrightarrow> x = None"
    using assms(1) unfolding session_ok_def by blast
  have "get_players_count gs \<noteq> 0" "get_players_count gs \<noteq> 1"
    using assms by (auto simp: session_ok_def state_ok_def)
  then have "x \<noteq> None" "y \<noteq> None" using xy by (auto split: if_splits)
  then show thesis using that xy by auto
qed

lemma client_in_session:
  assumes "server_inv sv" "has_session sv c (Some s)"
  shows "s < length (sv_sessions sv)" "session_ok (sess sv s)" "c \<in> players_of (sess sv s)" "sv_clients sv c \<noteq> None"
proof -
  show "s < length (sv_sessions sv)" by (rule session_valid [OF assms])
  then show "session_ok (sess sv s)" using assms(1) by (simp add: server_inv_winv inv_session)
  show "c \<in> players_of (sess sv s)"
    using assms by (auto simp: server_inv_winv winv_def core_inv_def links_ok_def has_session_def)
  show "sv_clients sv c \<noteq> None" by (rule has_session_alive [OF assms(2)])
qed

text \<open>The start of the game.\<close>

lemma start_view:
  assumes "server_inv sv" "has_session sv c (Some s)" "gs_state (sess sv s) = WAIT_START"
    "send_start_fields s sv = Inr sv'" "map msg_body ms = map msg_body (new_mail c sv sv')"
  shows "gi_enemy_field (bg_interface (fst (game_msgs_loop now ms bg))) = get_for_enemy (opponent_field (sess sv' s) c)"
proof -
  note i = client_in_session [OF assms(1,2)]
  obtain a b where ab: "gs_players (sess sv s) = [Some a, Some b]" "a \<noteq> b" using two_present [OF i(2)] assms(3) by blast
  obtain f g where fg: "gs_fields (sess sv s) = [f, g]" using i(2) by (auto simp: session_ok_def)
  note m = new_mail_mails [OF start_fields_mails [OF assms(4,3) ab(1) fg ab(2)] i(4)]
  have same: "sess sv' s = sess sv s" using start_fields_sessions [OF assms(4)] by simp
  obtain own where "map msg_body ms = [GameFieldMsg own True, GameFieldMsg (get_for_enemy (opponent_field (sess sv s) c)) False]"
    using assms(5) i(3) ab fg by (auto simp: m pair_mail_def new_msg_def players_of_def opponent_field_def opponent_idx_def)
  from field_handled [OF this] show ?thesis
    by (simp add: same game_process_msg_def new_msg_def process_field_msg_def on_interface_def mk_game_def set_enemy_field_def)
qed

text \<open>A change of the turn.\<close>

lemma turn_view:
  assumes "server_inv sv" "has_session sv c (Some s)" "change_turn_player s sv = Inr sv'"
    "map msg_body ms = map msg_body (new_mail c sv sv')"
    "gi_enemy_field (bg_interface bg) = get_for_enemy (opponent_field (sess sv s) c)"
  shows "gi_enemy_field (bg_interface (fst (game_msgs_loop now ms bg))) = get_for_enemy (opponent_field (sess sv' s) c)"
proof (cases "gs_state (sess sv s) = PROCESS_TURN")
  case False
  then have "sv' = sv" using assms(3) by (simp add: change_turn_player_def)
  moreover from this have "ms = []" using assms(4) by (auto simp: new_mail_def split: option.splits)
  ultimately show ?thesis using assms(5) by simp
next
  case True
  let ?gs = "sess sv s"
  note i = client_in_session [OF assms(1,2)]
  obtain p a where p: "shot_at (sv_bound sv) (sv_rand sv) (sv_rand_pos sv) ?gs = Some p"
    "sv_sessions sv' = (sv_sessions sv)[s := turn_result p ?gs a]"
    using change_turn_sessions [OF i(1,2) True assms(3)] by blast
  define f where "f = snd (register_shot (enemy_field ?gs) p)"
  define hit where "hit = (get_state (enemy_field ?gs) p = CELL_UNHARMED)"
  define t where "t = sv_clock sv + TURN_DURATION"
  obtain x y where xy: "gs_players ?gs ! nat (gs_cur ?gs) = Some x"
    "gs_players ?gs ! nat (get_enemy_idx (gs_cur ?gs)) = Some y"
  proof -
    obtain a b where ab: "gs_players ?gs = [Some a, Some b]" using two_present [OF i(2)] True by blast
    have "gs_cur ?gs = 0 \<or> gs_cur ?gs = 1" using i(2) by (simp add: session_ok_def)
    then show thesis using that ab by (auto simp: get_enemy_idx_def FIRST_PLAYER_def SECOND_PLAYER_def)
  qed
  note m = new_mail_mails [OF change_turn_mails [OF i(1,2) True two_players [OF i(2) xy] p(1) assms(3) f_def hit_def] i(4)]
  have s': "gs_players (sess sv' s) = gs_players ?gs" "gs_fields (sess sv' s) = (gs_fields ?gs)[nat (get_enemy_idx (gs_cur ?gs)) := f]"
    using p(2) i(1) by (simp_all add: turn_result_def after_shot_def clear_last_shot_def f_def Let_def)
  have len: "length (gs_fields ?gs) = 2" "gs_cur ?gs = 0 \<or> gs_cur ?gs = 1" using i(2) by (auto simp: session_ok_def)
  show ?thesis
    using i(2,3)
  proof (cases rule: opponent_cases)
    case current
    then have "map msg_body ms = map msg_body (shooter_mail f hit t)"
      using xy(1) assms(4) by (simp add: m pair_mail_def t_def)
    from shooter_sees [OF this] have "gi_enemy_field (bg_interface (fst (game_msgs_loop now ms bg))) = get_for_enemy f"
      by (simp add: sees_def)
    moreover have "opponent_field (sess sv' s) c = f"
      using current(2) len s' by (auto simp: opponent_field_def opponent_idx_def get_enemy_idx_def FIRST_PLAYER_def SECOND_PLAYER_def)
    ultimately show ?thesis by simp
  next
    case waiting
    then have "map msg_body ms = map msg_body (target_mail f hit t)"
      using xy two_players [OF i(2) xy] assms(4) by (simp add: m pair_mail_def t_def)
    from target_sees [OF this] have "gi_enemy_field (bg_interface (fst (game_msgs_loop now ms bg))) = gi_enemy_field (bg_interface bg)"
      by (simp add: sees_def)
    moreover have "opponent_field (sess sv' s) c = opponent_field ?gs c"
      using waiting(2,3) s' by (simp add: opponent_field_def opponent_idx_def)
    ultimately show ?thesis using assms(5) by simp
  qed
qed

lemma follows_view: "follows s c sv ni \<Longrightarrow> gi_enemy_field ni = get_for_enemy (opponent_field (sess sv s) c)"
proof (induction rule: follows.induct)
  case (start sv sv' ms now bg)
  then show ?case by (intro start_view)
next
  case (turn sv bg sv' ms now)
  then show ?case by (intro turn_view)
next
  case (server sv ni sv')
  then show ?case by (simp add: opponent_field_def opponent_idx_def)
qed (simp_all add: message_enemy_field input_enemy_field dispatch_enemy_field)

section \<open>A shot\<close>

lemma first_tried:
  assumes "fresh_cell (enemy_field gs) (gs_last_shot gs)" "has_last_shot gs"
  shows "shot_at (Suc n) r pos gs = Some (gs_last_shot gs)"
  using assms by (simp add: shot_at_def)

text \<open>
  C9. A shot the player makes counts on the server. The input of a reachable interface process is a
  shot only in an own turn; the message with the place of the cursor is then queued, and the own turn
  is over at once. When the screen follows the session, as it does from the start of the game on, and
  the server still waits for the move of this player, the server takes the move: it notes the cell,
  the turn ends, and the cell that the change of the turn then shoots at is this one and no random
  one, whatever the random numbers are.
\<close>

theorem shots_count_on_server:
  assumes "reach game_start game_step (False, bg)"
    and "process_input key (bg_interface bg) = (SHOT_IN, ni, out)"
    and "follows s c sv (bg_interface bg)" "server_inv sv" "has_session sv c (Some s)"
    and "gs_state (sess sv s) = GAME_TURN" "gs_players (sess sv s) ! nat (gs_cur (sess sv s)) = Some c"
    and "\<not> has_last_shot (sess sv s)"
  shows "gi_mode (bg_interface bg) = OWN_TURN_MODE
    \<and> (let bg' = fst (dispatch_input SHOT_IN (bg\<lparr>bg_interface := ni\<rparr>)); p = get_related_pos (ni_cursor (bg_interface bg)) in
        bg_to_server bg' = bg_to_server bg @ [new_msg (GameMoveMsg p)] \<and> gi_mode (bg_interface bg') = WAIT_MODE
        \<and> ok_with (\<lambda>sv'. gs_state (sess sv' s) = PROCESS_TURN \<and> gs_last_shot (sess sv' s) = p
            \<and> shot_at (Suc n) r pos (sess sv' s) = Some p
            \<and> fst (register_shot (enemy_field (sess sv' s)) p) \<noteq> CELL_EMPTY)
          (process_game_move_msg c p sv))"
proof -
  let ?gs = "sess sv s" and ?p = "get_related_pos (ni_cursor (bg_interface bg))"
  have ok: "interface_ok (bg_interface bg)"
    using game_sys.reach_inv [OF assms(1)] by (simp add: game_state_ok_def game_ok_def)
  note d = shot_dispatch [OF ok assms(2), unfolded Let_def]
  note i = client_in_session [OF assms(4,5)]
  have opp: "opponent_field ?gs c = enemy_field ?gs"
    using i(2,3)
  proof (cases rule: opponent_cases)
    case waiting
    then show ?thesis using two_players [OF i(2) assms(7) waiting(1)] by simp
  qed (simp add: opponent_field_def enemy_field_def)
  have wf: "wf_field (enemy_field ?gs)" using i(2) get_enemy_idx_range [of "gs_cur ?gs"]
    by (auto simp: session_ok_def enemy_field_def get_enemy_idx_def FIRST_PLAYER_def SECOND_PLAYER_def)
  have reg: "fst (register_shot (enemy_field ?gs) ?p) \<noteq> CELL_EMPTY"
    using d wf follows_view [OF assms(3)] opp by simp
  have "move_counts c ?gs" using assms(6-8) by (simp add: move_counts_def)
  then obtain sv' where sv': "process_game_move_msg c ?p sv = Inr sv'"
    "sv_sessions sv' = (sv_sessions sv)[s := after_move ?p ?gs]"
    using move_result [OF assms(4,5), of ?p] by auto
  then have g': "sess sv' s = ?gs\<lparr>gs_last_shot := ?p, gs_state := PROCESS_TURN, gs_turn_timeout := None\<rparr>"
    using i(1) assms(6) by (simp add: after_move_def)
  then have ef: "enemy_field (sess sv' s) = enemy_field ?gs" by (simp add: enemy_field_def)
  have "has_last_shot (sess sv' s)" using d by (auto simp: g' has_last_shot_def point_neq_iff field_contains_iff)
  moreover have "fresh_cell (enemy_field (sess sv' s)) ?p" using reg register_fresh by (simp add: ef)
  ultimately have "shot_at (Suc n) r pos (sess sv' s) = Some ?p"
    using first_tried [of "sess sv' s"] by (simp add: g')
  then show ?thesis using d sv'(1) reg ef by (simp add: Let_def g')
qed

text \<open>The first player has placed the sample fleet, the second one nothing yet and has the first turn.\<close>

definition before_game :: Server where
  "before_game = ServerProps.sample_game WAIT_START GameField_default"

lemma sample_view: "get_for_enemy sample_field = GameField_default"
proof (rule field_eqI)
  fix i j :: nat assume ij: "i < 10" "j < 10"
  have s: "set (gf_cells sample_field) \<subseteq> {0, 1}" "length (gf_cells sample_field) = 100" by (simp_all add: sample_field_def)
  then have "gf_cells sample_field ! (10 * i + j) \<in> set (gf_cells sample_field)" using ij by (intro nth_mem) simp
  with s(1) have "gf_cells sample_field ! (10 * i + j) \<in> {0, 1}" by blast
  then have "cell sample_field i j = 0 \<or> cell sample_field i j = 1" by (simp add: cell_def)
  then have "cell (get_for_enemy sample_field) i j = 0" using ij by (auto simp: cell_get_for_enemy)
  moreover have "cell GameField_default i j = 0" using ij by (simp add: GameField_default_def cell_def)
  ultimately show "cell (get_for_enemy sample_field) i j = cell GameField_default i j" by simp
qed (simp_all add: wf_get_for_enemy)

lemma sample_turn:
  "\<exists>sv. follows 0 1 sv (bg_interface after_turn) \<and> server_inv sv \<and> has_session sv 1 (Some 0)
    \<and> gs_state (sess sv 0) = GAME_TURN \<and> gs_players (sess sv 0) ! nat (gs_cur (sess sv 0)) = Some 1
    \<and> \<not> has_last_shot (sess sv 0)"
proof -
  let ?gs = "sample_session WAIT_START GameField_default"
  have i: "winv {} {} before_game" unfolding before_game_def by (rule sample_game_inv) (simp_all add: playing_def)
  have hs: "has_session before_game 1 (Some 0)" unfolding before_game_def by (rule sample_game_client) simp
  have g: "sess before_game 0 = ?gs" "gs_state ?gs = WAIT_START" "gs_players ?gs = [Some 0, Some 1]"
    "gs_fields ?gs = [sample_field, GameField_default]" "0 < length (sv_sessions before_game)"
    by (simp_all add: before_game_def ServerProps.sample_game_def sample_session_def)
  have "ok_with (\<lambda>_. True) (send_start_fields 0 before_game)"
    using send_start_fields_keeps [OF i g(5)] by (rule ok_with_mono) simp
  then obtain sv1 where sv1: "send_start_fields 0 before_game = Inr sv1" by (auto dest!: ok_withD)
  have m: "new_mail 1 before_game sv1 = [new_msg (GameFieldMsg GameField_default True), new_msg (GameFieldMsg GameField_default False)]"
    using new_mail_mails [OF start_fields_mails [OF sv1, of 0 1 sample_field GameField_default], of 1] g hs has_session_alive
    by (auto simp: pair_mail_def sample_view)
  have own: "gi_own_field (bg_interface GameProcess.sample_game) = GameField_default"
    by (simp add: GameProcess.sample_game_def set_client_fd_def mk_game_def mk_interface_def Let_def split_beta
      init_curses_mode_def move_cursor_to_own_field_def)
  have "bg_interface (fst (game_msgs_loop 0 (new_mail 1 before_game sv1) GameProcess.sample_game)) = bg_interface GameProcess.sample_game"
    unfolding m using own by (simp add: game_process_msg_def new_msg_def process_field_msg_def on_interface_def set_own_field_def set_enemy_field_def
      sample_interface)
  then have f1: "follows 0 1 sv1 (bg_interface GameProcess.sample_game)"
    using follows.start [of before_game 1 0 sv1 "new_mail 1 before_game sv1" 0 GameProcess.sample_game] i hs g sv1
    by (simp add: server_inv_winv)
  from follows.message [OF this, of turn_msg 100] have f2: "follows 0 1 sv1 (bg_interface after_turn)"
    by (simp add: turn_msg_def game_process_msg_def after_turn_def)
  let ?sv = "before_game\<lparr>sv_rand_pos := 1\<rparr>"
  have w: "winv {} {} ?sv" using i by simp
  have "ok_with (\<lambda>sv. gs_state (sess sv 0) = GAME_TURN \<and> gs_cur (sess sv 0) = 1 \<and> gs_players (sess sv 0) = [Some 0, Some 1]
      \<and> gs_fields (sess sv 0) = [sample_field, GameField_default] \<and> \<not> has_last_shot (sess sv 0)) (start_game 0 ?sv)" by code_simp
  then obtain sv2 where sv2: "start_game 0 ?sv = Inr sv2" "gs_state (sess sv2 0) = GAME_TURN" "gs_cur (sess sv2 0) = 1"
    "gs_players (sess sv2 0) = [Some 0, Some 1]" "gs_fields (sess sv2 0) = [sample_field, GameField_default]" "\<not> has_last_shot (sess sv2 0)"
    by (auto dest!: ok_withD)
  have "res_with {} (keeps {} {} ?sv) (start_game 0 ?sv)" using g(5) by (intro start_game_keeps [OF w]) simp
  then have k: "server_inv sv2" "length (sv_sessions sv2) = length (sv_sessions before_game)"
    using sv2(1) by (auto simp: server_inv_winv dest: keepsD)
  have "has_session sv2 1 (Some 0)"
    using k g(5) sv2(4) by (auto simp: server_inv_winv winv_def core_inv_def links_ok_def has_session_def players_of_def)
  moreover have "sess sv1 0 = ?gs" using start_fields_sessions [OF sv1] g(1) by simp
  then have "follows 0 1 sv2 (bg_interface after_turn)"
    using follows.server [OF f2, of sv2] sv2(4,5) g(3,4) by simp
  ultimately show ?thesis using k(1) sv2 by (intro exI [of _ sv2]) simp
qed

theorem shots_count_on_server_witness:
  "\<exists>sv sv'. follows 0 1 sv (bg_interface after_turn) \<and> process_game_move_msg 1 (Point 0 0) sv = Inr sv'
    \<and> gs_state (sess sv' 0) = PROCESS_TURN \<and> shot_at 1 (\<lambda>n. n) 0 (sess sv' 0) = Some (Point 0 0)"
proof -
  obtain sv where sv: "follows 0 1 sv (bg_interface after_turn)" "server_inv sv" "has_session sv 1 (Some 0)"
    "gs_state (sess sv 0) = GAME_TURN" "gs_players (sess sv 0) ! nat (gs_cur (sess sv 0)) = Some 1" "\<not> has_last_shot (sess sv 0)"
    using sample_turn by blast
  from shots_count_on_server [OF after_turn_reached shot_input sv, of 0 "\<lambda>n. n" 0]
  show ?thesis using sv(1) by (auto simp: Let_def after_turn_sel dest!: ok_withD)
qed

end
